(* ===== verification/Prelude.thy ===== *)
theory Prelude imports Main "HOL-Library.Word" begin

text \<open>
  What every component of the model shares: the machine types of the Rust code, its
  results and locks, and the generic lemmas and lemma collections of the development.

  \<^item> \<open>usize\<close> is \<^typ>\<open>nat\<close> with the 64-bit bound written where the code saturates;
    \<open>i64\<close> is \<^typ>\<open>int\<close> with the two's complement range written where the code adds;
    \<open>u8\<close>, \<open>u32\<close> and \<open>u64\<close> are words where the code works bitwise.
  \<^item> \<open>String\<close> and \<open>&str\<close> are \<^typ>\<open>string\<close>: a list of characters of 8 bits, read as the
    UTF-8 bytes of the Rust string. \<open>Vec<u8>\<close> is a list of 8-bit words.
  \<^item> \<open>Result<T, E>\<close> is \<open>'e + 'a\<close>, \<open>Inl\<close> the error; the \<open>?\<close> operator is \<open>res_bind\<close>.
  \<^item> \<open>Mutex<T>\<close> is a value with its poison flag.
\<close>

type_synonym bytes = "8 word list"

text \<open>Lemma collections: the fault-free equations of SQL statements (\<open>sql_run\<close>), the
  fault simulation rules (\<open>sql_sim\<close>), and the definitions of one-line handler steps that
  component proofs unfold together (\<open>step_defs\<close>).\<close>

named_theorems sql_run
named_theorems sql_sim
named_theorems step_defs

subsection \<open>Results and the question-mark operator\<close>

definition res_bind :: "'e + 'a \<Rightarrow> ('a \<Rightarrow> 'e + 'b) \<Rightarrow> 'e + 'b" where
  "res_bind r f = (case r of Inl e \<Rightarrow> Inl e | Inr x \<Rightarrow> f x)"

lemma res_bind_simps [simp]:
  "res_bind (Inl e) f = Inl e"
  "res_bind (Inr x) f = f x"
  by (simp_all add: res_bind_def)

lemma res_bind_eq_Inr [simp]:
  "res_bind r f = Inr y \<longleftrightarrow> (\<exists>x. r = Inr x \<and> f x = Inr y)"
  by (cases r) auto

lemma res_bind_eq_Inl:
  "res_bind r f = Inl e \<longleftrightarrow> r = Inl e \<or> (\<exists>x. r = Inr x \<and> f x = Inl e)"
  by (cases r) auto

definition option_ok_or :: "'a option \<Rightarrow> 'e \<Rightarrow> 'e + 'a" where
  "option_ok_or v e = (case v of None \<Rightarrow> Inl e | Some x \<Rightarrow> Inr x)"

lemma option_ok_or_simps [simp]:
  "option_ok_or None e = Inl e"
  "option_ok_or (Some x) e = Inr x"
  by (simp_all add: option_ok_or_def)

text \<open>\<open>Option::or\<close>, \<open>Option::unwrap_or\<close> and \<open>Option::filter\<close>.\<close>

definition option_or :: "'a option \<Rightarrow> 'a option \<Rightarrow> 'a option" where
  "option_or a b = (case a of None \<Rightarrow> b | Some x \<Rightarrow> Some x)"

definition unwrap_or :: "'a option \<Rightarrow> 'a \<Rightarrow> 'a" where
  "unwrap_or a d = (case a of None \<Rightarrow> d | Some x \<Rightarrow> x)"

definition option_filter :: "('a \<Rightarrow> bool) \<Rightarrow> 'a option \<Rightarrow> 'a option" where
  "option_filter p a = (case a of None \<Rightarrow> None | Some x \<Rightarrow> if p x then Some x else None)"

lemma option_or_simps [simp]:
  "option_or None b = b"
  "option_or (Some x) b = Some x"
  by (simp_all add: option_or_def)

lemma unwrap_or_simps [simp]:
  "unwrap_or None d = d"
  "unwrap_or (Some x) d = x"
  by (simp_all add: unwrap_or_def)

lemma option_filter_simps [simp]:
  "option_filter p None = None"
  "option_filter p (Some x) = (if p x then Some x else None)"
  by (simp_all add: option_filter_def)

lemma option_filter_eq_Some [simp]:
  "option_filter p a = Some x \<longleftrightarrow> a = Some x \<and> p x"
  by (cases a) auto

subsection \<open>Machine integers\<close>

definition usize_max :: nat where
  "usize_max = 2 ^ 64 - 1"

definition usize_sat_add :: "nat \<Rightarrow> nat \<Rightarrow> nat" where
  "usize_sat_add a b = min (a + b) usize_max"

definition usize_sat_mul :: "nat \<Rightarrow> nat \<Rightarrow> nat" where
  "usize_sat_mul a b = min (a * b) usize_max"

definition i64_max :: int where
  "i64_max = 2 ^ 63 - 1"

definition i64_min :: int where
  "i64_min = - (2 ^ 63)"

definition i64_sat_add :: "int \<Rightarrow> int \<Rightarrow> int" where
  "i64_sat_add a b = max i64_min (min i64_max (a + b))"

text \<open>The plain \<open>+\<close> on \<open>i64\<close> of a release build: two's complement wrap-around.\<close>

definition i64_add :: "int \<Rightarrow> int \<Rightarrow> int" where
  "i64_add a b = (a + b + 2 ^ 63) mod 2 ^ 64 - 2 ^ 63"

text \<open>\<open>n as i64\<close> for a \<open>usize\<close>: a reinterpretation of the 64 bits.\<close>

definition usize_as_i64 :: "nat \<Rightarrow> int" where
  "usize_as_i64 n = (if n < 2 ^ 63 then int n else int n - 2 ^ 64)"

lemma usize_sat_add_le: "usize_sat_add a b \<le> a + b"
  by (simp add: usize_sat_add_def)

lemma usize_sat_mul_le: "usize_sat_mul a b \<le> a * b"
  by (simp add: usize_sat_mul_def)

lemma i64_add_exact:
  assumes "i64_min \<le> a + b" and "a + b \<le> i64_max"
  shows "i64_add a b = a + b"
  using assms by (simp add: i64_add_def i64_min_def i64_max_def)

lemma usize_as_i64_small: "n < 2 ^ 63 \<Longrightarrow> usize_as_i64 n = int n"
  by (simp add: usize_as_i64_def)

text \<open>\<open>a.div_ceil(b)\<close>\<close>

definition div_ceil :: "nat \<Rightarrow> nat \<Rightarrow> nat" where
  "div_ceil a b = a div b + (if a mod b = 0 then 0 else 1)"

subsection \<open>Locks\<close>

datatype 'a mutex = Mutex (poisoned: bool) (inner: 'a)

definition lock :: "'a mutex \<Rightarrow> 'a option" where
  "lock m = (if poisoned m then None else Some (inner m))"

lemma lock_simps [simp]:
  "lock (Mutex False x) = Some x"
  "lock (Mutex True x) = None"
  by (simp_all add: lock_def)

lemma lock_eq_Some [simp]: "lock m = Some x \<longleftrightarrow> m = Mutex False x"
  by (cases m) (auto simp: lock_def)

subsection \<open>Lists\<close>

lemma filter_map_upd:
  assumes "\<And>x. P (f x) = P x"
  shows "filter P (map f xs) = map f (filter P xs)"
  using assms by (induction xs) auto

lemma length_filter_le_filter:
  assumes "\<And>x. P x \<Longrightarrow> Q x"
  shows "length (filter P xs) \<le> length (filter Q xs)"
  using assms by (induction xs) (auto intro: le_SucI)

lemma distinct_map_filter_same: "distinct (map f xs) \<Longrightarrow> distinct (map f (filter P xs))"
  by (induction xs) auto

text \<open>The first element of a list, as a relation: how a chain of checks picks its error.\<close>

definition first_is :: "'a list \<Rightarrow> 'a \<Rightarrow> bool" where
  "first_is xs e \<longleftrightarrow> (\<exists>r. xs = e # r)"

lemma first_is_simps [simp]:
  "\<not> first_is [] e"
  "first_is (x # xs) e \<longleftrightarrow> e = x"
  by (auto simp: first_is_def)

lemma res_bind_assoc: "res_bind (res_bind r f) g = res_bind r (\<lambda>x. res_bind (f x) g)"
  by (cases r) auto

lemma find_Some_set: "List.find P xs = Some x \<Longrightarrow> x \<in> set xs \<and> P x"
  by (auto simp: find_Some_iff)

lemma find_append:
  "List.find P (xs @ ys) = (case List.find P xs of None \<Rightarrow> List.find P ys | Some x \<Rightarrow> Some x)"
  by (induction xs) simp_all

end
