(* ===== verification/Database.thy ===== *)
theory Database imports Prelude begin

text \<open>
  The tables of the SQLite schema and the SQL statements of \<open>src/store.rs\<close>, one definition
  per statement, over a record of tables. A table is the list of its rows in the order of
  insertion; a constraint of the schema that a statement could violate (primary key, foreign
  key, the bound of the row counter) is an error of that statement.

  A statement is a step of the monad \<open>sql\<close>, which threads the tables and a fault schedule:
  each statement consumes one entry, and an entry \<open>Some e\<close> makes it fail with SQLite's error
  \<open>e\<close> (preparing, executing and stepping the rows of a statement are one fault point: all of
  them end in the same error and roll back alike). The empty schedule never fails. A
  transaction ends with a commit, with an early return that drops it, or with an error; in
  the last two cases the tables are what they were.
\<close>

subsection \<open>Tables\<close>

record route_row =
  rt_key :: string
  rt_log_id :: string
  rt_created_at :: int
  rt_last_touched :: int

record msg_row =
  seq :: nat
  msg_id :: string
  msg_route :: string
  body :: bytes
  enqueued_at :: int
  leased_until :: "int option"

record invite_row =
  slot_key :: string
  inv_log_id :: string
  cap_hash :: string
  revoke_hash :: string
  inv_bundle :: bytes
  inv_sig :: bytes
  expiry :: int
  inv_created_at :: int
  inv_state :: int
  consumed_at :: "int option"
  ticket_hash :: "string option"

text \<open>\<open>last_seq\<close> is the row of \<open>sqlite_sequence\<close> behind \<open>AUTOINCREMENT\<close>.\<close>

record db =
  meta :: "string \<Rightarrow> string option"
  routes :: "route_row list"
  messages :: "msg_row list"
  last_seq :: nat
  invites :: "invite_row list"

definition empty_db :: db where
  "empty_db = \<lparr>meta = (\<lambda>_. None), routes = [], messages = [], last_seq = 0, invites = []\<rparr>"

definition INVITE_ACTIVE :: int where "INVITE_ACTIVE = 0"
definition INVITE_CONSUMED :: int where "INVITE_CONSUMED = 1"
definition INVITE_REVOKED :: int where "INVITE_REVOKED = 2"

lemmas invite_state_defs [simp] = INVITE_ACTIVE_def INVITE_CONSUMED_def INVITE_REVOKED_def

subsection \<open>Statements and transactions\<close>

type_synonym faults = "string option list"

type_synonym 'a sql = "db \<Rightarrow> faults \<Rightarrow> string + 'a \<times> db \<times> faults"

definition map_err :: "string \<Rightarrow> string" where
  "map_err e = ''ERR_STORE '' @ e"

definition sql_return :: "'a \<Rightarrow> 'a sql" where
  "sql_return x d fs = Inr (x, d, fs)"

definition sql_bind :: "'a sql \<Rightarrow> ('a \<Rightarrow> 'b sql) \<Rightarrow> 'b sql" where
  "sql_bind m f d fs = (case m d fs of Inl e \<Rightarrow> Inl e | Inr (x, d', fs') \<Rightarrow> f x d' fs')"

definition stmt :: "(db \<Rightarrow> string + 'a \<times> db) \<Rightarrow> 'a sql" where
  "stmt f d fs =
     (case fs of
        Some e # _ \<Rightarrow> Inl (map_err e)
      | _ \<Rightarrow> (case f d of Inl e \<Rightarrow> Inl (map_err e) | Inr (x, d') \<Rightarrow> Inr (x, d', tl fs)))"

definition query :: "(db \<Rightarrow> 'a) \<Rightarrow> 'a sql" where
  "query f = stmt (\<lambda>d. Inr (f d, d))"

definition execute :: "(db \<Rightarrow> 'a \<times> db) \<Rightarrow> 'a sql" where
  "execute f = stmt (\<lambda>d. Inr (f d))"

text \<open>How a transaction's body ends without error: \<open>tx.commit()?; Ok(x)\<close>, or \<open>return Ok(x)\<close>
  with the transaction still open, which its drop rolls back.\<close>

datatype 'a tx_end = Committed 'a | RolledBack 'a

definition commit :: "'a \<Rightarrow> 'a tx_end sql" where
  "commit x = sql_bind (query (\<lambda>_. ())) (\<lambda>_. sql_return (Committed x))"

definition return_early :: "'a \<Rightarrow> 'a tx_end sql" where
  "return_early x = sql_return (RolledBack x)"

definition run_tx :: "'a tx_end sql \<Rightarrow> faults \<Rightarrow> db \<Rightarrow> (string + 'a) \<times> db" where
  "run_tx b fs d =
     (case sql_bind (query (\<lambda>_. ())) (\<lambda>_. b) d fs of
        Inl e \<Rightarrow> (Inl e, d)
      | Inr (Committed x, d', _) \<Rightarrow> (Inr x, d')
      | Inr (RolledBack x, _, _) \<Rightarrow> (Inr x, d))"

lemma sql_return_run [sql_run]: "sql_return x d fs = Inr (x, d, fs)"
  by (simp add: sql_return_def)

lemma sql_bind_return [sql_run]: "sql_bind (sql_return x) f d fs = f x d fs"
  by (simp add: sql_bind_def sql_return_def)

lemma stmt_run [sql_run]:
  "stmt f d [] = (case f d of Inl e \<Rightarrow> Inl (map_err e) | Inr (x, d') \<Rightarrow> Inr (x, d', []))"
  by (simp add: stmt_def split: sum.split)

lemma query_run [sql_run]: "query f d [] = Inr (f d, d, [])"
  by (simp add: query_def stmt_run)

lemma execute_run [sql_run]: "execute f d [] = Inr (fst (f d), snd (f d), [])"
  by (simp add: execute_def stmt_run split: prod.splits)

lemma sql_bind_run [sql_run]:
  "m d fs = Inr (x, d', fs') \<Longrightarrow> sql_bind m f d fs = f x d' fs'"
  "m d fs = Inl e \<Longrightarrow> sql_bind m f d fs = Inl e"
  by (simp_all add: sql_bind_def)

lemma commit_run [sql_run]: "commit x d [] = Inr (Committed x, d, [])"
  by (simp add: commit_def sql_run)

lemma return_early_run [sql_run]: "return_early x d fs = Inr (RolledBack x, d, fs)"
  by (simp add: return_early_def sql_run)

lemma run_tx_run [sql_run]:
  "run_tx b [] d =
     (case b d [] of
        Inl e \<Rightarrow> (Inl e, d)
      | Inr (Committed x, d', _) \<Rightarrow> (Inr x, d')
      | Inr (RolledBack x, _, _) \<Rightarrow> (Inr x, d))"
  by (simp add: run_tx_def sql_run)

subsection \<open>Faults only turn results into errors\<close>

text \<open>A step is \<open>faithful\<close> when under any schedule it fails or does what it does without
  faults. Every statement is, and the combinators keep it.\<close>

definition faithful :: "'a sql \<Rightarrow> bool" where
  "faithful m \<longleftrightarrow>
     (\<forall>d fs. (\<exists>e. m d fs = Inl e) \<or>
        (\<exists>x d' fs'. m d fs = Inr (x, d', fs') \<and> m d [] = Inr (x, d', [])))"

lemma faithful_stmt [sql_sim]: "faithful (stmt f)"
  by (auto simp: faithful_def stmt_def split: list.splits option.splits sum.splits)

lemma faithful_query [sql_sim]: "faithful (query f)"
  unfolding query_def by (rule faithful_stmt)

lemma faithful_execute [sql_sim]: "faithful (execute f)"
  unfolding execute_def by (rule faithful_stmt)

lemma faithful_return [sql_sim]: "faithful (sql_return x)"
  by (simp add: faithful_def sql_return_def)

lemma faithful_bind [sql_sim]:
  assumes "faithful m" and "\<And>x. faithful (f x)"
  shows "faithful (sql_bind m f)"
  unfolding faithful_def
proof (intro allI)
  fix d fs
  from assms(1) consider e where "m d fs = Inl e"
    | x d' fs' where "m d fs = Inr (x, d', fs')" "m d [] = Inr (x, d', [])"
    unfolding faithful_def by blast
  then show "(\<exists>e. sql_bind m f d fs = Inl e) \<or>
      (\<exists>x d' fs'. sql_bind m f d fs = Inr (x, d', fs') \<and> sql_bind m f d [] = Inr (x, d', []))"
  proof cases
    case 1
    then show ?thesis by (simp add: sql_bind_def)
  next
    case (2 x d' fs')
    then show ?thesis using assms(2) [of x] by (simp add: sql_bind_def faithful_def)
  qed
qed

lemma faithful_commit [sql_sim]: "faithful (commit x)"
  unfolding commit_def by (intro sql_sim)

lemma faithful_return_early [sql_sim]: "faithful (return_early x)"
  unfolding return_early_def by (intro sql_sim)

lemma faithful_if [sql_sim]: "faithful m \<Longrightarrow> faithful m' \<Longrightarrow> faithful (if b then m else m')"
  by simp

lemma faithful_case_option [sql_sim]:
  "faithful m \<Longrightarrow> (\<And>x. faithful (f x)) \<Longrightarrow> faithful (case o' of None \<Rightarrow> m | Some x \<Rightarrow> f x)"
  by (cases o') simp_all

lemma run_tx_faults:
  assumes "faithful b"
  shows "run_tx b fs d = run_tx b [] d \<or> (\<exists>e. run_tx b fs d = (Inl e, d))"
proof -
  let ?m = "sql_bind (query (\<lambda>_. ())) (\<lambda>_. b)"
  have "faithful ?m" by (intro sql_sim assms)
  then consider e where "?m d fs = Inl e"
    | x d' fs' where "?m d fs = Inr (x, d', fs')" "?m d [] = Inr (x, d', [])"
    unfolding faithful_def by blast
  then show ?thesis
    by cases (auto simp: run_tx_def split: tx_end.splits)
qed

subsection \<open>Statements on routes and messages\<close>

text \<open>\<open>SELECT EXISTS(SELECT 1 FROM routes WHERE route_key = ?1)\<close>\<close>

definition has_route :: "string \<Rightarrow> db \<Rightarrow> bool" where
  "has_route k d \<longleftrightarrow> k \<in> set (map rt_key (routes d))"

definition select_route_exists :: "string \<Rightarrow> bool sql" where
  "select_route_exists k = query (has_route k)"

text \<open>The queue of a route: its rows of \<open>messages\<close>, in row order.\<close>

definition queue :: "db \<Rightarrow> string \<Rightarrow> msg_row list" where
  "queue d k = filter (\<lambda>m. msg_route m = k) (messages d)"

text \<open>\<open>SELECT COUNT(*) FROM messages WHERE route_key = ?1\<close>\<close>

definition select_depth :: "string \<Rightarrow> nat sql" where
  "select_depth k = query (\<lambda>d. length (queue d k))"

text \<open>\<open>SELECT COUNT(*) FROM routes\<close>\<close>

definition select_route_count :: "nat sql" where
  "select_route_count = query (\<lambda>d. length (routes d))"

text \<open>\<open>INSERT INTO routes(route_key, log_id, created_at, last_touched) VALUES(?1, ?2, ?3, ?3)\<close>\<close>

definition insert_route :: "string \<Rightarrow> string \<Rightarrow> int \<Rightarrow> unit sql" where
  "insert_route k lid now = stmt (\<lambda>d.
     if has_route k d then Inl ''UNIQUE constraint failed: routes.route_key''
     else Inr ((), d\<lparr>routes := routes d @
       [\<lparr>rt_key = k, rt_log_id = lid, rt_created_at = now, rt_last_touched = now\<rparr>]\<rparr>))"

text \<open>\<open>INSERT INTO messages(msg_id, route_key, body, enqueued_at) VALUES(?1, ?2, ?3, ?4)\<close>\<close>

definition new_message :: "db \<Rightarrow> string \<Rightarrow> string \<Rightarrow> bytes \<Rightarrow> int \<Rightarrow> msg_row" where
  "new_message d mid k b now =
     \<lparr>seq = Suc (last_seq d), msg_id = mid, msg_route = k, body = b, enqueued_at = now,
      leased_until = None\<rparr>"

definition insert_message :: "string \<Rightarrow> string \<Rightarrow> bytes \<Rightarrow> int \<Rightarrow> unit sql" where
  "insert_message mid k b now = stmt (\<lambda>d.
     if \<not> has_route k d then Inl ''FOREIGN KEY constraint failed''
     else if 2 ^ 63 - 1 \<le> last_seq d then Inl ''database or disk is full''
     else Inr ((), d\<lparr>messages := messages d @ [new_message d mid k b now],
                     last_seq := Suc (last_seq d)\<rparr>))"

text \<open>\<open>UPDATE routes SET last_touched = ?2 WHERE route_key = ?1\<close>\<close>

definition touch :: "string \<Rightarrow> int \<Rightarrow> db \<Rightarrow> db" where
  "touch k now d = d\<lparr>routes :=
     map (\<lambda>r. if rt_key r = k then r\<lparr>rt_last_touched := now\<rparr> else r) (routes d)\<rparr>"

definition update_last_touched :: "string \<Rightarrow> int \<Rightarrow> unit sql" where
  "update_last_touched k now = execute (\<lambda>d. ((), touch k now d))"

text \<open>\<open>DELETE FROM routes WHERE route_key = ?1\<close>: the number of rows, with the cascade of the
  foreign key.\<close>

definition drop_route :: "string \<Rightarrow> db \<Rightarrow> db" where
  "drop_route k d =
     d\<lparr>routes := filter (\<lambda>r. rt_key r \<noteq> k) (routes d),
       messages := (if has_route k d then filter (\<lambda>m. msg_route m \<noteq> k) (messages d)
                    else messages d)\<rparr>"

definition delete_route :: "string \<Rightarrow> nat sql" where
  "delete_route k = execute (\<lambda>d.
     (length (filter (\<lambda>r. rt_key r = k) (routes d)), drop_route k d))"

subsection \<open>Statements of the retention sweep\<close>

text \<open>\<open>enqueued_at <= ?2 - ?1\<close>\<close>

definition expired :: "int \<Rightarrow> int \<Rightarrow> msg_row \<Rightarrow> bool" where
  "expired ttl now m \<longleftrightarrow> enqueued_at m \<le> now - ttl"

text \<open>\<open>SWEEP_COUNT_EXPIRED_SQL\<close>: the groups come in the order of the routes table.\<close>

definition count_expired :: "int \<Rightarrow> int \<Rightarrow> db \<Rightarrow> (string \<times> nat) list" where
  "count_expired ttl now d =
     filter (\<lambda>(_, n). n \<noteq> 0)
       (map (\<lambda>r. (rt_log_id r, length (filter (expired ttl now) (queue d (rt_key r))))) (routes d))"

definition select_expired_counts :: "int \<Rightarrow> int \<Rightarrow> (string \<times> nat) list sql" where
  "select_expired_counts ttl now = query (count_expired ttl now)"

text \<open>\<open>SWEEP_DELETE_EXPIRED_SQL\<close>\<close>

definition drop_expired :: "int \<Rightarrow> int \<Rightarrow> db \<Rightarrow> db" where
  "drop_expired ttl now d = d\<lparr>messages := filter (\<lambda>m. \<not> expired ttl now m) (messages d)\<rparr>"

definition delete_expired :: "int \<Rightarrow> int \<Rightarrow> nat sql" where
  "delete_expired ttl now = execute (\<lambda>d.
     (length (filter (expired ttl now) (messages d)), drop_expired ttl now d))"

text \<open>\<open>... FROM routes r WHERE NOT EXISTS (SELECT 1 FROM messages m WHERE m.route_key = r.route_key)\<close>\<close>

definition route_idle :: "db \<Rightarrow> route_row \<Rightarrow> bool" where
  "route_idle d r \<longleftrightarrow> queue d (rt_key r) = []"

definition select_idle_routes :: "string list sql" where
  "select_idle_routes = query (\<lambda>d. map rt_key (filter (route_idle d) (routes d)))"

definition drop_idle_routes :: "db \<Rightarrow> db" where
  "drop_idle_routes d = d\<lparr>routes := filter (\<lambda>r. \<not> route_idle d r) (routes d)\<rparr>"

definition delete_idle_routes :: "unit sql" where
  "delete_idle_routes = execute (\<lambda>d. ((), drop_idle_routes d))"

text \<open>\<open>DELETE FROM invites WHERE expiry <= ?1\<close>\<close>

definition drop_expired_invites :: "int \<Rightarrow> db \<Rightarrow> db" where
  "drop_expired_invites now d = d\<lparr>invites := filter (\<lambda>i. \<not> expiry i \<le> now) (invites d)\<rparr>"

definition delete_expired_invites :: "int \<Rightarrow> nat sql" where
  "delete_expired_invites now = execute (\<lambda>d.
     (length (filter (\<lambda>i. expiry i \<le> now) (invites d)), drop_expired_invites now d))"

subsection \<open>Statements of pull and acknowledgement\<close>

text \<open>\<open>SELECT seq, msg_id, body FROM messages WHERE route_key = ?1 AND (leased_until IS NULL OR
  leased_until <= ?2) ORDER BY seq LIMIT ?3\<close>; a negative limit is no limit.\<close>

definition available :: "int \<Rightarrow> msg_row \<Rightarrow> bool" where
  "available now m \<longleftrightarrow> (case leased_until m of None \<Rightarrow> True | Some t \<Rightarrow> t \<le> now)"

definition sql_limit :: "int \<Rightarrow> 'a list \<Rightarrow> 'a list" where
  "sql_limit n xs = (if n < 0 then xs else take (nat n) xs)"

definition select_available :: "string \<Rightarrow> int \<Rightarrow> int \<Rightarrow> msg_row list sql" where
  "select_available k now n = query (\<lambda>d.
     sql_limit n (sort_key seq (filter (available now) (queue d k))))"

text \<open>\<open>DELETE FROM messages WHERE seq IN (...)\<close> and
  \<open>UPDATE messages SET leased_until = {deadline} WHERE seq IN (...)\<close>\<close>

definition drop_seqs :: "nat list \<Rightarrow> db \<Rightarrow> db" where
  "drop_seqs seqs d = d\<lparr>messages := filter (\<lambda>m. seq m \<notin> set seqs) (messages d)\<rparr>"

definition delete_seqs :: "nat list \<Rightarrow> unit sql" where
  "delete_seqs seqs = execute (\<lambda>d. ((), drop_seqs seqs d))"

definition lease_seqs :: "nat list \<Rightarrow> int \<Rightarrow> db \<Rightarrow> db" where
  "lease_seqs seqs deadline d = d\<lparr>messages :=
     map (\<lambda>m. if seq m \<in> set seqs then m\<lparr>leased_until := Some deadline\<rparr> else m) (messages d)\<rparr>"

definition update_lease :: "nat list \<Rightarrow> int \<Rightarrow> unit sql" where
  "update_lease seqs deadline = execute (\<lambda>d. ((), lease_seqs seqs deadline d))"

text \<open>\<open>DELETE FROM messages WHERE route_key = ?1 AND leased_until IS NOT NULL AND msg_id IN (...)\<close>\<close>

definition acked_by :: "string \<Rightarrow> string list \<Rightarrow> msg_row \<Rightarrow> bool" where
  "acked_by k ids m \<longleftrightarrow> msg_route m = k \<and> leased_until m \<noteq> None \<and> msg_id m \<in> set ids"

definition drop_acked :: "string \<Rightarrow> string list \<Rightarrow> db \<Rightarrow> db" where
  "drop_acked k ids d = d\<lparr>messages := filter (\<lambda>m. \<not> acked_by k ids m) (messages d)\<rparr>"

definition delete_acked :: "string \<Rightarrow> string list \<Rightarrow> nat sql" where
  "delete_acked k ids = execute (\<lambda>d.
     (length (filter (acked_by k ids) (messages d)), drop_acked k ids d))"

subsection \<open>Statements on invites\<close>

text \<open>\<open>SELECT ... FROM invites WHERE slot_key = ?1\<close>\<close>

definition find_invite :: "string \<Rightarrow> db \<Rightarrow> invite_row option" where
  "find_invite k d = List.find (\<lambda>i. slot_key i = k) (invites d)"

definition select_invite :: "string \<Rightarrow> invite_row option sql" where
  "select_invite k = query (find_invite k)"

definition select_invite_exists :: "string \<Rightarrow> bool sql" where
  "select_invite_exists k = query (\<lambda>d. k \<in> set (map slot_key (invites d)))"

definition select_invite_count :: "nat sql" where
  "select_invite_count = query (\<lambda>d. length (invites d))"

definition insert_invite :: "invite_row \<Rightarrow> unit sql" where
  "insert_invite i = stmt (\<lambda>d.
     if slot_key i \<in> set (map slot_key (invites d))
     then Inl ''UNIQUE constraint failed: invites.slot_key''
     else Inr ((), d\<lparr>invites := invites d @ [i]\<rparr>))"

text \<open>\<open>UPDATE invites SET state = ?2, consumed_at = ?3, ticket_hash = ?4, bundle = x'', invite_sig = x''
  WHERE slot_key = ?1 AND state = ?5\<close>\<close>

definition map_invites :: "(invite_row \<Rightarrow> bool) \<Rightarrow> (invite_row \<Rightarrow> invite_row) \<Rightarrow> db \<Rightarrow> db" where
  "map_invites p f d = d\<lparr>invites := map (\<lambda>i. if p i then f i else i) (invites d)\<rparr>"

definition consume :: "int \<Rightarrow> string \<Rightarrow> invite_row \<Rightarrow> invite_row" where
  "consume now th i =
     i\<lparr>inv_state := INVITE_CONSUMED, consumed_at := Some now, ticket_hash := Some th,
       inv_bundle := [], inv_sig := []\<rparr>"

definition update_consume :: "string \<Rightarrow> int \<Rightarrow> string \<Rightarrow> nat sql" where
  "update_consume k now th = execute (\<lambda>d.
     (length (filter (\<lambda>i. slot_key i = k \<and> inv_state i = INVITE_ACTIVE) (invites d)),
      map_invites (\<lambda>i. slot_key i = k \<and> inv_state i = INVITE_ACTIVE) (consume now th) d))"

text \<open>\<open>UPDATE invites SET state = ?2, bundle = x'', invite_sig = x'', ticket_hash = NULL
  WHERE slot_key = ?1\<close>\<close>

definition revoke :: "invite_row \<Rightarrow> invite_row" where
  "revoke i = i\<lparr>inv_state := INVITE_REVOKED, inv_bundle := [], inv_sig := [], ticket_hash := None\<rparr>"

definition update_revoke :: "string \<Rightarrow> unit sql" where
  "update_revoke k = execute (\<lambda>d. ((), map_invites (\<lambda>i. slot_key i = k) revoke d))"

text \<open>\<open>UPDATE invites SET ticket_hash = NULL WHERE slot_key = ?1\<close>\<close>

definition burn :: "invite_row \<Rightarrow> invite_row" where
  "burn i = i\<lparr>ticket_hash := None\<rparr>"

definition update_burn :: "string \<Rightarrow> unit sql" where
  "update_burn k = execute (\<lambda>d. ((), map_invites (\<lambda>i. slot_key i = k) burn d))"

lemma slot_key_updates [simp]:
  "slot_key (consume now th i) = slot_key i" "slot_key (revoke i) = slot_key i"
  "slot_key (burn i) = slot_key i"
  by (simp_all add: consume_def revoke_def burn_def)

lemmas statement_defs =
  select_route_exists_def select_depth_def select_route_count_def insert_route_def
  insert_message_def update_last_touched_def delete_route_def select_expired_counts_def
  delete_expired_def select_idle_routes_def delete_idle_routes_def delete_expired_invites_def
  select_available_def delete_seqs_def update_lease_def delete_acked_def select_invite_def
  select_invite_exists_def select_invite_count_def insert_invite_def update_consume_def
  update_revoke_def update_burn_def

lemma faithful_statements [sql_sim]:
  "faithful (select_route_exists k)" "faithful (select_depth k)" "faithful select_route_count"
  "faithful (insert_route k lid now)" "faithful (insert_message mid k b now)"
  "faithful (update_last_touched k now)" "faithful (delete_route k)"
  "faithful (select_expired_counts ttl now)" "faithful (delete_expired ttl now)"
  "faithful select_idle_routes" "faithful delete_idle_routes"
  "faithful (delete_expired_invites now)" "faithful (select_available k now n)"
  "faithful (delete_seqs seqs)" "faithful (update_lease seqs deadline)"
  "faithful (delete_acked k ids)" "faithful (select_invite k)" "faithful (select_invite_exists k)"
  "faithful select_invite_count" "faithful (insert_invite i)" "faithful (update_consume k now th)"
  "faithful (update_revoke k)" "faithful (update_burn k)"
  unfolding statement_defs by (intro sql_sim)+

end
