(* ===== verification/Rust_Text.thy ===== *)
theory Rust_Text imports Prelude begin

text \<open>
  The operations of Rust's standard library on strings and numbers that the program
  uses, on strings as UTF-8 bytes: trimming of Unicode white space, \<open>parse::<usize>\<close>,
  \<open>parse::<u16>\<close> and \<open>parse::<i64>\<close>, decimal and hexadecimal formatting, prefixes.
  They are modelled here once and used by the configuration, the credential and the
  handler theories.
\<close>

unbundle bit_operations_syntax

definition char_code :: "char \<Rightarrow> nat" where
  "char_code c = of_char c"

subsection \<open>White space\<close>

text \<open>The byte sequences of the characters with the property \<open>White_Space\<close>.\<close>

fun ws_codes :: "nat list \<Rightarrow> bool" where
  "ws_codes [a] = (9 \<le> a \<and> a \<le> 13 \<or> a = 32)"
| "ws_codes [a, b] = (a = 194 \<and> (b = 133 \<or> b = 160))"
| "ws_codes [a, b, c] =
     (a = 225 \<and> b = 154 \<and> c = 128 \<or>
      a = 226 \<and> b = 128 \<and> (128 \<le> c \<and> c \<le> 138 \<or> c = 168 \<or> c = 169 \<or> c = 175) \<or>
      a = 226 \<and> b = 129 \<and> c = 159 \<or>
      a = 227 \<and> b = 128 \<and> c = 128)"
| "ws_codes _ = False"

definition ws_char :: "string \<Rightarrow> bool" where
  "ws_char s = ws_codes (map char_code s)"

text \<open>The width of the white-space character a string starts with, 0 when there is none.\<close>

definition ws_front :: "string \<Rightarrow> nat" where
  "ws_front s =
     (if ws_char (take 1 s) then 1 else if ws_char (take 2 s) then 2
      else if ws_char (take 3 s) then 3 else 0)"

definition ws_back :: "string \<Rightarrow> nat" where
  "ws_back s =
     (let n = length s in
      if ws_char (drop (n - 1) s) then 1 else if ws_char (drop (n - 2) s) then 2
      else if ws_char (drop (n - 3) s) then 3 else 0)"

lemma ws_char_Nil [simp]: "\<not> ws_char []"
  by (simp add: ws_char_def)

lemma ws_front_Nil [simp]: "ws_front [] = 0"
  by (simp add: ws_front_def)

lemma ws_back_Nil [simp]: "ws_back [] = 0"
  by (simp add: ws_back_def)

function trim_start :: "string \<Rightarrow> string" where
  "trim_start s = (if ws_front s = 0 then s else trim_start (drop (ws_front s) s))"
  by pat_completeness auto
termination
proof (relation "measure length")
  fix s assume "ws_front s \<noteq> 0"
  moreover from this have "s \<noteq> []" by auto
  ultimately show "(drop (ws_front s) s, s) \<in> measure length"
    by (simp add: length_greater_0_conv)
qed simp

function trim_end :: "string \<Rightarrow> string" where
  "trim_end s = (if ws_back s = 0 then s else trim_end (take (length s - ws_back s) s))"
  by pat_completeness auto
termination
proof (relation "measure length")
  fix s assume "ws_back s \<noteq> 0"
  moreover from this have "s \<noteq> []" by auto
  ultimately show "(take (length s - ws_back s) s, s) \<in> measure length"
    by (simp add: length_greater_0_conv)
qed simp

declare trim_start.simps [simp del] trim_end.simps [simp del]

definition trim :: "string \<Rightarrow> string" where
  "trim s = trim_end (trim_start s)"

text \<open>\<open>s.trim().is_empty()\<close>\<close>

definition blank :: "string \<Rightarrow> bool" where
  "blank s = (trim s = [])"

lemma trim_start_fix: "ws_front (trim_start s) = 0"
proof (induction s rule: trim_start.induct)
  case (1 s)
  then show ?case by (cases "ws_front s = 0") (simp_all add: trim_start.simps [of s])
qed

lemma trim_end_fix: "ws_back (trim_end s) = 0"
proof (induction s rule: trim_end.induct)
  case (1 s)
  then show ?case by (cases "ws_back s = 0") (simp_all add: trim_end.simps [of s])
qed

lemma trim_end_prefix: "\<exists>t. s = trim_end s @ t"
proof (induction s rule: trim_end.induct)
  case (1 s)
  show ?case
  proof (cases "ws_back s = 0")
    case True
    then show ?thesis by (simp add: trim_end.simps [of s])
  next
    case False
    with 1 obtain t where "take (length s - ws_back s) s = trim_end s @ t"
      by (auto simp: trim_end.simps [of s])
    then have "s = trim_end s @ t @ drop (length s - ws_back s) s"
      by (metis append_assoc append_take_drop_id)
    then show ?thesis by blast
  qed
qed

lemma blank_Nil [simp]: "blank []"
  by (simp add: blank_def trim_def trim_start.simps [of "[]"] trim_end.simps [of "[]"])

subsection \<open>Prefixes and suffixes\<close>

fun strip_prefix :: "string \<Rightarrow> string \<Rightarrow> string option" where
  "strip_prefix [] s = Some s"
| "strip_prefix (p # ps) [] = None"
| "strip_prefix (p # ps) (c # cs) = (if p = c then strip_prefix ps cs else None)"

lemma strip_prefix_eq_Some: "strip_prefix p s = Some t \<longleftrightarrow> s = p @ t"
  by (induction p s rule: strip_prefix.induct) auto

text \<open>\<open>s.trim_end_matches(c)\<close>\<close>

definition trim_end_matches :: "char \<Rightarrow> string \<Rightarrow> string" where
  "trim_end_matches c s = rev (dropWhile (\<lambda>x. x = c) (rev s))"

lemma trim_end_matches_id: "c \<notin> set s \<Longrightarrow> trim_end_matches c s = s"
  by (cases s rule: rev_cases) (auto simp: trim_end_matches_def)

subsection \<open>Decimal numbers\<close>

definition is_digit :: "char \<Rightarrow> bool" where
  "is_digit c = (48 \<le> char_code c \<and> char_code c \<le> 57)"

text \<open>The accumulation of \<open>from_str_radix(_, 10)\<close>: fails on a byte that is no digit and when
  the value passes the type's largest one.\<close>

fun parse_digits :: "nat \<Rightarrow> nat \<Rightarrow> string \<Rightarrow> nat option" where
  "parse_digits mx acc [] = Some acc"
| "parse_digits mx acc (c # cs) =
     (if is_digit c then
        (let v = acc * 10 + (char_code c - 48) in
         if mx < v then None else parse_digits mx v cs)
      else None)"

definition parse_unsigned :: "nat \<Rightarrow> string \<Rightarrow> nat option" where
  "parse_unsigned mx s =
     (case s of [] \<Rightarrow> None
      | c # cs \<Rightarrow> if c = CHR ''+'' then (if cs = [] then None else parse_digits mx 0 cs)
                   else parse_digits mx 0 s)"

definition parse_i64 :: "string \<Rightarrow> int option" where
  "parse_i64 s =
     (case s of [] \<Rightarrow> None
      | c # cs \<Rightarrow>
          if c = CHR ''+'' then
            (if cs = [] then None else map_option int (parse_digits (2 ^ 63 - 1) 0 cs))
          else if c = CHR ''-'' then
            (if cs = [] then None else map_option (\<lambda>n. - int n) (parse_digits (2 ^ 63) 0 cs))
          else map_option int (parse_digits (2 ^ 63 - 1) 0 s))"

fun nat_to_string :: "nat \<Rightarrow> string" where
  "nat_to_string n =
     (if n < 10 then [char_of (48 + n)] else nat_to_string (n div 10) @ [char_of (48 + n mod 10)])"

declare nat_to_string.simps [simp del]

lemma char_code_of [simp]: "n < 256 \<Longrightarrow> char_code (char_of n) = n"
  by (simp add: char_code_def)

lemma parse_digits_le: "acc \<le> mx \<Longrightarrow> parse_digits mx acc s = Some n \<Longrightarrow> n \<le> mx"
  by (induction mx acc s rule: parse_digits.induct) (auto simp: Let_def split: if_splits)

lemma parse_unsigned_le: "parse_unsigned mx s = Some n \<Longrightarrow> n \<le> mx"
  by (auto simp: parse_unsigned_def simp del: parse_digits.simps
        split: list.splits if_splits dest: parse_digits_le [rotated])

lemma parse_digits_snoc:
  "parse_digits mx acc (s @ [c]) =
     (case parse_digits mx acc s of None \<Rightarrow> None
      | Some n \<Rightarrow> parse_digits mx n [c])"
  by (induction mx acc s rule: parse_digits.induct) (auto simp: Let_def)

lemma parse_digits_nat_to_string: "n \<le> mx \<Longrightarrow> parse_digits mx 0 (nat_to_string n) = Some n"
proof (induction n rule: nat_to_string.induct)
  case (1 n)
  show ?case
  proof (cases "n < 10")
    case True
    with "1.prems" show ?thesis
      by (subst nat_to_string.simps) (simp add: is_digit_def)
  next
    case False
    moreover have "n div 10 \<le> mx" using "1.prems" by (meson div_le_dividend le_trans)
    ultimately have "parse_digits mx 0 (nat_to_string (n div 10)) = Some (n div 10)"
      by (rule "1.IH")
    with False "1.prems" show ?thesis
      by (subst nat_to_string.simps) (simp add: parse_digits_snoc is_digit_def Let_def)
  qed
qed

lemma nat_to_string_first:
  "\<exists>(d::nat) s. nat_to_string n = char_of (48 + d) # s \<and> d < 10"
proof (induction n rule: nat_to_string.induct)
  case (1 n)
  show ?case
  proof (cases "n < 10")
    case True
    then have "nat_to_string n = char_of (48 + n) # []" by (simp add: nat_to_string.simps [of n])
    with True show ?thesis by blast
  next
    case False
    with "1.IH" obtain d :: nat and s where "nat_to_string (n div 10) = char_of (48 + d) # s \<and> d < 10"
      by blast
    with False have "nat_to_string n = char_of (48 + d) # s @ [char_of (48 + n mod 10)]"
      by (simp add: nat_to_string.simps [of n])
    with \<open>nat_to_string (n div 10) = char_of (48 + d) # s \<and> d < 10\<close> show ?thesis by blast
  qed
qed

lemma digit_not_sign:
  assumes "d < (10::nat)"
  shows "char_of (48 + d) \<noteq> CHR ''+''" and "char_of (48 + d) \<noteq> CHR ''-''"
proof -
  have c: "char_code (char_of (48 + d)) = 48 + d"
    using assms by simp
  have p: "char_code CHR ''+'' = 43" and m: "char_code CHR ''-'' = 45"
    by (simp_all add: char_code_def)
  show "char_of (48 + d) \<noteq> CHR ''+''"
  proof
    assume "char_of (48 + d) = CHR ''+''"
    then have "char_code (char_of (48 + d)) = 43" using p by presburger
    with c show False by simp
  qed
  show "char_of (48 + d) \<noteq> CHR ''-''"
  proof
    assume "char_of (48 + d) = CHR ''-''"
    then have "char_code (char_of (48 + d)) = 45" using m by presburger
    with c show False by simp
  qed
qed

lemma parse_i64_nat_to_string:
  "n < 2 ^ 63 \<Longrightarrow> parse_i64 (nat_to_string n) = Some (int n)"
proof -
  assume n: "n < 2 ^ 63"
  obtain d :: nat and s where ds: "nat_to_string n = char_of (48 + d) # s" "d < 10"
    using nat_to_string_first by blast
  have "parse_digits (2 ^ 63 - 1) 0 (nat_to_string n) = Some n"
    using n by (intro parse_digits_nat_to_string) simp
  with ds digit_not_sign [OF ds(2)] show ?thesis by (simp add: parse_i64_def)
qed

subsection \<open>Hexadecimal\<close>

definition hex_digit :: "nat \<Rightarrow> char" where
  "hex_digit n = ''0123456789abcdef'' ! n"

text \<open>\<open>{:0kx}\<close> of a value below \<open>16 ^ k\<close>: \<open>k\<close> lower-case digits, most significant first.\<close>

fun hex_pad :: "nat \<Rightarrow> nat \<Rightarrow> string" where
  "hex_pad 0 n = []"
| "hex_pad (Suc k) n = hex_pad k (n div 16) @ [hex_digit (n mod 16)]"

definition hex_bytes :: "bytes \<Rightarrow> string" where
  "hex_bytes bs = concat (map (\<lambda>b. hex_pad 2 (unat b)) bs)"

lemma length_hex_pad [simp]: "length (hex_pad k n) = k"
  by (induction k n rule: hex_pad.induct) auto

lemma length_hex_bytes [simp]: "length (hex_bytes bs) = 2 * length bs"
  by (induction bs) (auto simp: hex_bytes_def)

lemma hex_digit_inj: "a < 16 \<Longrightarrow> b < 16 \<Longrightarrow> hex_digit a = hex_digit b \<Longrightarrow> a = b"
proof -
  assume "a < 16" "b < 16" "hex_digit a = hex_digit b"
  moreover have "distinct ''0123456789abcdef''" by simp
  ultimately show "a = b" by (auto simp: hex_digit_def nth_eq_iff_index_eq)
qed

lemma hex_pad_inj: "m < 16 ^ k \<Longrightarrow> n < 16 ^ k \<Longrightarrow> hex_pad k m = hex_pad k n \<Longrightarrow> m = n"
proof (induction k arbitrary: m n)
  case 0
  then show ?case by simp
next
  case (Suc k)
  have "m div 16 = n div 16"
    using Suc by (intro Suc.IH) (auto simp: less_mult_imp_div_less mult.commute)
  moreover have "m mod 16 = n mod 16"
    using Suc.prems(3) by (auto intro: hex_digit_inj)
  ultimately show ?case by (metis div_mult_mod_eq)
qed

lemma hex_bytes_inj: "hex_bytes xs = hex_bytes ys \<Longrightarrow> xs = ys"
proof (induction xs arbitrary: ys)
  case Nil
  then have "length (hex_bytes ys) = 0" by (metis length_0_conv hex_bytes_def list.simps(8) concat.simps(1))
  then show ?case by simp
next
  case (Cons x xs)
  then have "length (hex_bytes ys) = length (hex_bytes (x # xs))" by simp
  then obtain y zs where ys: "ys = y # zs" by (cases ys) auto
  with Cons.prems have eq: "hex_pad 2 (unat x) @ hex_bytes xs = hex_pad 2 (unat y) @ hex_bytes zs"
    by (simp add: hex_bytes_def)
  then have "hex_pad 2 (unat x) = hex_pad 2 (unat y)" and "hex_bytes xs = hex_bytes zs"
    by (metis append_eq_append_conv length_hex_pad)+
  moreover have "unat x < 16 ^ 2" and "unat y < 16 ^ 2"
    using unsigned_less [of x] unsigned_less [of y] by simp_all
  ultimately have "unat x = unat y" and "xs = zs"
    using Cons.IH hex_pad_inj by blast+
  with ys show ?case by (simp add: word_unat_eq_iff)
qed

end
