(* ===== verification/Config.thy ===== *)
theory Config imports Rust_Text begin

text \<open>
  The configuration types of \<open>src/lib.rs\<close> and \<open>src/store.rs\<close>: \<open>Limits\<close>,
  \<open>InviteLimits\<close>, \<open>ResourceControls\<close>, \<open>ServerInfoCfg\<close> and \<open>StoreConfig\<close>, their
  constructors, which reject zero and clamp to a ceiling, and the readers of environment
  variables. The locale \<open>clamped_setting\<close> is the contract of the validators; the three
  validators of the code are interpretations of it.
\<close>

subsection \<open>Ceilings and defaults\<close>

definition MAX_INVITE_SLOTS_DEFAULT :: nat where "MAX_INVITE_SLOTS_DEFAULT = 256"
definition MAX_INVITE_SLOTS_CEILING :: nat where "MAX_INVITE_SLOTS_CEILING = 4096"
definition MAX_INVITE_BUNDLE_BYTES_DEFAULT :: nat where
  "MAX_INVITE_BUNDLE_BYTES_DEFAULT = 16 * 1024"
definition MAX_INVITE_BUNDLE_BYTES_CEILING :: nat where
  "MAX_INVITE_BUNDLE_BYTES_CEILING = 64 * 1024"
definition MAX_INVITE_EXPIRY_SECS_DEFAULT :: nat where
  "MAX_INVITE_EXPIRY_SECS_DEFAULT = 259200"
definition MAX_INVITE_EXPIRY_SECS_CEILING :: nat where
  "MAX_INVITE_EXPIRY_SECS_CEILING = 2592000"
definition INVITE_CREATE_BURST_DEFAULT :: nat where "INVITE_CREATE_BURST_DEFAULT = 32"
definition INVITE_CREATE_BURST_CEILING :: nat where "INVITE_CREATE_BURST_CEILING = 4096"
definition INVITE_CREATE_REFILL_PER_SEC_DEFAULT :: nat where
  "INVITE_CREATE_REFILL_PER_SEC_DEFAULT = 1"

definition MAX_BODY_BYTES_CEILING :: nat where "MAX_BODY_BYTES_CEILING = 1024 * 1024"
definition MAX_QUEUE_DEPTH_CEILING :: nat where "MAX_QUEUE_DEPTH_CEILING = 257"
definition MAX_ROUTE_COUNT_CEILING :: nat where "MAX_ROUTE_COUNT_CEILING = 256"
definition MAX_PUSH_RATE_BURST_CEILING :: nat where "MAX_PUSH_RATE_BURST_CEILING = 257"
definition MAX_PUSH_RATE_REFILL_PER_SEC_CEILING :: nat where
  "MAX_PUSH_RATE_REFILL_PER_SEC_CEILING = 4096"
definition ROUTE_IDLE_TTL_MS_DEFAULT :: nat where "ROUTE_IDLE_TTL_MS_DEFAULT = 300000"
definition MAX_ROUTE_IDLE_TTL_MS_CEILING :: nat where
  "MAX_ROUTE_IDLE_TTL_MS_CEILING = 86400000"

definition RETENTION_TTL_SECS_DEFAULT :: nat where "RETENTION_TTL_SECS_DEFAULT = 604800"
definition MAX_RETENTION_TTL_SECS_CEILING :: nat where
  "MAX_RETENTION_TTL_SECS_CEILING = 2592000"
definition PULL_LEASE_SECS_DEFAULT :: nat where "PULL_LEASE_SECS_DEFAULT = 60"
definition MAX_PULL_LEASE_SECS_CEILING :: nat where "MAX_PULL_LEASE_SECS_CEILING = 3600"

text \<open>Request caps: body sizes, identifiers per acknowledgement, and the byte budget of a pull.\<close>

definition INVITE_REDEEM_BODY_CAP :: nat where "INVITE_REDEEM_BODY_CAP = 4 * 1024"
definition INVITE_REVOKE_BODY_CAP :: nat where "INVITE_REVOKE_BODY_CAP = 4 * 1024"
definition ACK_BODY_CAP :: nat where "ACK_BODY_CAP = 1024 * 1024"
definition MAX_ACK_IDS :: nat where "MAX_ACK_IDS = 4096"
definition FINISH_SCAN_BATCH :: nat where "FINISH_SCAN_BATCH = 16"
definition PULL_BUDGET_BYTES :: nat where
  "PULL_BUDGET_BYTES = FINISH_SCAN_BATCH * MAX_BODY_BYTES_CEILING"

definition invite_create_body_cap :: "nat \<Rightarrow> nat" where
  "invite_create_body_cap max_bundle_bytes = 2 * div_ceil (4 * max_bundle_bytes) 3 + 4 * 1024"

lemmas ceiling_defs =
  MAX_INVITE_SLOTS_CEILING_def MAX_INVITE_BUNDLE_BYTES_CEILING_def
  MAX_INVITE_EXPIRY_SECS_CEILING_def INVITE_CREATE_BURST_CEILING_def
  MAX_BODY_BYTES_CEILING_def MAX_QUEUE_DEPTH_CEILING_def MAX_ROUTE_COUNT_CEILING_def
  MAX_PUSH_RATE_BURST_CEILING_def MAX_PUSH_RATE_REFILL_PER_SEC_CEILING_def
  MAX_ROUTE_IDLE_TTL_MS_CEILING_def MAX_RETENTION_TTL_SECS_CEILING_def
  MAX_PULL_LEASE_SECS_CEILING_def

lemmas default_defs =
  MAX_INVITE_SLOTS_DEFAULT_def MAX_INVITE_BUNDLE_BYTES_DEFAULT_def
  MAX_INVITE_EXPIRY_SECS_DEFAULT_def INVITE_CREATE_BURST_DEFAULT_def
  INVITE_CREATE_REFILL_PER_SEC_DEFAULT_def ROUTE_IDLE_TTL_MS_DEFAULT_def
  RETENTION_TTL_SECS_DEFAULT_def PULL_LEASE_SECS_DEFAULT_def

subsection \<open>The validators\<close>

definition limit_or_error :: "string \<Rightarrow> nat \<Rightarrow> nat \<Rightarrow> string + nat" where
  "limit_or_error name value ceiling =
     (if value = 0 then Inl (''ERR_INVALID_CONFIG_'' @ name) else Inr (min value ceiling))"

definition push_rate_refill_or_cap :: "nat \<Rightarrow> nat" where
  "push_rate_refill_or_cap value = min value MAX_PUSH_RATE_REFILL_PER_SEC_CEILING"

definition retention_ttl_or_error :: "nat \<Rightarrow> string + nat" where
  "retention_ttl_or_error value =
     (if value = 0 then Inl ''ERR_INVALID_CONFIG_RETENTION_TTL_SECS''
      else Inr (min value MAX_RETENTION_TTL_SECS_CEILING))"

definition pull_lease_or_error :: "nat \<Rightarrow> string + nat" where
  "pull_lease_or_error value =
     (if value = 0 then Inl ''ERR_INVALID_CONFIG_PULL_LEASE_SECS''
      else Inr (min value MAX_PULL_LEASE_SECS_CEILING))"

text \<open>
  The contract of a validator: zero is refused with the setting's error, everything else
  is clamped into \<open>1..ceiling\<close>. Its clients (the constructors here, the store's \<open>open\<close>
  and the application's \<open>new_full\<close>, which validates the retention a second time) use only
  this.
\<close>

locale clamped_setting =
  fixes check :: "nat \<Rightarrow> string + nat" and err :: string and ceiling :: nat
  assumes check_zero: "check 0 = Inl err"
    and check_pos: "0 < v \<Longrightarrow> check v = Inr (min v ceiling)"
    and ceiling_pos: "0 < ceiling"
begin

lemma check_eq_Inr: "check v = Inr w \<longleftrightarrow> 0 < v \<and> w = min v ceiling"
  using check_zero check_pos by (cases "v = 0") auto

lemma check_eq_Inl: "check v = Inl e \<longleftrightarrow> v = 0 \<and> e = err"
  using check_zero check_pos by (cases "v = 0") auto

lemma check_range: "check v = Inr w \<Longrightarrow> 1 \<le> w \<and> w \<le> ceiling"
  using ceiling_pos by (auto simp: check_eq_Inr)

lemma check_idem: "check v = Inr w \<Longrightarrow> check w = Inr w"
  using ceiling_pos by (auto simp: check_eq_Inr)

lemma check_accepts: "1 \<le> w \<Longrightarrow> w \<le> ceiling \<Longrightarrow> check w = Inr w"
  by (simp add: check_pos)

end

interpretation retention: clamped_setting retention_ttl_or_error
  "''ERR_INVALID_CONFIG_RETENTION_TTL_SECS''" MAX_RETENTION_TTL_SECS_CEILING
  by unfold_locales (simp_all add: retention_ttl_or_error_def ceiling_defs)

interpretation lease: clamped_setting pull_lease_or_error
  "''ERR_INVALID_CONFIG_PULL_LEASE_SECS''" MAX_PULL_LEASE_SECS_CEILING
  by unfold_locales (simp_all add: pull_lease_or_error_def ceiling_defs)

lemma limit_setting:
  "0 < ceiling \<Longrightarrow>
   clamped_setting (\<lambda>v. limit_or_error name v ceiling) (''ERR_INVALID_CONFIG_'' @ name) ceiling"
  by unfold_locales (simp_all add: limit_or_error_def)

interpretation body_limit: clamped_setting
  "\<lambda>v. limit_or_error ''MAX_BODY_BYTES'' v MAX_BODY_BYTES_CEILING"
  "''ERR_INVALID_CONFIG_'' @ ''MAX_BODY_BYTES''" MAX_BODY_BYTES_CEILING
  by (rule limit_setting) (simp add: ceiling_defs)

lemma limit_or_error_eq_Inr [simp]:
  "limit_or_error name v c = Inr w \<longleftrightarrow> 0 < v \<and> w = min v c"
  by (auto simp: limit_or_error_def)

lemma limit_or_error_eq_Inl:
  "limit_or_error name v c = Inl e \<longleftrightarrow> v = 0 \<and> e = ''ERR_INVALID_CONFIG_'' @ name"
  by (auto simp: limit_or_error_def)

subsection \<open>Limits\<close>

record Limits =
  max_body_bytes :: nat
  max_queue_depth :: nat

definition Limits_default :: Limits where
  "Limits_default =
     \<lparr>max_body_bytes = MAX_BODY_BYTES_CEILING, max_queue_depth = MAX_QUEUE_DEPTH_CEILING\<rparr>"

definition Limits_new :: "nat \<Rightarrow> nat \<Rightarrow> string + Limits" where
  "Limits_new body depth =
     res_bind (limit_or_error ''MAX_BODY_BYTES'' body MAX_BODY_BYTES_CEILING) (\<lambda>b.
     res_bind (limit_or_error ''MAX_QUEUE_DEPTH'' depth MAX_QUEUE_DEPTH_CEILING) (\<lambda>q.
     Inr \<lparr>max_body_bytes = b, max_queue_depth = q\<rparr>))"

definition limits_wf :: "Limits \<Rightarrow> bool" where
  "limits_wf l \<longleftrightarrow>
     1 \<le> max_body_bytes l \<and> max_body_bytes l \<le> MAX_BODY_BYTES_CEILING \<and>
     1 \<le> max_queue_depth l \<and> max_queue_depth l \<le> MAX_QUEUE_DEPTH_CEILING"

lemma Limits_new_wf: "Limits_new b q = Inr l \<Longrightarrow> limits_wf l"
  by (auto simp: Limits_new_def limits_wf_def ceiling_defs)

lemma Limits_default_wf: "limits_wf Limits_default"
  by (simp add: limits_wf_def Limits_default_def ceiling_defs)

subsection \<open>InviteLimits\<close>

record InviteLimits =
  max_slots :: nat
  max_bundle_bytes :: nat
  max_expiry_secs :: nat
  create_burst :: nat
  create_refill_per_sec :: nat

definition InviteLimits_default :: InviteLimits where
  "InviteLimits_default =
     \<lparr>max_slots = MAX_INVITE_SLOTS_DEFAULT,
      max_bundle_bytes = MAX_INVITE_BUNDLE_BYTES_DEFAULT,
      max_expiry_secs = MAX_INVITE_EXPIRY_SECS_DEFAULT,
      create_burst = INVITE_CREATE_BURST_DEFAULT,
      create_refill_per_sec = INVITE_CREATE_REFILL_PER_SEC_DEFAULT\<rparr>"

definition InviteLimits_new ::
    "nat \<Rightarrow> nat \<Rightarrow> nat \<Rightarrow> nat \<Rightarrow> nat \<Rightarrow> string + InviteLimits" where
  "InviteLimits_new slots bundle_bytes expiry_secs burst refill =
     res_bind (limit_or_error ''MAX_INVITE_SLOTS'' slots MAX_INVITE_SLOTS_CEILING) (\<lambda>s.
     res_bind (limit_or_error ''MAX_INVITE_BUNDLE_BYTES'' bundle_bytes
                 MAX_INVITE_BUNDLE_BYTES_CEILING) (\<lambda>b.
     res_bind (limit_or_error ''MAX_INVITE_EXPIRY_SECS'' expiry_secs
                 MAX_INVITE_EXPIRY_SECS_CEILING) (\<lambda>e.
     res_bind (limit_or_error ''INVITE_CREATE_BURST'' burst INVITE_CREATE_BURST_CEILING) (\<lambda>c.
     Inr \<lparr>max_slots = s, max_bundle_bytes = b, max_expiry_secs = e, create_burst = c,
          create_refill_per_sec = min refill MAX_PUSH_RATE_REFILL_PER_SEC_CEILING\<rparr>))))"

definition invite_limits_wf :: "InviteLimits \<Rightarrow> bool" where
  "invite_limits_wf l \<longleftrightarrow>
     1 \<le> max_slots l \<and> max_slots l \<le> MAX_INVITE_SLOTS_CEILING \<and>
     1 \<le> max_bundle_bytes l \<and> max_bundle_bytes l \<le> MAX_INVITE_BUNDLE_BYTES_CEILING \<and>
     1 \<le> max_expiry_secs l \<and> max_expiry_secs l \<le> MAX_INVITE_EXPIRY_SECS_CEILING \<and>
     1 \<le> create_burst l \<and> create_burst l \<le> INVITE_CREATE_BURST_CEILING \<and>
     create_refill_per_sec l \<le> MAX_PUSH_RATE_REFILL_PER_SEC_CEILING"

lemma InviteLimits_new_wf: "InviteLimits_new s b e c r = Inr l \<Longrightarrow> invite_limits_wf l"
  by (auto simp: InviteLimits_new_def invite_limits_wf_def ceiling_defs)

lemma InviteLimits_default_wf: "invite_limits_wf InviteLimits_default"
  by (simp add: invite_limits_wf_def InviteLimits_default_def ceiling_defs default_defs)

subsection \<open>ResourceControls\<close>

text \<open>The \<open>Duration\<close> of the vestigial \<open>route_idle_ttl\<close> is kept in milliseconds.\<close>

record ResourceControls =
  max_route_count :: nat
  push_rate_burst :: nat
  push_rate_refill_per_sec :: nat
  route_idle_ttl :: nat

definition ResourceControls_default :: ResourceControls where
  "ResourceControls_default =
     \<lparr>max_route_count = MAX_ROUTE_COUNT_CEILING,
      push_rate_burst = MAX_PUSH_RATE_BURST_CEILING,
      push_rate_refill_per_sec = MAX_PUSH_RATE_BURST_CEILING,
      route_idle_ttl = ROUTE_IDLE_TTL_MS_DEFAULT\<rparr>"

definition ResourceControls_new_with_route_idle_ttl_ms ::
    "nat \<Rightarrow> nat \<Rightarrow> nat \<Rightarrow> nat \<Rightarrow> string + ResourceControls" where
  "ResourceControls_new_with_route_idle_ttl_ms routes burst refill idle_ms =
     res_bind (limit_or_error ''MAX_ROUTE_COUNT'' routes MAX_ROUTE_COUNT_CEILING) (\<lambda>r.
     res_bind (limit_or_error ''PUSH_RATE_BURST'' burst MAX_PUSH_RATE_BURST_CEILING) (\<lambda>b.
     res_bind (limit_or_error ''ROUTE_IDLE_TTL_MS'' idle_ms MAX_ROUTE_IDLE_TTL_MS_CEILING) (\<lambda>i.
     Inr \<lparr>max_route_count = r, push_rate_burst = b,
          push_rate_refill_per_sec = push_rate_refill_or_cap refill, route_idle_ttl = i\<rparr>)))"

definition ResourceControls_new :: "nat \<Rightarrow> nat \<Rightarrow> nat \<Rightarrow> string + ResourceControls" where
  "ResourceControls_new routes burst refill =
     ResourceControls_new_with_route_idle_ttl_ms routes burst refill ROUTE_IDLE_TTL_MS_DEFAULT"

definition controls_wf :: "ResourceControls \<Rightarrow> bool" where
  "controls_wf c \<longleftrightarrow>
     1 \<le> max_route_count c \<and> max_route_count c \<le> MAX_ROUTE_COUNT_CEILING \<and>
     1 \<le> push_rate_burst c \<and> push_rate_burst c \<le> MAX_PUSH_RATE_BURST_CEILING \<and>
     push_rate_refill_per_sec c \<le> MAX_PUSH_RATE_REFILL_PER_SEC_CEILING"

lemma ResourceControls_new_wf: "ResourceControls_new m b r = Inr c \<Longrightarrow> controls_wf c"
  by (auto simp: ResourceControls_new_def ResourceControls_new_with_route_idle_ttl_ms_def
      controls_wf_def push_rate_refill_or_cap_def ceiling_defs)

subsection \<open>StoreConfig\<close>

record StoreConfig =
  cfg_path :: string
  cfg_retention_ttl_secs :: nat
  cfg_pull_lease_secs :: nat

definition StoreConfig_default :: StoreConfig where
  "StoreConfig_default =
     \<lparr>cfg_path = '':memory:'', cfg_retention_ttl_secs = RETENTION_TTL_SECS_DEFAULT,
      cfg_pull_lease_secs = PULL_LEASE_SECS_DEFAULT\<rparr>"

subsection \<open>Environment variables\<close>

text \<open>\<open>std::env::var(name).ok()\<close> as a function of the name: \<open>None\<close> for a variable that is
  unset or not valid Unicode.\<close>

type_synonym environ = "string \<Rightarrow> string option"

definition parse_usize :: "string \<Rightarrow> nat option" where
  "parse_usize s = parse_unsigned usize_max s"

definition env_limit_or_default :: "environ \<Rightarrow> string \<Rightarrow> nat \<Rightarrow> string + nat" where
  "env_limit_or_default env name dflt =
     (case option_filter (\<lambda>v. \<not> blank v) (env name) of
        Some v \<Rightarrow> option_ok_or (parse_usize v) (''ERR_INVALID_CONFIG_'' @ name)
      | None \<Rightarrow> Inr dflt)"

definition env_refill_or_default :: "environ \<Rightarrow> string \<Rightarrow> nat \<Rightarrow> string + nat" where
  "env_refill_or_default env name dflt =
     (case option_filter (\<lambda>v. \<not> blank v) (env name) of
        Some v \<Rightarrow> option_ok_or (map_option push_rate_refill_or_cap (parse_usize v))
                    (''ERR_INVALID_CONFIG_'' @ name)
      | None \<Rightarrow> Inr dflt)"

definition Limits_from_env :: "environ \<Rightarrow> string + Limits" where
  "Limits_from_env env =
     res_bind (env_limit_or_default env ''MAX_BODY_BYTES'' MAX_BODY_BYTES_CEILING) (\<lambda>b.
     res_bind (env_limit_or_default env ''MAX_QUEUE_DEPTH'' MAX_QUEUE_DEPTH_CEILING) (\<lambda>q.
     Limits_new b q))"

definition ResourceControls_from_env :: "environ \<Rightarrow> string + ResourceControls" where
  "ResourceControls_from_env env =
     res_bind (env_limit_or_default env ''MAX_ROUTE_COUNT'' MAX_ROUTE_COUNT_CEILING) (\<lambda>m.
     res_bind (env_limit_or_default env ''PUSH_RATE_BURST'' MAX_PUSH_RATE_BURST_CEILING) (\<lambda>b.
     res_bind (env_refill_or_default env ''PUSH_RATE_REFILL_PER_SEC''
                 MAX_PUSH_RATE_BURST_CEILING) (\<lambda>r.
     ResourceControls_new m b r)))"

record ServerInfoCfg =
  info_name :: "string option"
  attachments_service_url :: "string option"
  min_client_version :: "string option"

definition ServerInfoCfg_from_env :: "environ \<Rightarrow> ServerInfoCfg" where
  "ServerInfoCfg_from_env env =
     \<lparr>info_name = option_filter (\<lambda>v. \<not> blank v) (env ''RELAY_NAME''),
      attachments_service_url =
        option_filter (\<lambda>v. \<not> blank v) (env ''RELAY_ATTACHMENTS_SERVICE_URL''),
      min_client_version =
        option_filter (\<lambda>v. \<not> blank v) (env ''RELAY_MIN_CLIENT_VERSION'')\<rparr>"

lemma Limits_from_env_wf: "Limits_from_env env = Inr l \<Longrightarrow> limits_wf l"
  by (auto simp: Limits_from_env_def intro: Limits_new_wf)

lemma ResourceControls_from_env_wf: "ResourceControls_from_env env = Inr c \<Longrightarrow> controls_wf c"
  by (auto simp: ResourceControls_from_env_def intro: ResourceControls_new_wf)

end
