(* ===== verification/Store.thy ===== *)
theory Store imports Database Config begin

text \<open>
  The store of \<open>src/store.rs\<close>: the retention sweep and the mailbox operations
  \<open>retention_sweep\<close>, \<open>route_status\<close>, \<open>enqueue\<close>, \<open>pull\<close> and \<open>ack\<close>, and the slot operations
  \<open>invite_create\<close>, \<open>invite_redeem\<close> and \<open>invite_revoke\<close>. Each is one transaction over the
  connection behind the store's mutex; its body is the definition with suffix \<open>_tx\<close>, in the
  order of the statements of the code, with the code's early returns. The last sections give
  the closed form of every operation without faults and show that faults only turn results
  into errors.
\<close>

subsection \<open>Outcomes\<close>

record SweepStats =
  expired_messages :: nat
  expired_routes :: "(string \<times> nat) list"
  removed_route_keys :: "string list"
  expired_invites :: nat

definition SweepStats_default :: SweepStats where
  "SweepStats_default =
     \<lparr>expired_messages = 0, expired_routes = [], removed_route_keys = [], expired_invites = 0\<rparr>"

datatype SlotReject = SlotExpired | SlotRevoked | TicketInvalid

datatype EnqueueOutcome =
  Accepted | Overloaded nat | RouteCap nat | SlotRejected SlotReject

datatype PullMode = Legacy | Lease

type_synonym StoredMsg = "string \<times> bytes"

record PullOutcome =
  pull_items :: "StoredMsg list"
  pull_drained :: bool
  pull_sweep :: SweepStats

record AckOutcome =
  acked :: nat
  ack_drained :: bool
  ack_sweep :: SweepStats

record RouteStatus =
  route_exists :: bool
  depth :: nat
  live_routes :: nat
  status_sweep :: SweepStats

datatype InviteCreateOutcome = Created | Duplicate | CapFull nat

datatype InviteRedeemOutcome =
  Redeemed bytes bytes | RedeemNotFound | RedeemRevoked | RedeemExpired | AlreadyUsed | CapInvalid

datatype InviteRevokeOutcome = Revoked | AlreadyRevoked | RevokeNotFound | TokenInvalid

subsection \<open>The sweep\<close>

definition sweep_expired :: "int \<Rightarrow> int \<Rightarrow> SweepStats sql" where
  "sweep_expired ttl now =
     sql_bind (select_expired_counts ttl now) (\<lambda>counts.
     sql_bind (delete_expired ttl now) (\<lambda>n.
     sql_bind
       (if 0 < n then
          sql_bind select_idle_routes (\<lambda>keys.
          sql_bind delete_idle_routes (\<lambda>_. sql_return keys))
        else sql_return []) (\<lambda>removed.
     sql_bind (delete_expired_invites now) (\<lambda>gone.
     sql_return \<lparr>expired_messages = n, expired_routes = counts, removed_route_keys = removed,
                 expired_invites = gone\<rparr>))))"

definition retention_sweep_tx :: "int \<Rightarrow> int \<Rightarrow> SweepStats tx_end sql" where
  "retention_sweep_tx ttl now = sql_bind (sweep_expired ttl now) commit"

definition route_status_tx :: "int \<Rightarrow> string \<Rightarrow> int \<Rightarrow> RouteStatus tx_end sql" where
  "route_status_tx ttl k now =
     sql_bind (sweep_expired ttl now) (\<lambda>sweep.
     sql_bind (select_route_exists k) (\<lambda>ex.
     sql_bind (select_depth k) (\<lambda>dep.
     sql_bind select_route_count (\<lambda>live.
     commit \<lparr>route_exists = ex, depth = dep, live_routes = live, status_sweep = sweep\<rparr>))))"

subsection \<open>Invite slots\<close>

text \<open>\<open>invite_revoke\<close> takes the time and discards it (\<open>let _ = now\<close>); the argument is left out here.\<close>

definition invite_create_tx ::
    "int \<Rightarrow> string \<Rightarrow> string \<Rightarrow> string \<Rightarrow> string \<Rightarrow> bytes \<Rightarrow> bytes \<Rightarrow> int \<Rightarrow> int \<Rightarrow> nat
      \<Rightarrow> InviteCreateOutcome tx_end sql" where
  "invite_create_tx ttl k lid cap_h revoke_h bun sg until now slot_cap =
     sql_bind (sweep_expired ttl now) (\<lambda>_.
     sql_bind (select_invite_exists k) (\<lambda>ex.
     if ex then return_early Duplicate
     else
       sql_bind select_invite_count (\<lambda>live.
       if slot_cap \<le> live then return_early (CapFull live)
       else
         sql_bind (insert_invite
           \<lparr>slot_key = k, inv_log_id = lid, cap_hash = cap_h, revoke_hash = revoke_h,
            inv_bundle = bun, inv_sig = sg, expiry = until, inv_created_at = now,
            inv_state = INVITE_ACTIVE, consumed_at = None, ticket_hash = None\<rparr>) (\<lambda>_.
         commit Created))))"

definition invite_redeem_tx ::
    "string \<Rightarrow> int \<Rightarrow> string \<Rightarrow> (string \<Rightarrow> bool) \<Rightarrow> InviteRedeemOutcome tx_end sql" where
  "invite_redeem_tx k now th verify_cap =
     sql_bind (select_invite k) (\<lambda>row.
     case row of
       None \<Rightarrow> return_early RedeemNotFound
     | Some i \<Rightarrow>
         if inv_state i = INVITE_REVOKED then return_early RedeemRevoked
         else if expiry i \<le> now then return_early RedeemExpired
         else if inv_state i = INVITE_CONSUMED then return_early AlreadyUsed
         else if \<not> verify_cap (cap_hash i) then return_early CapInvalid
         else
           sql_bind (update_consume k now th) (\<lambda>updated.
           if updated = 0 then return_early AlreadyUsed
           else commit (Redeemed (inv_bundle i) (inv_sig i))))"

definition invite_revoke_tx ::
    "string \<Rightarrow> (string \<Rightarrow> bool) \<Rightarrow> InviteRevokeOutcome tx_end sql" where
  "invite_revoke_tx k verify_revoke =
     sql_bind (select_invite k) (\<lambda>row.
     case row of
       None \<Rightarrow> return_early RevokeNotFound
     | Some i \<Rightarrow>
         if \<not> verify_revoke (revoke_hash i) then return_early TokenInvalid
         else if inv_state i = INVITE_REVOKED then return_early AlreadyRevoked
         else sql_bind (update_revoke k) (\<lambda>_. commit Revoked))"

subsection \<open>The mailbox\<close>

text \<open>Slot admission: why a push into a known slot is refused, \<open>None\<close> when it is admitted.\<close>

definition slot_admission ::
    "invite_row \<Rightarrow> int \<Rightarrow> (string \<Rightarrow> bool) option \<Rightarrow> SlotReject option" where
  "slot_admission i now ticket =
     (if inv_state i = INVITE_REVOKED then Some SlotRevoked
      else if expiry i \<le> now then Some SlotExpired
      else
        (let admitted =
               (case (ticket_hash i, ticket) of
                  (Some stored, Some verify) \<Rightarrow> verify stored
                | _ \<Rightarrow> False) in
         if \<not> admitted then Some TicketInvalid else None))"

definition enqueue_message_tx ::
    "string \<Rightarrow> string \<Rightarrow> string \<Rightarrow> bytes \<Rightarrow> int \<Rightarrow> nat \<Rightarrow> nat \<Rightarrow> EnqueueOutcome tx_end sql" where
  "enqueue_message_tx k lid mid b now max_depth max_routes =
     (let insert =
        sql_bind (insert_message mid k b now) (\<lambda>_.
        sql_bind (update_last_touched k now) (\<lambda>_. commit Accepted)) in
      sql_bind (select_route_exists k) (\<lambda>ex.
      if ex then
        sql_bind (select_depth k) (\<lambda>dep.
        if max_depth \<le> dep then return_early (Overloaded dep) else insert)
      else
        sql_bind select_route_count (\<lambda>live.
        if max_routes \<le> live then return_early (RouteCap live)
        else sql_bind (insert_route k lid now) (\<lambda>_. insert))))"

definition enqueue_tx ::
    "string \<Rightarrow> string \<Rightarrow> string \<Rightarrow> bytes \<Rightarrow> int \<Rightarrow> nat \<Rightarrow> nat \<Rightarrow> (string \<Rightarrow> bool) option
      \<Rightarrow> EnqueueOutcome tx_end sql" where
  "enqueue_tx k lid mid b now max_depth max_routes ticket =
     sql_bind (select_invite k) (\<lambda>slot.
     case slot of
       None \<Rightarrow> enqueue_message_tx k lid mid b now max_depth max_routes
     | Some i \<Rightarrow>
         (case slot_admission i now ticket of
            Some r \<Rightarrow> return_early (SlotRejected r)
          | None \<Rightarrow>
              sql_bind (update_burn k) (\<lambda>_.
              enqueue_message_tx k lid mid b now max_depth max_routes)))"

text \<open>The loop over the selected rows: the byte budget stops it after the first row at the
  earliest.\<close>

fun pull_loop :: "nat \<Rightarrow> nat \<Rightarrow> msg_row list \<Rightarrow> msg_row list \<Rightarrow> msg_row list" where
  "pull_loop max_bytes total_bytes acc [] = acc"
| "pull_loop max_bytes total_bytes acc (m # ms) =
     (if acc \<noteq> [] \<and> max_bytes < usize_sat_add total_bytes (length (body m)) then acc
      else pull_loop max_bytes (usize_sat_add total_bytes (length (body m))) (acc @ [m]) ms)"

definition pull_tx ::
    "int \<Rightarrow> int \<Rightarrow> string \<Rightarrow> nat \<Rightarrow> nat \<Rightarrow> int \<Rightarrow> PullMode \<Rightarrow> PullOutcome tx_end sql" where
  "pull_tx ttl lease_secs k mx max_bytes now mode =
     sql_bind (sweep_expired ttl now) (\<lambda>sweep.
     sql_bind (select_available k now (usize_as_i64 mx)) (\<lambda>rows.
     let taken = pull_loop max_bytes 0 [] rows;
         seqs = map seq taken in
     sql_bind
       (if seqs \<noteq> [] then
          (case mode of
             Legacy \<Rightarrow> delete_seqs seqs
           | Lease \<Rightarrow> update_lease seqs (i64_add now lease_secs))
        else sql_return ()) (\<lambda>_.
     sql_bind
       (case mode of
          Legacy \<Rightarrow>
            sql_bind (select_depth k) (\<lambda>remaining.
            if remaining = 0 then sql_bind (delete_route k) (\<lambda>removed. sql_return (0 < removed))
            else sql_bind (update_last_touched k now) (\<lambda>_. sql_return False))
        | Lease \<Rightarrow>
            if seqs \<noteq> [] then sql_bind (update_last_touched k now) (\<lambda>_. sql_return False)
            else sql_return False) (\<lambda>drained.
     commit \<lparr>pull_items = map (\<lambda>m. (msg_id m, body m)) taken, pull_drained = drained,
             pull_sweep = sweep\<rparr>))))"

definition ack_tx :: "int \<Rightarrow> string \<Rightarrow> string list \<Rightarrow> int \<Rightarrow> AckOutcome tx_end sql" where
  "ack_tx ttl k ids now =
     sql_bind (sweep_expired ttl now) (\<lambda>sweep.
     sql_bind (delete_acked k ids) (\<lambda>n.
     sql_bind
       (if 0 < n then
          sql_bind (select_depth k) (\<lambda>remaining.
          if remaining = 0 then sql_bind (delete_route k) (\<lambda>removed. sql_return (0 < removed))
          else sql_return False)
        else sql_return False) (\<lambda>drained.
     commit \<lparr>acked = n, ack_drained = drained, ack_sweep = sweep\<rparr>)))"

subsection \<open>The store\<close>

record Store =
  conn :: "db mutex"
  st_retention_ttl_secs :: int
  st_pull_lease_secs :: int

text \<open>\<open>self.conn.lock()\<close>, \<open>guard.transaction()\<close>, the body, and the commit or the rollback.\<close>

definition store_tx :: "'a tx_end sql \<Rightarrow> faults \<Rightarrow> Store \<Rightarrow> (string + 'a) \<times> Store" where
  "store_tx b fs st =
     (case lock (conn st) of
        None \<Rightarrow> (Inl ''ERR_LOCK_POISON'', st)
      | Some d \<Rightarrow> (case run_tx b fs d of (r, d') \<Rightarrow> (r, st\<lparr>conn := Mutex False d'\<rparr>)))"

definition store_retention_sweep :: "int \<Rightarrow> faults \<Rightarrow> Store \<Rightarrow> (string + SweepStats) \<times> Store" where
  "store_retention_sweep now fs st =
     store_tx (retention_sweep_tx (st_retention_ttl_secs st) now) fs st"

definition store_route_status ::
    "string \<Rightarrow> int \<Rightarrow> faults \<Rightarrow> Store \<Rightarrow> (string + RouteStatus) \<times> Store" where
  "store_route_status k now fs st =
     store_tx (route_status_tx (st_retention_ttl_secs st) k now) fs st"

definition store_invite_create ::
    "string \<Rightarrow> string \<Rightarrow> string \<Rightarrow> string \<Rightarrow> bytes \<Rightarrow> bytes \<Rightarrow> int \<Rightarrow> int \<Rightarrow> nat \<Rightarrow> faults \<Rightarrow> Store
      \<Rightarrow> (string + InviteCreateOutcome) \<times> Store" where
  "store_invite_create k lid cap_h revoke_h bun sg until now slot_cap fs st =
     store_tx (invite_create_tx (st_retention_ttl_secs st) k lid cap_h revoke_h bun sg until now
       slot_cap) fs st"

definition store_invite_redeem ::
    "string \<Rightarrow> int \<Rightarrow> string \<Rightarrow> (string \<Rightarrow> bool) \<Rightarrow> faults \<Rightarrow> Store
      \<Rightarrow> (string + InviteRedeemOutcome) \<times> Store" where
  "store_invite_redeem k now th verify fs st = store_tx (invite_redeem_tx k now th verify) fs st"

definition store_invite_revoke ::
    "string \<Rightarrow> (string \<Rightarrow> bool) \<Rightarrow> faults \<Rightarrow> Store \<Rightarrow> (string + InviteRevokeOutcome) \<times> Store" where
  "store_invite_revoke k verify fs st = store_tx (invite_revoke_tx k verify) fs st"

definition store_enqueue ::
    "string \<Rightarrow> string \<Rightarrow> string \<Rightarrow> bytes \<Rightarrow> int \<Rightarrow> nat \<Rightarrow> nat \<Rightarrow> (string \<Rightarrow> bool) option \<Rightarrow> faults
      \<Rightarrow> Store \<Rightarrow> (string + EnqueueOutcome) \<times> Store" where
  "store_enqueue k lid mid b now max_depth max_routes ticket fs st =
     store_tx (enqueue_tx k lid mid b now max_depth max_routes ticket) fs st"

definition store_pull ::
    "string \<Rightarrow> nat \<Rightarrow> nat \<Rightarrow> int \<Rightarrow> PullMode \<Rightarrow> faults \<Rightarrow> Store \<Rightarrow> (string + PullOutcome) \<times> Store" where
  "store_pull k mx max_bytes now mode fs st =
     store_tx (pull_tx (st_retention_ttl_secs st) (st_pull_lease_secs st) k mx max_bytes now mode)
       fs st"

definition store_ack ::
    "string \<Rightarrow> string list \<Rightarrow> int \<Rightarrow> faults \<Rightarrow> Store \<Rightarrow> (string + AckOutcome) \<times> Store" where
  "store_ack k ids now fs st = store_tx (ack_tx (st_retention_ttl_secs st) k ids now) fs st"

subsection \<open>Closed forms without faults\<close>

text \<open>The tables after a sweep, and its statistics.\<close>

definition swept :: "int \<Rightarrow> int \<Rightarrow> db \<Rightarrow> db" where
  "swept ttl now d =
     drop_expired_invites now
       (if filter (expired ttl now) (messages d) \<noteq> []
        then drop_idle_routes (drop_expired ttl now d) else drop_expired ttl now d)"

definition sweep_stats :: "int \<Rightarrow> int \<Rightarrow> db \<Rightarrow> SweepStats" where
  "sweep_stats ttl now d =
     \<lparr>expired_messages = length (filter (expired ttl now) (messages d)),
      expired_routes = count_expired ttl now d,
      removed_route_keys =
        (if filter (expired ttl now) (messages d) \<noteq> []
         then map rt_key (filter (route_idle (drop_expired ttl now d)) (routes d)) else []),
      expired_invites = length (filter (\<lambda>i. expiry i \<le> now) (invites d))\<rparr>"

text \<open>An accepted message: appended to its queue, its route created on demand and touched.\<close>

definition add_route :: "string \<Rightarrow> string \<Rightarrow> int \<Rightarrow> db \<Rightarrow> db" where
  "add_route k lid now d =
     (if has_route k d then d
      else d\<lparr>routes := routes d @
        [\<lparr>rt_key = k, rt_log_id = lid, rt_created_at = now, rt_last_touched = now\<rparr>]\<rparr>)"

definition append_message :: "string \<Rightarrow> string \<Rightarrow> bytes \<Rightarrow> int \<Rightarrow> db \<Rightarrow> db" where
  "append_message k mid b now d =
     touch k now (d\<lparr>messages := messages d @ [new_message d mid k b now],
                    last_seq := Suc (last_seq d)\<rparr>)"

definition burn_ticket :: "string \<Rightarrow> db \<Rightarrow> db" where
  "burn_ticket k d = map_invites (\<lambda>i. slot_key i = k) burn d"

text \<open>Why an enqueue is refused: first by the slot, then by the queue or the route cap.\<close>

definition slot_refusal :: "string \<Rightarrow> int \<Rightarrow> (string \<Rightarrow> bool) option \<Rightarrow> db \<Rightarrow> SlotReject option" where
  "slot_refusal k now ticket d =
     (case find_invite k d of None \<Rightarrow> None | Some i \<Rightarrow> slot_admission i now ticket)"

definition capacity_refusal :: "string \<Rightarrow> nat \<Rightarrow> nat \<Rightarrow> db \<Rightarrow> EnqueueOutcome option" where
  "capacity_refusal k max_depth max_routes d =
     (if has_route k d then
        (if max_depth \<le> length (queue d k) then Some (Overloaded (length (queue d k))) else None)
      else if max_routes \<le> length (routes d) then Some (RouteCap (length (routes d))) else None)"

definition accepted :: "string \<Rightarrow> string \<Rightarrow> string \<Rightarrow> bytes \<Rightarrow> int \<Rightarrow> db \<Rightarrow> db" where
  "accepted k lid mid b now d = append_message k mid b now (add_route k lid now (burn_ticket k d))"

lemmas closed_defs = swept_def sweep_stats_def add_route_def append_message_def burn_ticket_def

lemma sweep_run [sql_run]:
  "sweep_expired ttl now d [] = Inr (sweep_stats ttl now d, swept ttl now d, [])"
  by (simp add: sweep_expired_def statement_defs sql_run closed_defs)
     (simp add: drop_expired_def drop_idle_routes_def)

lemma retention_sweep_run:
  "run_tx (retention_sweep_tx ttl now) [] d = (Inr (sweep_stats ttl now d), swept ttl now d)"
  by (simp add: retention_sweep_tx_def sql_run)

lemma route_status_run:
  "run_tx (route_status_tx ttl k now) [] d =
     (Inr \<lparr>route_exists = has_route k (swept ttl now d), depth = length (queue (swept ttl now d) k),
           live_routes = length (routes (swept ttl now d)), status_sweep = sweep_stats ttl now d\<rparr>,
      swept ttl now d)"
  by (simp add: route_status_tx_def statement_defs sql_run)

lemma add_route_simps [simp]:
  "messages (add_route k lid now d) = messages d"
  "last_seq (add_route k lid now d) = last_seq d"
  "invites (add_route k lid now d) = invites d"
  "has_route k (add_route k lid now d)"
  by (simp_all add: add_route_def has_route_def)

lemma burn_ticket_simps [simp]:
  "messages (burn_ticket k d) = messages d"
  "last_seq (burn_ticket k d) = last_seq d"
  "routes (burn_ticket k d) = routes d"
  "has_route j (burn_ticket k d) = has_route j d"
  "queue (burn_ticket k d) j = queue d j"
  by (simp_all add: burn_ticket_def map_invites_def has_route_def queue_def)

lemma find_invite_None_burn: "find_invite k d = None \<Longrightarrow> burn_ticket k d = d"
proof -
  assume "find_invite k d = None"
  then have "\<forall>i \<in> set (invites d). slot_key i \<noteq> k" by (simp add: find_invite_def find_None_iff)
  then have "map (\<lambda>i. if slot_key i = k then burn i else i) (invites d) = invites d"
    by (simp add: map_idI)
  then show ?thesis by (simp add: burn_ticket_def map_invites_def)
qed

lemma enqueue_message_run:
  "enqueue_message_tx k lid mid b now max_depth max_routes d [] =
    (case capacity_refusal k max_depth max_routes d of
       Some r \<Rightarrow> Inr (RolledBack r, d, [])
     | None \<Rightarrow>
         if 2 ^ 63 - 1 \<le> last_seq d then Inl (map_err ''database or disk is full'')
         else Inr (Committed Accepted, append_message k mid b now (add_route k lid now d), []))"
  by (auto simp: enqueue_message_tx_def statement_defs sql_run capacity_refusal_def closed_defs
      has_route_def new_message_def Let_def)

lemma capacity_refusal_burn [simp]:
  "capacity_refusal k max_depth max_routes (burn_ticket k d)
   = capacity_refusal k max_depth max_routes d"
  by (simp add: capacity_refusal_def)

lemma update_burn_run [sql_run]: "update_burn k d [] = Inr ((), burn_ticket k d, [])"
  by (simp add: update_burn_def burn_ticket_def sql_run)

lemma enqueue_run:
  "run_tx (enqueue_tx k lid mid b now max_depth max_routes ticket) [] d =
    (case slot_refusal k now ticket d of
       Some r \<Rightarrow> (Inr (SlotRejected r), d)
     | None \<Rightarrow>
         (case capacity_refusal k max_depth max_routes d of
            Some r \<Rightarrow> (Inr r, d)
          | None \<Rightarrow>
              if 2 ^ 63 - 1 \<le> last_seq d then (Inl (map_err ''database or disk is full''), d)
              else (Inr Accepted, accepted k lid mid b now d)))"
  by (cases "find_invite k d")
     (simp_all add: enqueue_tx_def select_invite_def sql_run enqueue_message_run slot_refusal_def
        accepted_def find_invite_None_burn split: option.splits)

text \<open>Slots. An update of one slot leaves every other slot alone.\<close>

definition new_invite ::
    "string \<Rightarrow> string \<Rightarrow> string \<Rightarrow> string \<Rightarrow> bytes \<Rightarrow> bytes \<Rightarrow> int \<Rightarrow> int \<Rightarrow> invite_row" where
  "new_invite k lid cap_h revoke_h bun sg until now =
     \<lparr>slot_key = k, inv_log_id = lid, cap_hash = cap_h, revoke_hash = revoke_h,
      inv_bundle = bun, inv_sig = sg, expiry = until, inv_created_at = now,
      inv_state = INVITE_ACTIVE, consumed_at = None, ticket_hash = None\<rparr>"

definition add_invite :: "invite_row \<Rightarrow> db \<Rightarrow> db" where
  "add_invite i d = d\<lparr>invites := invites d @ [i]\<rparr>"

definition consume_slot :: "string \<Rightarrow> int \<Rightarrow> string \<Rightarrow> db \<Rightarrow> db" where
  "consume_slot k now th d =
     map_invites (\<lambda>i. slot_key i = k \<and> inv_state i = INVITE_ACTIVE) (consume now th) d"

definition revoke_slot :: "string \<Rightarrow> db \<Rightarrow> db" where
  "revoke_slot k d = map_invites (\<lambda>i. slot_key i = k) revoke d"

lemma find_invite_in: "find_invite k d = Some i \<Longrightarrow> i \<in> set (invites d) \<and> slot_key i = k"
  unfolding find_invite_def by (rule find_Some_set)

lemma find_invite_None_iff: "find_invite k d = None \<longleftrightarrow> k \<notin> set (map slot_key (invites d))"
  by (auto simp: find_invite_def find_None_iff)

lemma find_invite_add:
  "find_invite k (add_invite i d) =
   (case find_invite k d of None \<Rightarrow> if slot_key i = k then Some i else None | Some j \<Rightarrow> Some j)"
  by (simp add: find_invite_def add_invite_def find_append split: option.split)

lemma invite_create_run:
  "run_tx (invite_create_tx ttl k lid cap_h revoke_h bun sg until now slot_cap) [] d =
    (let s = swept ttl now d in
     if find_invite k s \<noteq> None then (Inr Duplicate, d)
     else if slot_cap \<le> length (invites s) then (Inr (CapFull (length (invites s))), d)
     else (Inr Created, add_invite (new_invite k lid cap_h revoke_h bun sg until now) s))"
  by (auto simp: invite_create_tx_def statement_defs sql_run Let_def find_invite_None_iff
      add_invite_def new_invite_def)

text \<open>Why a redemption is refused, in the order of the causes.\<close>

definition redeem_refusal ::
    "string \<Rightarrow> int \<Rightarrow> (string \<Rightarrow> bool) \<Rightarrow> db \<Rightarrow> InviteRedeemOutcome option" where
  "redeem_refusal k now verify d =
     (case find_invite k d of
        None \<Rightarrow> Some RedeemNotFound
      | Some i \<Rightarrow>
          if inv_state i = INVITE_REVOKED then Some RedeemRevoked
          else if expiry i \<le> now then Some RedeemExpired
          else if inv_state i = INVITE_CONSUMED then Some AlreadyUsed
          else if \<not> verify (cap_hash i) then Some CapInvalid
          else if inv_state i \<noteq> INVITE_ACTIVE then Some AlreadyUsed
          else None)"

lemma distinct_find_invite:
  "distinct (map slot_key (invites d)) \<Longrightarrow> i \<in> set (invites d) \<Longrightarrow> find_invite (slot_key i) d = Some i"
proof -
  assume dist: "distinct (map slot_key (invites d))" and i: "i \<in> set (invites d)"
  obtain j where j: "find_invite (slot_key i) d = Some j"
    using i by (cases "find_invite (slot_key i) d") (auto simp: find_invite_None_iff)
  from find_invite_in [OF j] dist i have "j = i" by (auto simp: distinct_map dest: inj_onD)
  with j show ?thesis by simp
qed

lemma consume_count:
  assumes "distinct (map slot_key (invites d))" and "find_invite k d = Some i"
  shows "filter (\<lambda>i. slot_key i = k \<and> inv_state i = INVITE_ACTIVE) (invites d) = [] \<longleftrightarrow>
    inv_state i \<noteq> INVITE_ACTIVE"
proof -
  have "i' = i" if "i' \<in> set (invites d)" "slot_key i' = k" for i'
    using distinct_find_invite [OF assms(1) that(1)] that(2) assms(2) by simp
  then show ?thesis using find_invite_in [OF assms(2)] by (auto simp: filter_empty_conv)
qed

lemma invite_redeem_run:
  assumes "distinct (map slot_key (invites d))"
  shows "run_tx (invite_redeem_tx k now th verify) [] d =
    (case redeem_refusal k now verify d of
       Some r \<Rightarrow> (Inr r, d)
     | None \<Rightarrow>
         (Inr (Redeemed (inv_bundle (the (find_invite k d))) (inv_sig (the (find_invite k d)))),
          consume_slot k now th d))"
proof (cases "find_invite k d")
  case None
  then show ?thesis
    by (simp add: invite_redeem_tx_def statement_defs sql_run redeem_refusal_def)
next
  case (Some i)
  then show ?thesis
    using consume_count [OF assms Some]
    by (auto simp: invite_redeem_tx_def statement_defs sql_run redeem_refusal_def consume_slot_def)
qed

definition revoke_refusal ::
    "string \<Rightarrow> (string \<Rightarrow> bool) \<Rightarrow> db \<Rightarrow> InviteRevokeOutcome option" where
  "revoke_refusal k verify d =
     (case find_invite k d of
        None \<Rightarrow> Some RevokeNotFound
      | Some i \<Rightarrow>
          if \<not> verify (revoke_hash i) then Some TokenInvalid
          else if inv_state i = INVITE_REVOKED then Some AlreadyRevoked else None)"

lemma invite_revoke_run:
  "run_tx (invite_revoke_tx k verify) [] d =
    (case revoke_refusal k verify d of
       Some r \<Rightarrow> (Inr r, d) | None \<Rightarrow> (Inr Revoked, revoke_slot k d))"
  by (auto simp: invite_revoke_tx_def statement_defs sql_run revoke_refusal_def revoke_slot_def
      split: option.splits)

text \<open>Pull and acknowledgement.\<close>

definition pulled :: "int \<Rightarrow> string \<Rightarrow> nat \<Rightarrow> nat \<Rightarrow> db \<Rightarrow> msg_row list" where
  "pulled now k mx max_bytes d =
     pull_loop max_bytes 0 []
       (sql_limit (usize_as_i64 mx) (sort_key seq (filter (available now) (queue d k))))"

definition legacy_delivered :: "string \<Rightarrow> int \<Rightarrow> msg_row list \<Rightarrow> db \<Rightarrow> db" where
  "legacy_delivered k now ms d =
     (let d' = drop_seqs (map seq ms) d in
      if queue d' k = [] then drop_route k d' else touch k now d')"

definition lease_delivered :: "string \<Rightarrow> int \<Rightarrow> int \<Rightarrow> msg_row list \<Rightarrow> db \<Rightarrow> db" where
  "lease_delivered k now deadline ms d =
     (if ms = [] then d else touch k now (lease_seqs (map seq ms) deadline d))"

lemma drop_seqs_Nil [simp]: "drop_seqs [] d = d"
  by (simp add: drop_seqs_def)

lemma has_route_count: "length (filter (\<lambda>r. rt_key r = k) (routes d)) \<noteq> 0 \<longleftrightarrow> has_route k d"
  by (auto simp: has_route_def filter_empty_conv)

lemma has_route_simps [simp]:
  "has_route k (drop_seqs seqs d) = has_route k d"
  "has_route k (drop_acked j ids d) = has_route k d"
  "has_route k (lease_seqs seqs t d) = has_route k d"
  by (simp_all add: has_route_def drop_seqs_def drop_acked_def lease_seqs_def)

lemma pull_legacy_run:
  "run_tx (pull_tx ttl lease_secs k mx max_bytes now Legacy) [] d =
    (let s = swept ttl now d; ms = pulled now k mx max_bytes s;
         s' = legacy_delivered k now ms s in
     (Inr \<lparr>pull_items = map (\<lambda>m. (msg_id m, body m)) ms,
           pull_drained = (has_route k s \<and> queue (drop_seqs (map seq ms) s) k = []),
           pull_sweep = sweep_stats ttl now d\<rparr>, s'))"
  using has_route_count [of k]
  by (auto simp: pull_tx_def statement_defs sql_run pulled_def [symmetric] Let_def
      legacy_delivered_def)

lemma pull_lease_run:
  "run_tx (pull_tx ttl lease_secs k mx max_bytes now Lease) [] d =
    (let s = swept ttl now d; ms = pulled now k mx max_bytes s in
     (Inr \<lparr>pull_items = map (\<lambda>m. (msg_id m, body m)) ms, pull_drained = False,
           pull_sweep = sweep_stats ttl now d\<rparr>,
      lease_delivered k now (i64_add now lease_secs) ms s))"
  by (auto simp: pull_tx_def statement_defs sql_run pulled_def [symmetric] Let_def
      lease_delivered_def)

definition acknowledged :: "string \<Rightarrow> string list \<Rightarrow> db \<Rightarrow> db" where
  "acknowledged k ids d =
     (let d' = drop_acked k ids d in
      if filter (acked_by k ids) (messages d) \<noteq> [] \<and> queue d' k = [] then drop_route k d' else d')"

lemma ack_run:
  "run_tx (ack_tx ttl k ids now) [] d =
    (let s = swept ttl now d; gone = filter (acked_by k ids) (messages s) in
     (Inr \<lparr>acked = length gone,
           ack_drained = (gone \<noteq> [] \<and> has_route k s \<and> queue (drop_acked k ids s) k = []),
           ack_sweep = sweep_stats ttl now d\<rparr>,
      acknowledged k ids s))"
  using has_route_count [of k]
  by (auto simp: ack_tx_def statement_defs sql_run Let_def acknowledged_def)

subsection \<open>Bodies are faithful\<close>

lemma faithful_sweep [sql_sim]: "faithful (sweep_expired ttl now)"
  unfolding sweep_expired_def by (intro sql_sim)

lemma faithful_enqueue_message [sql_sim]:
  "faithful (enqueue_message_tx k lid mid b now max_depth max_routes)"
  unfolding enqueue_message_tx_def Let_def by (intro sql_sim)

lemma faithful_case_mode [sql_sim]:
  "faithful m \<Longrightarrow> faithful m' \<Longrightarrow> faithful (case mode of Legacy \<Rightarrow> m | Lease \<Rightarrow> m')"
  by (cases mode) simp_all

lemma faithful_bodies [sql_sim]:
  "faithful (retention_sweep_tx ttl now)" "faithful (route_status_tx ttl k now)"
  "faithful (invite_create_tx ttl k lid cap_h revoke_h bun sg until now slot_cap)"
  "faithful (invite_redeem_tx k now th verify)" "faithful (invite_revoke_tx k verify)"
  "faithful (enqueue_tx k lid mid b now max_depth max_routes ticket)"
  "faithful (pull_tx ttl lease_secs k mx max_bytes now mode)" "faithful (ack_tx ttl k ids now)"
  unfolding retention_sweep_tx_def route_status_tx_def invite_create_tx_def invite_redeem_tx_def
    invite_revoke_tx_def enqueue_tx_def pull_tx_def ack_tx_def Let_def
  by (intro sql_sim)+

end
