(* ===== verification/Store_Ops.thy ===== *)
theory Store_Ops imports Store begin

text \<open>
  The store's interface as one type of operations: \<open>store_op\<close> has a constructor per method of
  \<open>Store\<close> with its arguments, \<open>exec\<close> runs one under a fault schedule, and \<open>op_effect\<close> is what
  it does to the tables when nothing fails. A run of the relay is a sequence of such
  operations in any order: each one holds the connection's mutex from its first statement to
  its commit, so the interleavings of concurrent requests are the sequences of their
  operations.
\<close>

subsection \<open>Operations and outcomes\<close>

datatype store_op =
  OpSweep int
| OpStatus string int
| OpCreate string string string string bytes bytes int int nat
| OpRedeem string int string "string \<Rightarrow> bool"
| OpRevoke string "string \<Rightarrow> bool"
| OpEnqueue string string string bytes int nat nat "(string \<Rightarrow> bool) option"
| OpPull string nat nat int PullMode
| OpAck string "string list" int

datatype store_out =
  OutSweep SweepStats
| OutStatus RouteStatus
| OutCreate InviteCreateOutcome
| OutRedeem InviteRedeemOutcome
| OutRevoke InviteRevokeOutcome
| OutEnqueue EnqueueOutcome
| OutPull PullOutcome
| OutAck AckOutcome

definition out_as :: "('a \<Rightarrow> store_out) \<Rightarrow> (string + 'a) \<times> 's \<Rightarrow> (string + store_out) \<times> 's" where
  "out_as f r = (map_sum id f (fst r), snd r)"

definition exec :: "store_op \<Rightarrow> faults \<Rightarrow> Store \<Rightarrow> (string + store_out) \<times> Store" where
  "exec op fs st =
    (case op of
       OpSweep now \<Rightarrow> out_as OutSweep (store_retention_sweep now fs st)
     | OpStatus k now \<Rightarrow> out_as OutStatus (store_route_status k now fs st)
     | OpCreate k lid cap_h revoke_h bun sg until now slot_cap \<Rightarrow>
         out_as OutCreate (store_invite_create k lid cap_h revoke_h bun sg until now slot_cap fs st)
     | OpRedeem k now th verify \<Rightarrow> out_as OutRedeem (store_invite_redeem k now th verify fs st)
     | OpRevoke k verify \<Rightarrow> out_as OutRevoke (store_invite_revoke k verify fs st)
     | OpEnqueue k lid mid b now max_depth max_routes ticket \<Rightarrow>
         out_as OutEnqueue (store_enqueue k lid mid b now max_depth max_routes ticket fs st)
     | OpPull k mx max_bytes now mode \<Rightarrow> out_as OutPull (store_pull k mx max_bytes now mode fs st)
     | OpAck k ids now \<Rightarrow> out_as OutAck (store_ack k ids now fs st))"

text \<open>The same on the tables alone, without faults.\<close>

definition run_op :: "int \<Rightarrow> int \<Rightarrow> store_op \<Rightarrow> db \<Rightarrow> (string + store_out) \<times> db" where
  "run_op ttl lease_secs op d =
    (case op of
       OpSweep now \<Rightarrow> out_as OutSweep (run_tx (retention_sweep_tx ttl now) [] d)
     | OpStatus k now \<Rightarrow> out_as OutStatus (run_tx (route_status_tx ttl k now) [] d)
     | OpCreate k lid cap_h revoke_h bun sg until now slot_cap \<Rightarrow>
         out_as OutCreate
           (run_tx (invite_create_tx ttl k lid cap_h revoke_h bun sg until now slot_cap) [] d)
     | OpRedeem k now th verify \<Rightarrow> out_as OutRedeem (run_tx (invite_redeem_tx k now th verify) [] d)
     | OpRevoke k verify \<Rightarrow> out_as OutRevoke (run_tx (invite_revoke_tx k verify) [] d)
     | OpEnqueue k lid mid b now max_depth max_routes ticket \<Rightarrow>
         out_as OutEnqueue
           (run_tx (enqueue_tx k lid mid b now max_depth max_routes ticket) [] d)
     | OpPull k mx max_bytes now mode \<Rightarrow>
         out_as OutPull (run_tx (pull_tx ttl lease_secs k mx max_bytes now mode) [] d)
     | OpAck k ids now \<Rightarrow> out_as OutAck (run_tx (ack_tx ttl k ids now) [] d))"

definition op_effect :: "int \<Rightarrow> int \<Rightarrow> store_op \<Rightarrow> db \<Rightarrow> db" where
  "op_effect ttl lease_secs op d = snd (run_op ttl lease_secs op d)"

text \<open>The tables behind a store.\<close>

abbreviation tables :: "Store \<Rightarrow> db" where
  "tables st \<equiv> inner (conn st)"

abbreviation alive :: "Store \<Rightarrow> bool" where
  "alive st \<equiv> \<not> poisoned (conn st)"

subsection \<open>Atomicity\<close>

lemma store_tx_cases:
  assumes "faithful b" and "alive st"
  shows "out_as f (store_tx b fs st) =
      (fst (out_as f (run_tx b [] (tables st))),
       st\<lparr>conn := Mutex False (snd (out_as f (run_tx b [] (tables st))))\<rparr>)
    \<or> (\<exists>e. out_as f (store_tx b fs st) = (Inl e, st))"
proof -
  obtain d where st: "conn st = Mutex False d" "st\<lparr>conn := Mutex False d\<rparr> = st"
    using assms(2) by (cases st; cases "conn st"; simp)
  show ?thesis
    using run_tx_faults [OF assms(1), of fs d] st
    by (auto simp: store_tx_def out_as_def split: prod.split)
qed

lemma store_tx_no_fault:
  "alive st \<Longrightarrow> store_tx b [] st = (fst (run_tx b [] (tables st)),
     st\<lparr>conn := Mutex False (snd (run_tx b [] (tables st)))\<rparr>)"
  by (cases st; cases "conn st") (simp add: store_tx_def split: prod.split)

lemmas store_op_defs =
  store_retention_sweep_def store_route_status_def store_invite_create_def store_invite_redeem_def
  store_invite_revoke_def store_enqueue_def store_pull_def store_ack_def

lemma exec_cases:
  assumes "alive st"
  shows "exec op fs st =
      (fst (run_op (st_retention_ttl_secs st) (st_pull_lease_secs st) op (tables st)),
       st\<lparr>conn := Mutex False
         (op_effect (st_retention_ttl_secs st) (st_pull_lease_secs st) op (tables st))\<rparr>)
    \<or> (\<exists>e. exec op fs st = (Inl e, st))"
  unfolding exec_def run_op_def op_effect_def store_op_defs
  by (cases op; simp only: store_op.case; rule store_tx_cases [OF _ assms]; rule sql_sim)

lemma exec_no_fault:
  assumes "alive st"
  shows "exec op [] st =
      (fst (run_op (st_retention_ttl_secs st) (st_pull_lease_secs st) op (tables st)),
       st\<lparr>conn := Mutex False
         (op_effect (st_retention_ttl_secs st) (st_pull_lease_secs st) op (tables st))\<rparr>)"
  by (cases op)
     (simp_all add: exec_def store_op_defs run_op_def op_effect_def out_as_def
        store_tx_no_fault [OF assms])

lemma exec_effect:
  assumes "alive st" and "exec op fs st = (Inr x, st')"
  shows "fst (run_op (st_retention_ttl_secs st) (st_pull_lease_secs st) op (tables st)) = Inr x"
    and "tables st' = op_effect (st_retention_ttl_secs st) (st_pull_lease_secs st) op (tables st)"
  using exec_cases [OF assms(1), of op fs] assms(2) by auto

text \<open>
  C27: Every operation of the store is atomic under every failure of its statements: with any
  schedule of SQLite errors, at any statement or at the commit, it either answers and changes
  the tables exactly as without failures, or it answers an error and leaves the store as it
  was.
\<close>

theorem store_atomic:
  assumes "alive st"
  shows "exec op fs st = exec op [] st \<or> (\<exists>e. exec op fs st = (Inl e, st))"
  using exec_cases [OF assms, of op fs] exec_no_fault [OF assms, of op] by auto

theorem store_atomic_witness:
  "let st = \<lparr>conn = Mutex False empty_db, st_retention_ttl_secs = 60, st_pull_lease_secs = 5\<rparr>;
       op = OpEnqueue ''r'' ''l'' ''m'' [1] 100 8 8 None in
   (exec op [None, None, Some ''disk I/O error''] st = exec op [] st \<or>
    (\<exists>e. exec op [None, None, Some ''disk I/O error''] st = (Inl e, st))) \<and>
   exec op [None, None, Some ''disk I/O error''] st = (Inl ''ERR_STORE disk I/O error'', st) \<and>
   fst (exec op [] st) = Inr (OutEnqueue Accepted)"
proof -
  let ?st = "\<lparr>conn = Mutex False empty_db, st_retention_ttl_secs = 60, st_pull_lease_secs = 5\<rparr>"
  let ?op = "OpEnqueue ''r'' ''l'' ''m'' [1] 100 8 8 None"
  have a: "exec ?op fs ?st = exec ?op [] ?st \<or> (\<exists>e. exec ?op fs ?st = (Inl e, ?st))" for fs
    by (rule store_atomic) simp
  have b: "exec ?op [None, None, Some ''disk I/O error''] ?st = (Inl ''ERR_STORE disk I/O error'', ?st)"
    by (simp add: exec_def out_as_def store_op_defs store_tx_def run_tx_def enqueue_tx_def
        sql_bind_def statement_defs query_def stmt_def find_invite_def empty_db_def map_err_def
        enqueue_message_tx_def Let_def has_route_def)
  have c: "fst (exec ?op [] ?st) = Inr (OutEnqueue Accepted)"
    by (simp add: exec_no_fault run_op_def out_as_def enqueue_run slot_refusal_def find_invite_def
        capacity_refusal_def empty_db_def has_route_def)
  show ?thesis
    unfolding Let_def by (intro conjI a b c)
qed

end
