(* ===== verification/Store_Inv.thy ===== *)
theory Store_Inv imports Store_Ops begin

text \<open>
  The invariant of the tables and its preservation by every operation of the store. Its
  mailbox half says that the sequence numbers are strictly increasing and below the counter,
  and that the rows of \<open>routes\<close> are exactly the routes that have a queued message (so the
  foreign key holds and the route cap counts only live mailboxes); its slot half says that a
  slot is in one of its three states and that only an active slot carries a bundle.
\<close>

subsection \<open>The invariant\<close>

definition mail_ok :: "db \<Rightarrow> bool" where
  "mail_ok d \<longleftrightarrow>
     distinct (map rt_key (routes d)) \<and>
     sorted_wrt (<) (map seq (messages d)) \<and>
     (\<forall>m \<in> set (messages d). seq m \<le> last_seq d) \<and>
     set (map msg_route (messages d)) = set (map rt_key (routes d))"

definition invite_ok :: "invite_row \<Rightarrow> bool" where
  "invite_ok i \<longleftrightarrow>
     (inv_state i = INVITE_ACTIVE \<and> ticket_hash i = None \<or>
      inv_state i = INVITE_CONSUMED \<and> inv_bundle i = [] \<and> inv_sig i = [] \<or>
      inv_state i = INVITE_REVOKED \<and> inv_bundle i = [] \<and> inv_sig i = [] \<and> ticket_hash i = None)"

definition slots_ok :: "db \<Rightarrow> bool" where
  "slots_ok d \<longleftrightarrow> distinct (map slot_key (invites d)) \<and> (\<forall>i \<in> set (invites d). invite_ok i)"

definition db_ok :: "db \<Rightarrow> bool" where
  "db_ok d \<longleftrightarrow> mail_ok d \<and> slots_ok d"

lemma db_ok_empty: "db_ok empty_db"
  by (simp add: db_ok_def mail_ok_def slots_ok_def empty_db_def)

text \<open>The two halves read different tables.\<close>

lemma halves [simp]:
  "mail_ok (d\<lparr>invites := is\<rparr>) = mail_ok d"
  "slots_ok (d\<lparr>messages := ms\<rparr>) = slots_ok d"
  "slots_ok (d\<lparr>routes := rs\<rparr>) = slots_ok d"
  "slots_ok (d\<lparr>last_seq := n\<rparr>) = slots_ok d"
  by (simp_all add: mail_ok_def slots_ok_def)

lemma slots_ok_mail_steps [simp]:
  "slots_ok (drop_expired ttl now d) = slots_ok d"
  "slots_ok (drop_idle_routes d) = slots_ok d"
  "slots_ok (drop_route k d) = slots_ok d"
  "slots_ok (drop_seqs seqs d) = slots_ok d"
  "slots_ok (lease_seqs seqs t d) = slots_ok d"
  "slots_ok (drop_acked k ids d) = slots_ok d"
  "slots_ok (touch k now d) = slots_ok d"
  "slots_ok (add_route k lid now d) = slots_ok d"
  "slots_ok (append_message k mid b now d) = slots_ok d"
  by (simp_all add: drop_expired_def drop_idle_routes_def drop_route_def drop_seqs_def
      lease_seqs_def drop_acked_def touch_def add_route_def append_message_def)

lemma mail_ok_map_invites [simp]: "mail_ok (map_invites p f d) = mail_ok d"
  by (simp add: map_invites_def)

lemma mail_ok_slot_steps [simp]:
  "mail_ok (drop_expired_invites now d) = mail_ok d"
  "mail_ok (add_invite i d) = mail_ok d"
  "mail_ok (consume_slot k now th d) = mail_ok d"
  "mail_ok (revoke_slot k d) = mail_ok d"
  "mail_ok (burn_ticket k d) = mail_ok d"
  by (simp_all add: drop_expired_invites_def add_invite_def consume_slot_def revoke_slot_def
      burn_ticket_def)

subsection \<open>Removing messages\<close>

text \<open>\<open>keep q d\<close> keeps the messages that satisfy \<open>q\<close>, and the routes that still have one. Every
  removal of the store, whatever its statements, is one of these.\<close>

definition keep :: "(msg_row \<Rightarrow> bool) \<Rightarrow> db \<Rightarrow> db" where
  "keep q d = d\<lparr>messages := filter q (messages d),
     routes := filter (\<lambda>r. \<exists>m \<in> set (messages d). q m \<and> msg_route m = rt_key r) (routes d)\<rparr>"

lemma queue_keep [simp]: "queue (keep q d) k = filter q (queue d k)"
  by (simp add: queue_def keep_def conj_commute)

lemma messages_keep [simp]: "messages (keep q d) = filter q (messages d)"
  by (simp add: keep_def)

lemma keep_simps [simp]:
  "last_seq (keep q d) = last_seq d" "invites (keep q d) = invites d" "meta (keep q d) = meta d"
  "slots_ok (keep q d) = slots_ok d"
  by (simp_all add: keep_def)

lemma sorted_wrt_map_filter: "sorted_wrt P (map f xs) \<Longrightarrow> sorted_wrt P (map f (filter q xs))"
  by (simp add: sorted_wrt_map sorted_wrt_filter)

lemma mail_ok_keep:
  assumes "mail_ok d"
  shows "mail_ok (keep q d)"
proof -
  have "\<exists>r \<in> set (routes d). rt_key r = msg_route m" if "m \<in> set (messages d)" for m
  proof -
    from assms that have "msg_route m \<in> set (map rt_key (routes d))"
      by (metis mail_ok_def image_eqI list.set_map)
    then show ?thesis by auto
  qed
  then have "set (map msg_route (messages (keep q d))) = set (map rt_key (routes (keep q d)))"
    by (auto simp: keep_def image_iff) metis+
  with assms show ?thesis
    by (auto simp: mail_ok_def keep_def distinct_map_filter sorted_wrt_map_filter)
qed

lemma mail_ok_seq_inj:
  assumes "mail_ok d" and "m \<in> set (messages d)" "m' \<in> set (messages d)" "seq m = seq m'"
  shows "m = m'"
proof -
  from assms(1) have "distinct (map seq (messages d))"
    by (simp add: mail_ok_def strict_sorted_iff)
  then show ?thesis using assms(2-4) by (auto simp: distinct_map dest: inj_onD)
qed

lemma mail_ok_has_route:
  assumes "mail_ok d"
  shows "has_route k d \<longleftrightarrow> queue d k \<noteq> []"
proof -
  have "has_route k d \<longleftrightarrow> k \<in> set (map msg_route (messages d))"
    using assms by (simp add: mail_ok_def has_route_def)
  then show ?thesis by (auto simp: queue_def filter_empty_conv)
qed

lemma queue_distinct:
  assumes "mail_ok d"
  shows "distinct (queue d k)" and "sorted (map seq (queue d k))"
proof -
  have sorted: "sorted_wrt (<) (map seq (queue d k))"
    using assms by (simp add: mail_ok_def queue_def sorted_wrt_map_filter)
  then have "distinct (map seq (queue d k))" by (simp add: strict_sorted_iff)
  then show "distinct (queue d k)" by (simp add: distinct_map)
  from sorted show "sorted (map seq (queue d k))" by (simp add: strict_sorted_iff)
qed

text \<open>Routes are filtered by a property of their key: the queue of the key that remains.\<close>

lemma keep_all:
  assumes "mail_ok d" and "\<And>m. m \<in> set (messages d) \<Longrightarrow> q m"
  shows "keep q d = d"
proof -
  have "\<exists>m \<in> set (messages d). q m \<and> msg_route m = rt_key r" if "r \<in> set (routes d)" for r
  proof -
    from assms(1) that have "rt_key r \<in> set (map msg_route (messages d))"
      by (auto simp: mail_ok_def)
    with assms(2) show ?thesis by auto
  qed
  then have "filter (\<lambda>r. \<exists>m \<in> set (messages d). q m \<and> msg_route m = rt_key r) (routes d) = routes d"
    by (simp add: filter_id_conv)
  moreover have "filter q (messages d) = messages d"
    using assms(2) by (simp add: filter_id_conv)
  ultimately show ?thesis by (simp add: keep_def)
qed

lemma swept_keep:
  assumes "mail_ok d"
  shows "swept ttl now d = drop_expired_invites now (keep (\<lambda>m. \<not> expired ttl now m) d)"
proof (cases "filter (expired ttl now) (messages d) = []")
  case True
  then have "drop_expired ttl now d = d"
    by (simp add: drop_expired_def filter_empty_conv filter_id_conv)
  moreover from True have "keep (\<lambda>m. \<not> expired ttl now m) d = d"
    by (intro keep_all assms) (auto simp: filter_empty_conv)
  ultimately show ?thesis using True by (simp add: swept_def)
next
  case False
  have "drop_idle_routes (drop_expired ttl now d) = keep (\<lambda>m. \<not> expired ttl now m) d"
    by (auto simp: drop_idle_routes_def route_idle_def drop_expired_def keep_def queue_def
        filter_empty_conv intro!: filter_cong)
  with False show ?thesis by (simp add: swept_def)
qed

text \<open>Removing messages of one route only.\<close>

lemma keep_route:
  assumes "mail_ok d" and "\<And>m. m \<in> set (messages d) \<Longrightarrow> msg_route m \<noteq> k \<Longrightarrow> q m"
  shows "keep q d =
    (if filter q (queue d k) = [] then drop_route k (d\<lparr>messages := filter q (messages d)\<rparr>)
     else d\<lparr>messages := filter q (messages d)\<rparr>)"
proof -
  have live: "\<exists>m \<in> set (messages d). msg_route m = rt_key r" if "r \<in> set (routes d)" for r
    using assms(1) that by (auto simp: mail_ok_def) (metis imageE image_eqI)
  have left: "(\<exists>m \<in> set (messages d). q m \<and> msg_route m = rt_key r) \<longleftrightarrow>
      rt_key r \<noteq> k \<or> filter q (queue d k) \<noteq> []" if "r \<in> set (routes d)" for r
  proof -
    from live [OF that] obtain m where "m \<in> set (messages d)" "msg_route m = rt_key r" by blast
    then show ?thesis
      using assms(2) [of m] by (cases "rt_key r = k") (auto simp: queue_def filter_empty_conv)
  qed
  have "keep q d = d\<lparr>messages := filter q (messages d),
      routes := filter (\<lambda>r. rt_key r \<noteq> k \<or> filter q (queue d k) \<noteq> []) (routes d)\<rparr>"
    unfolding keep_def using left by (simp cong: filter_cong)
  moreover have "filter (\<lambda>m. msg_route m \<noteq> k) (filter q (messages d)) = filter q (messages d)"
    if "filter q (queue d k) = []"
    using that by (auto simp: queue_def filter_empty_conv intro!: filter_cong)
  ultimately show ?thesis by (simp add: drop_route_def)
qed

lemma acknowledged_keep:
  assumes "mail_ok d"
  shows "acknowledged k ids d = keep (\<lambda>m. \<not> acked_by k ids m) d"
proof (cases "filter (acked_by k ids) (messages d) = []")
  case True
  then have "keep (\<lambda>m. \<not> acked_by k ids m) d = d"
    by (intro keep_all assms) (auto simp: filter_empty_conv)
  moreover from True have "drop_acked k ids d = d"
    by (simp add: drop_acked_def filter_empty_conv filter_id_conv)
  ultimately show ?thesis using True by (simp add: acknowledged_def)
next
  case False
  have "queue (drop_acked k ids d) k = filter (\<lambda>m. \<not> acked_by k ids m) (queue d k)"
    by (simp add: drop_acked_def queue_def conj_commute)
  moreover have "keep (\<lambda>m. \<not> acked_by k ids m) d =
      (if filter (\<lambda>m. \<not> acked_by k ids m) (queue d k) = []
       then drop_route k (drop_acked k ids d) else drop_acked k ids d)"
    unfolding drop_acked_def by (rule keep_route [OF assms]) (simp add: acked_by_def)
  ultimately show ?thesis using False by (simp add: acknowledged_def Let_def)
qed

text \<open>What a pull selects: messages of the route that are not under a lease.\<close>

lemma set_pull_loop: "set (pull_loop max_bytes t acc ms) \<subseteq> set acc \<union> set ms"
  by (induction max_bytes t acc ms rule: pull_loop.induct) auto

lemma set_sql_limit: "set (sql_limit n xs) \<subseteq> set xs"
  by (simp add: sql_limit_def set_take_subset)

lemma pulled_subset: "set (pulled now k mx max_bytes d) \<subseteq> {m \<in> set (queue d k). available now m}"
  unfolding pulled_def
  using set_pull_loop [of max_bytes 0 "[]"
      "sql_limit (usize_as_i64 mx) (sort_key seq (filter (available now) (queue d k)))"]
    set_sql_limit [of "usize_as_i64 mx" "sort_key seq (filter (available now) (queue d k))"]
  by fastforce

lemma seq_in_pulled:
  assumes "mail_ok d" and "set ms \<subseteq> set (queue d k)" and "m \<in> set (messages d)"
  shows "seq m \<in> set (map seq ms) \<longleftrightarrow> m \<in> set ms"
  using assms mail_ok_seq_inj [OF assms(1)] by (auto simp: queue_def)

lemma legacy_delivered_keep:
  assumes "mail_ok d" and "set ms \<subseteq> set (queue d k)"
  shows "legacy_delivered k now ms d =
    (let d' = keep (\<lambda>m. m \<notin> set ms) d in if queue d' k = [] then d' else touch k now d')"
proof -
  have drop: "drop_seqs (map seq ms) d = d\<lparr>messages := filter (\<lambda>m. m \<notin> set ms) (messages d)\<rparr>"
    unfolding drop_seqs_def using seq_in_pulled [OF assms] by (simp cong: filter_cong)
  have "keep (\<lambda>m. m \<notin> set ms) d =
      (if filter (\<lambda>m. m \<notin> set ms) (queue d k) = [] then drop_route k (drop_seqs (map seq ms) d)
       else drop_seqs (map seq ms) d)"
    unfolding drop by (rule keep_route [OF assms(1)]) (use assms(2) in \<open>auto simp: queue_def\<close>)
  moreover have "queue (drop_seqs (map seq ms) d) k = filter (\<lambda>m. m \<notin> set ms) (queue d k)"
    unfolding drop by (simp add: queue_def conj_commute)
  ultimately show ?thesis
    using queue_keep [of "\<lambda>m. m \<notin> set ms" d k] by (simp add: legacy_delivered_def Let_def)
qed

subsection \<open>Changing rows in place\<close>

lemma mail_ok_touch [simp]: "mail_ok (touch k now d) = mail_ok d"
proof -
  have "map rt_key (routes (touch k now d)) = map rt_key (routes d)"
    by (simp add: touch_def)
  moreover have "messages (touch k now d) = messages d" "last_seq (touch k now d) = last_seq d"
    by (simp_all add: touch_def)
  ultimately show ?thesis by (simp only: mail_ok_def)
qed

lemma keys_touch [simp]: "map rt_key (routes (touch k now d)) = map rt_key (routes d)"
  by (simp add: touch_def)

lemma touch_simps [simp]:
  "messages (touch k now d) = messages d" "last_seq (touch k now d) = last_seq d"
  "invites (touch k now d) = invites d" "queue (touch k now d) j = queue d j"
  "length (routes (touch k now d)) = length (routes d)" "meta (touch k now d) = meta d"
  by (simp_all add: touch_def queue_def)

lemma has_route_touch [simp]: "has_route j (touch k now d) = has_route j d"
  by (simp only: has_route_def keys_touch)

lemma mail_ok_lease_seqs [simp]: "mail_ok (lease_seqs seqs t d) = mail_ok d"
proof -
  have cols: "map seq (messages (lease_seqs seqs t d)) = map seq (messages d)"
    "map msg_route (messages (lease_seqs seqs t d)) = map msg_route (messages d)"
    by (simp_all add: lease_seqs_def)
  have bound: "(\<forall>m \<in> set ms. seq m \<le> last_seq d) \<longleftrightarrow>
      (\<forall>n \<in> set (map seq ms). n \<le> last_seq d)" for ms
    by simp
  have "(\<forall>m \<in> set (messages (lease_seqs seqs t d)). seq m \<le> last_seq d) \<longleftrightarrow>
      (\<forall>m \<in> set (messages d). seq m \<le> last_seq d)"
    by (simp only: bound cols)
  note cols this
  moreover have "routes (lease_seqs seqs t d) = routes d" "last_seq (lease_seqs seqs t d) = last_seq d"
    by (simp_all add: lease_seqs_def)
  ultimately show ?thesis by (simp only: mail_ok_def)
qed

lemma keys_add_route:
  "map rt_key (routes (add_route k lid now d)) =
   (if has_route k d then map rt_key (routes d) else map rt_key (routes d) @ [k])"
  by (simp add: add_route_def)

lemma mail_ok_add_append:
  assumes "mail_ok d"
  shows "mail_ok (append_message k mid b now (add_route k lid now d))"
proof -
  let ?d = "append_message k mid b now (add_route k lid now d)"
  have keys: "map rt_key (routes ?d) =
      (if has_route k d then map rt_key (routes d) else map rt_key (routes d) @ [k])"
    by (simp add: append_message_def keys_add_route)
  have msgs: "messages ?d = messages d @ [new_message (add_route k lid now d) mid k b now]"
    "last_seq ?d = Suc (last_seq d)"
    by (simp_all add: append_message_def)
  have "distinct (map rt_key (routes ?d))"
    using assms unfolding keys by (simp add: mail_ok_def has_route_def)
  moreover have "sorted_wrt (<) (map seq (messages ?d))"
    "\<forall>m \<in> set (messages ?d). seq m \<le> last_seq ?d"
    using assms unfolding msgs mail_ok_def
    by (auto simp: new_message_def sorted_wrt_append less_Suc_eq_le intro: le_SucI)
  moreover have "set (map msg_route (messages ?d)) = set (map rt_key (routes ?d))"
    using assms unfolding keys msgs mail_ok_def
    by (simp add: new_message_def has_route_def insert_absorb)
  ultimately show ?thesis unfolding mail_ok_def by simp
qed

subsection \<open>Every operation keeps the invariant\<close>

lemma mail_ok_swept: "mail_ok d \<Longrightarrow> mail_ok (swept ttl now d)"
  by (simp add: swept_keep mail_ok_keep)

lemma mail_ok_deliveries:
  assumes "mail_ok d"
  shows "mail_ok (legacy_delivered k now (pulled t k mx mb d) d)"
    and "mail_ok (lease_delivered k now dl ms d)" and "mail_ok (acknowledged k ids d)"
proof -
  have "set (pulled t k mx mb d) \<subseteq> set (queue d k)"
    using pulled_subset [of t k mx mb d] by auto
  with assms show "mail_ok (legacy_delivered k now (pulled t k mx mb d) d)"
    by (simp add: legacy_delivered_keep mail_ok_keep Let_def)
  show "mail_ok (lease_delivered k now dl ms d)"
    using assms by (simp add: lease_delivered_def)
  show "mail_ok (acknowledged k ids d)"
    using assms by (simp add: acknowledged_keep mail_ok_keep)
qed

lemma mail_ok_accepted: "mail_ok d \<Longrightarrow> mail_ok (accepted k lid mid b now d)"
  by (simp add: accepted_def mail_ok_add_append)

lemma slots_ok_map_invites:
  assumes "slots_ok d" and "\<And>i. invite_ok i \<Longrightarrow> p i \<Longrightarrow> invite_ok (f i)"
    and "\<And>i. slot_key (f i) = slot_key i"
  shows "slots_ok (map_invites p f d)"
proof -
  have keys: "map slot_key (invites (map_invites p f d)) = map slot_key (invites d)"
    by (simp add: map_invites_def assms(3))
  have "\<forall>i \<in> set (invites (map_invites p f d)). invite_ok i"
    using assms(1,2) by (auto simp: slots_ok_def map_invites_def)
  then show ?thesis using assms(1) unfolding slots_ok_def keys by blast
qed

lemma slots_ok_consume: "slots_ok d \<Longrightarrow> slots_ok (consume_slot k now th d)"
  unfolding consume_slot_def
  by (rule slots_ok_map_invites) (auto simp: consume_def invite_ok_def)

lemma slots_ok_revoke: "slots_ok d \<Longrightarrow> slots_ok (revoke_slot k d)"
  unfolding revoke_slot_def
  by (rule slots_ok_map_invites) (auto simp: revoke_def invite_ok_def)

lemma slots_ok_burn: "slots_ok d \<Longrightarrow> slots_ok (burn_ticket k d)"
  unfolding burn_ticket_def
  by (rule slots_ok_map_invites) (auto simp: burn_def invite_ok_def)

lemma slots_ok_drop_expired_invites: "slots_ok d \<Longrightarrow> slots_ok (drop_expired_invites now d)"
  by (auto simp: slots_ok_def drop_expired_invites_def distinct_map_filter)

lemma slots_ok_swept: "slots_ok d \<Longrightarrow> slots_ok (swept ttl now d)"
  by (simp add: swept_def slots_ok_drop_expired_invites)

lemma slots_ok_add:
  "slots_ok d \<Longrightarrow> find_invite k d = None \<Longrightarrow>
   slots_ok (add_invite (new_invite k lid cap_h revoke_h bun sg until now) d)"
  by (auto simp: slots_ok_def add_invite_def new_invite_def find_invite_None_iff invite_ok_def)

lemma slots_ok_deliveries [simp]:
  "slots_ok (legacy_delivered k now ms d) = slots_ok d"
  "slots_ok (lease_delivered k now dl ms d) = slots_ok d"
  "slots_ok (acknowledged k ids d) = slots_ok d"
  by (simp_all add: legacy_delivered_def lease_delivered_def acknowledged_def Let_def)

lemma slots_ok_accepted: "slots_ok d \<Longrightarrow> slots_ok (accepted k lid mid b now d)"
  by (simp add: accepted_def slots_ok_burn)

lemma db_ok_swept: "db_ok d \<Longrightarrow> db_ok (swept ttl now d)"
  by (simp add: db_ok_def mail_ok_swept slots_ok_swept)

lemma db_ok_op_effect:
  assumes "db_ok d"
  shows "db_ok (op_effect ttl lease_secs op d)"
proof -
  note s = db_ok_swept [OF assms, of ttl]
  have dist: "distinct (map slot_key (invites d))"
    using assms by (simp add: db_ok_def slots_ok_def)
  show ?thesis
  proof (cases op)
    case (OpSweep now)
    then show ?thesis by (simp add: op_effect_def run_op_def out_as_def retention_sweep_run s)
  next
    case (OpStatus k now)
    then show ?thesis by (simp add: op_effect_def run_op_def out_as_def route_status_run s)
  next
    case (OpCreate k lid cap_h revoke_h bun sg until now slot_cap)
    then show ?thesis
      using assms s [of now]
      by (auto simp: op_effect_def run_op_def out_as_def invite_create_run Let_def db_ok_def
          slots_ok_add)
  next
    case (OpRedeem k now th verify)
    then show ?thesis
      using assms
      by (simp add: op_effect_def run_op_def out_as_def invite_redeem_run [OF dist] db_ok_def
          slots_ok_consume split: option.split)
  next
    case (OpRevoke k verify)
    then show ?thesis
      using assms
      by (simp add: op_effect_def run_op_def out_as_def invite_revoke_run db_ok_def
          slots_ok_revoke split: option.split)
  next
    case (OpEnqueue k lid mid b now max_depth max_routes ticket)
    then show ?thesis
      using assms
      by (simp add: op_effect_def run_op_def out_as_def enqueue_run db_ok_def mail_ok_accepted
          slots_ok_accepted split: option.split)
  next
    case (OpPull k mx max_bytes now mode)
    then show ?thesis
      using s [of now]
      by (cases mode) (simp_all add: op_effect_def run_op_def out_as_def pull_legacy_run
          pull_lease_run Let_def db_ok_def mail_ok_deliveries)
  next
    case (OpAck k ids now)
    then show ?thesis
      using s [of now]
      by (simp add: op_effect_def run_op_def out_as_def ack_run Let_def db_ok_def
          mail_ok_deliveries)
  qed
qed

subsection \<open>The caps\<close>

text \<open>\<open>within D R S op\<close>: the operation carries caps no greater than these (the relay passes its
  configured limits with every push and every create).\<close>

definition within :: "nat \<Rightarrow> nat \<Rightarrow> nat \<Rightarrow> store_op \<Rightarrow> bool" where
  "within D R S op =
    (case op of
       OpEnqueue k lid mid b now max_depth max_routes ticket \<Rightarrow> max_depth \<le> D \<and> max_routes \<le> R
     | OpCreate k lid cap_h revoke_h bun sg until now slot_cap \<Rightarrow> slot_cap \<le> S
     | _ \<Rightarrow> True)"

definition capped :: "nat \<Rightarrow> nat \<Rightarrow> nat \<Rightarrow> db \<Rightarrow> bool" where
  "capped D R S d \<longleftrightarrow> (\<forall>k. length (queue d k) \<le> D) \<and> length (routes d) \<le> R \<and> length (invites d) \<le> S"

lemma capped_mono:
  assumes "capped D R S d" and "\<And>k. length (queue d' k) \<le> length (queue d k)"
    and "length (routes d') \<le> length (routes d)" and "length (invites d') \<le> length (invites d)"
  shows "capped D R S d'"
  using assms unfolding capped_def by (meson le_trans)

lemma capped_keep: "capped D R S d \<Longrightarrow> capped D R S (keep q d)"
proof (erule capped_mono)
  show "length (queue (keep q d) k) \<le> length (queue d k)" for k by simp
  show "length (routes (keep q d)) \<le> length (routes d)" by (simp add: keep_def)
  show "length (invites (keep q d)) \<le> length (invites d)" by simp
qed

lemma capped_touch [simp]: "capped D R S (touch k now d) = capped D R S d"
  by (simp add: capped_def)

lemma capped_map_invites [simp]: "capped D R S (map_invites p f d) = capped D R S d"
  by (simp add: capped_def map_invites_def queue_def)

lemma capped_drop_expired_invites: "capped D R S d \<Longrightarrow> capped D R S (drop_expired_invites now d)"
  by (erule capped_mono) (simp_all add: drop_expired_invites_def queue_def)

lemma capped_swept: "mail_ok d \<Longrightarrow> capped D R S d \<Longrightarrow> capped D R S (swept ttl now d)"
  by (simp add: swept_keep capped_drop_expired_invites capped_keep)

lemma queue_lease_seqs:
  "queue (lease_seqs seqs t d) k =
   map (\<lambda>m. if seq m \<in> set seqs then m\<lparr>leased_until := Some t\<rparr> else m) (queue d k)"
proof -
  have "filter (\<lambda>m. msg_route m = k)
      (map (\<lambda>m. if seq m \<in> set seqs then m\<lparr>leased_until := Some t\<rparr> else m) ms) =
    map (\<lambda>m. if seq m \<in> set seqs then m\<lparr>leased_until := Some t\<rparr> else m)
      (filter (\<lambda>m. msg_route m = k) ms)" for ms
    by (induction ms) auto
  then show ?thesis by (simp add: queue_def lease_seqs_def)
qed

lemma capped_lease_seqs [simp]: "capped D R S (lease_seqs seqs t d) = capped D R S d"
  unfolding capped_def queue_lease_seqs by (simp add: lease_seqs_def)

lemma queue_accepted:
  "queue (accepted k lid mid b now d) j =
   (if j = k then queue d k @ [new_message d mid k b now] else queue d j)"
  by (auto simp: accepted_def append_message_def queue_def new_message_def)

lemma routes_accepted:
  "length (routes (accepted k lid mid b now d)) =
   (if has_route k d then length (routes d) else Suc (length (routes d)))"
  by (simp add: accepted_def append_message_def add_route_def touch_def)

lemma invites_accepted: "invites (accepted k lid mid b now d) = invites (burn_ticket k d)"
  by (simp add: accepted_def append_message_def)

lemma capped_accepted:
  assumes "mail_ok d" and "capped D R S d" and "max_depth \<le> D" and "max_routes \<le> R" and "0 < D"
    and "capacity_refusal k max_depth max_routes d = None"
  shows "capped D R S (accepted k lid mid b now d)"
proof -
  have "length (queue d k) < D"
    using assms mail_ok_has_route [OF assms(1), of k]
    by (auto simp: capacity_refusal_def split: if_splits)
  moreover have "length (routes (accepted k lid mid b now d)) \<le> R"
    using assms by (auto simp: capacity_refusal_def routes_accepted capped_def split: if_splits)
  ultimately show ?thesis
    using assms(2)
    by (auto simp: capped_def queue_accepted invites_accepted burn_ticket_def map_invites_def)
qed

lemma capped_deliveries:
  assumes "mail_ok d" and "capped D R S d"
  shows "capped D R S (legacy_delivered k now (pulled t k mx mb d) d)"
    and "capped D R S (lease_delivered k now dl ms d)" and "capped D R S (acknowledged k ids d)"
proof -
  have "set (pulled t k mx mb d) \<subseteq> set (queue d k)"
    using pulled_subset [of t k mx mb d] by auto
  with assms show "capped D R S (legacy_delivered k now (pulled t k mx mb d) d)"
    by (simp add: legacy_delivered_keep capped_keep Let_def)
  show "capped D R S (lease_delivered k now dl ms d)"
    using assms by (simp add: lease_delivered_def)
  show "capped D R S (acknowledged k ids d)"
    using assms by (simp add: acknowledged_keep capped_keep)
qed

lemma capped_op_effect:
  assumes "db_ok d" and "capped D R S d" and "within D R S op" and "0 < D"
  shows "capped D R S (op_effect ttl lease_secs op d)"
proof -
  have mail: "mail_ok d" and dist: "distinct (map slot_key (invites d))"
    using assms(1) by (simp_all add: db_ok_def slots_ok_def)
  note s = capped_swept [OF mail assms(2), of ttl]
  note m = mail_ok_swept [OF mail, of ttl]
  show ?thesis
  proof (cases op)
    case (OpSweep now)
    then show ?thesis by (simp add: op_effect_def run_op_def out_as_def retention_sweep_run s)
  next
    case (OpStatus k now)
    then show ?thesis by (simp add: op_effect_def run_op_def out_as_def route_status_run s)
  next
    case (OpCreate k lid cap_h revoke_h bun sg until now slot_cap)
    then show ?thesis
      using assms s [of now]
      by (auto simp: op_effect_def run_op_def out_as_def invite_create_run Let_def within_def
          capped_def add_invite_def queue_def)
  next
    case (OpRedeem k now th verify)
    then show ?thesis
      using assms
      by (simp add: op_effect_def run_op_def out_as_def invite_redeem_run [OF dist] consume_slot_def
          split: option.split)
  next
    case (OpRevoke k verify)
    then show ?thesis
      using assms
      by (simp add: op_effect_def run_op_def out_as_def invite_revoke_run revoke_slot_def
          split: option.split)
  next
    case (OpEnqueue k lid mid b now max_depth max_routes ticket)
    then show ?thesis
      using assms capped_accepted [OF mail assms(2) _ _ assms(4), of max_depth max_routes k]
      by (simp add: op_effect_def run_op_def out_as_def enqueue_run within_def split: option.split)
  next
    case (OpPull k mx max_bytes now mode)
    then show ?thesis
      using s [of now] m [of now]
      by (cases mode) (simp_all add: op_effect_def run_op_def out_as_def pull_legacy_run
          pull_lease_run Let_def capped_deliveries)
  next
    case (OpAck k ids now)
    then show ?thesis
      using s [of now] m [of now]
      by (simp add: op_effect_def run_op_def out_as_def ack_run Let_def capped_deliveries)
  qed
qed

subsection \<open>Runs of the store\<close>

text \<open>One operation with any failures, and the stores that operations satisfying \<open>allowed\<close> reach
  from one with empty tables.\<close>

inductive store_step :: "(store_op \<Rightarrow> bool) \<Rightarrow> Store \<Rightarrow> Store \<Rightarrow> bool" for allowed where
  store_stepI: "allowed op \<Longrightarrow> exec op fs st = (r, st') \<Longrightarrow> store_step allowed st st'"

inductive_cases store_stepE: "store_step allowed st st'"

inductive reachable :: "(store_op \<Rightarrow> bool) \<Rightarrow> Store \<Rightarrow> bool" for allowed where
  reach_init: "reachable allowed
     \<lparr>conn = Mutex False empty_db, st_retention_ttl_secs = ttl, st_pull_lease_secs = lease_secs\<rparr>"
| reach_step: "reachable allowed st \<Longrightarrow> store_step allowed st st' \<Longrightarrow> reachable allowed st'"

lemma exec_step:
  assumes "alive st" and "exec op fs st = (r, st')"
  shows "alive st' \<and> (tables st' = tables st \<or>
    tables st' = op_effect (st_retention_ttl_secs st) (st_pull_lease_secs st) op (tables st))"
  using exec_cases [OF assms(1), of op fs] assms by auto

lemma exec_preserves:
  assumes "alive st" and "db_ok (tables st)"
  shows "alive (snd (exec op fs st))" and "db_ok (tables (snd (exec op fs st)))"
  using exec_step [OF assms(1), of op fs] db_ok_op_effect [OF assms(2)] assms
  by (metis prod.collapse)+

lemma reachable_ok: "reachable allowed st \<Longrightarrow> alive st \<and> db_ok (tables st)"
proof (induction rule: reachable.induct)
  case (reach_init ttl lease_secs)
  then show ?case by (simp add: db_ok_empty)
next
  case (reach_step st st')
  from reach_step.hyps(2) obtain op fs r where "exec op fs st = (r, st')"
    by (rule store_stepE)
  moreover have "alive st" and "db_ok (tables st)" using reach_step.IH by simp_all
  ultimately show ?case using exec_step db_ok_op_effect by fastforce
qed

lemma reachable_capped:
  assumes "0 < D"
  shows "reachable (within D R S) st \<Longrightarrow> capped D R S (tables st)"
proof (induction rule: reachable.induct)
  case (reach_init ttl lease_secs)
  then show ?case by (simp add: capped_def empty_db_def queue_def)
next
  case (reach_step st st')
  have ok: "alive st" "db_ok (tables st)" using reachable_ok [OF reach_step.hyps(1)] by simp_all
  from reach_step.hyps(2) obtain op fs r where "within D R S op" "exec op fs st = (r, st')"
    by (rule store_stepE)
  then show ?case
    using exec_step [OF ok(1)] capped_op_effect [OF ok(2) reach_step.IH _ assms] reach_step.IH
    by fastforce
qed

text \<open>
  The invariant of the store. In every state reached from an empty store by any sequence
  of operations with any failures, the routes table holds exactly the routes with a queued
  message, once each; sequence numbers strictly increase along the messages table and stay
  below the counter; slot keys are unique, and a slot that is consumed or revoked carries no
  bundle and no signature.
\<close>

lemma store_invariant:
  assumes "reachable allowed st"
  shows "set (map rt_key (routes (tables st))) = set (map msg_route (messages (tables st))) \<and>
    distinct (map rt_key (routes (tables st))) \<and>
    sorted_wrt (<) (map seq (messages (tables st))) \<and>
    distinct (map slot_key (invites (tables st))) \<and>
    list_all (\<lambda>i. inv_state i = INVITE_ACTIVE \<or>
      inv_state i \<in> {INVITE_CONSUMED, INVITE_REVOKED} \<and> inv_bundle i = [] \<and> inv_sig i = [])
      (invites (tables st))"
  using reachable_ok [OF assms]
  by (auto simp: db_ok_def mail_ok_def slots_ok_def invite_ok_def list_all_iff)

text \<open>A store after one push, for the witnesses.\<close>

definition sample_store :: Store where
  "sample_store = \<lparr>conn = Mutex False empty_db, st_retention_ttl_secs = 60, st_pull_lease_secs = 5\<rparr>"

definition sample_push :: store_op where
  "sample_push = OpEnqueue ''r'' ''l'' ''m'' [1] 100 1 1 None"

lemma sample_push_exec:
  "exec sample_push [] sample_store =
    (Inr (OutEnqueue Accepted),
     sample_store\<lparr>conn := Mutex False (accepted ''r'' ''l'' ''m'' [1] 100 empty_db)\<rparr>)"
  by (simp add: sample_push_def sample_store_def exec_no_fault run_op_def op_effect_def out_as_def
      enqueue_run slot_refusal_def find_invite_def capacity_refusal_def empty_db_def has_route_def)

lemma sample_reachable:
  "reachable (within 1 1 1) (snd (exec sample_push [] sample_store))"
proof (rule reach_step)
  show "reachable (within 1 1 1) sample_store"
    unfolding sample_store_def by (rule reach_init)
  show "store_step (within 1 1 1) sample_store (snd (exec sample_push [] sample_store))"
    by (rule store_stepI [of _ sample_push "[]", OF _ prod.collapse [symmetric]])
       (simp add: sample_push_def within_def)
qed

end
