(* ===== verification/Ledger.thy ===== *)
theory Ledger imports Prelude "HOL-Library.Multiset" begin

text \<open>
  Accounting over runs. A ledger is a state machine whose states hold a multiset of things;
  each step's inflow and outflow are read off the step, and balance with what is held before
  and after. The locale gives the account of a whole run: what was held and what came is what
  is held at the end and what left. The message queues and the one-shot credentials of the
  invite slots are instances.
\<close>

fun run_steps :: "('op \<Rightarrow> 's \<Rightarrow> 's) \<Rightarrow> 'op list \<Rightarrow> 's \<Rightarrow> 's" where
  "run_steps step [] s = s"
| "run_steps step (op # ops) s = run_steps step ops (step op s)"

fun tally :: "('op \<Rightarrow> 's \<Rightarrow> 's) \<Rightarrow> ('op \<Rightarrow> 's \<Rightarrow> 'x multiset) \<Rightarrow> 'op list \<Rightarrow> 's \<Rightarrow> 'x multiset" where
  "tally step f [] s = {#}"
| "tally step f (op # ops) s = f op s + tally step f ops (step op s)"

lemma tally_add:
  "tally step (\<lambda>op s. f op s + g op s) ops s = tally step f ops s + tally step g ops s"
  by (induction ops arbitrary: s) (simp_all add: ac_simps)

lemma tally_append:
  "tally step f (ops @ ops') s = tally step f ops s + tally step f ops' (run_steps step ops s)"
  by (induction ops arbitrary: s) (simp_all add: ac_simps)

lemma run_steps_append:
  "run_steps step (ops @ ops') s = run_steps step ops' (run_steps step ops s)"
  by (induction ops arbitrary: s) simp_all

locale ledger =
  fixes wf :: "'s \<Rightarrow> bool"
    and step :: "'op \<Rightarrow> 's \<Rightarrow> 's"
    and held :: "'s \<Rightarrow> 'x multiset"
    and came gone :: "'op \<Rightarrow> 's \<Rightarrow> 'x multiset"
  assumes wf_step: "wf s \<Longrightarrow> wf (step op s)"
    and balance: "wf s \<Longrightarrow> held (step op s) + gone op s = held s + came op s"
begin

lemma wf_run: "wf s \<Longrightarrow> wf (run_steps step ops s)"
  by (induction ops arbitrary: s) (simp_all add: wf_step)

lemma conserved:
  "wf s \<Longrightarrow> held (run_steps step ops s) + tally step gone ops s = held s + tally step came ops s"
proof (induction ops arbitrary: s)
  case (Cons op ops)
  have "held (run_steps step (op # ops) s) + tally step gone (op # ops) s =
      (held (run_steps step ops (step op s)) + tally step gone ops (step op s)) + gone op s"
    by (simp add: ac_simps)
  also have "\<dots> = (held (step op s) + gone op s) + tally step came ops (step op s)"
    using Cons.IH [OF wf_step [OF Cons.prems]] by (simp add: ac_simps)
  also have "\<dots> = (held s + came op s) + tally step came ops (step op s)"
    by (simp only: balance [OF Cons.prems])
  also have "\<dots> = held s + tally step came (op # ops) s"
    by (simp add: ac_simps)
  finally show ?case .
qed simp

text \<open>Any part of the outflow is covered by what was held and what came.\<close>

lemma part_covered:
  assumes "wf s" and "gone = (\<lambda>op s. f op s + g op s)"
  shows "tally step f ops s \<subseteq># held s + tally step came ops s"
proof -
  have "held s + tally step came ops s =
      tally step f ops s + (held (run_steps step ops s) + tally step g ops s)"
    using conserved [OF assms(1), of ops] by (simp add: assms(2) tally_add ac_simps)
  then show ?thesis by (metis mset_subset_eq_add_left)
qed

end

text \<open>The ordered account: a queue whose steps append at the back and remove at the front, as
  long as \<open>calm\<close> steps are made.\<close>

fun stream :: "('op \<Rightarrow> 's \<Rightarrow> 's) \<Rightarrow> ('op \<Rightarrow> 's \<Rightarrow> 'x list) \<Rightarrow> 'op list \<Rightarrow> 's \<Rightarrow> 'x list" where
  "stream step f [] s = []"
| "stream step f (op # ops) s = f op s @ stream step f ops (step op s)"

fun calm_run :: "('op \<Rightarrow> 's \<Rightarrow> 's) \<Rightarrow> ('op \<Rightarrow> 's \<Rightarrow> bool) \<Rightarrow> 'op list \<Rightarrow> 's \<Rightarrow> bool" where
  "calm_run step calm [] s = True"
| "calm_run step calm (op # ops) s = (calm op s \<and> calm_run step calm ops (step op s))"

locale fifo_queue =
  fixes wf :: "'s \<Rightarrow> bool"
    and step :: "'op \<Rightarrow> 's \<Rightarrow> 's"
    and calm :: "'op \<Rightarrow> 's \<Rightarrow> bool"
    and contents :: "'s \<Rightarrow> 'x list"
    and pushed popped :: "'op \<Rightarrow> 's \<Rightarrow> 'x list"
  assumes calm_wf: "wf s \<Longrightarrow> calm op s \<Longrightarrow> wf (step op s)"
    and order: "wf s \<Longrightarrow> calm op s \<Longrightarrow> contents s @ pushed op s = popped op s @ contents (step op s)"
begin

lemma in_order:
  "wf s \<Longrightarrow> calm_run step calm ops s \<Longrightarrow>
   contents s @ stream step pushed ops s = stream step popped ops s @ contents (run_steps step ops s)"
proof (induction ops arbitrary: s)
  case (Cons op ops)
  then have calm: "calm op s" "calm_run step calm ops (step op s)" by simp_all
  have "contents s @ stream step pushed (op # ops) s =
      popped op s @ (contents (step op s) @ stream step pushed ops (step op s))"
    using order [OF Cons.prems(1) calm(1)] by (metis append.assoc stream.simps(2))
  also have "\<dots> = stream step popped (op # ops) s @ contents (run_steps step (op # ops) s)"
    using Cons.IH [OF calm_wf [OF Cons.prems(1) calm(1)] calm(2)] by simp
  finally show ?case .
qed simp

end

text \<open>An account with waste: steps may also destroy what is held, so what left is only bounded. A
  ledger is one without.\<close>

locale spending =
  fixes wf :: "'s \<Rightarrow> bool"
    and step :: "'op \<Rightarrow> 's \<Rightarrow> 's"
    and calm :: "'op \<Rightarrow> 's \<Rightarrow> bool"
    and held :: "'s \<Rightarrow> 'x multiset"
    and came gone :: "'op \<Rightarrow> 's \<Rightarrow> 'x multiset"
  assumes calm_wf: "wf s \<Longrightarrow> calm op s \<Longrightarrow> wf (step op s)"
    and covered: "wf s \<Longrightarrow> calm op s \<Longrightarrow> held (step op s) + gone op s \<subseteq># held s + came op s"
begin

lemma spent:
  "wf s \<Longrightarrow> calm_run step calm ops s \<Longrightarrow>
   held (run_steps step ops s) + tally step gone ops s \<subseteq># held s + tally step came ops s"
proof (induction ops arbitrary: s)
  case (Cons op ops)
  then have calm: "calm op s" "calm_run step calm ops (step op s)" by simp_all
  let ?last = "held (run_steps step ops (step op s))"
  have "?last + tally step gone ops (step op s) + gone op s \<subseteq>#
      held (step op s) + tally step came ops (step op s) + gone op s"
    using Cons.IH [OF calm_wf [OF Cons.prems(1) calm(1)] calm(2)] by simp
  also have "\<dots> \<subseteq># held s + came op s + tally step came ops (step op s)"
    using covered [OF Cons.prems(1) calm(1)] by (simp add: ac_simps)
  finally show ?case by (simp add: ac_simps)
qed simp

end

sublocale ledger \<subseteq> spending wf step "\<lambda>_ _. True" held came gone
  by unfold_locales (simp_all add: wf_step balance)

end
