(* ===== verification/Conservation.thy ===== *)
theory Conservation imports Store_Inv Ledger begin

text \<open>
  No message is lost, duplicated or misrouted. Over any run of the store, with any failures,
  the copies accepted for a route are exactly the copies that a legacy pull delivered, that an
  acknowledgement removed, that the retention removed, and that are still queued.
\<close>

type_synonym step = "store_op \<times> faults"

definition perform :: "step \<Rightarrow> Store \<Rightarrow> Store" where
  "perform s st = snd (exec (fst s) (snd s) st)"

definition outcome :: "step \<Rightarrow> Store \<Rightarrow> string + store_out" where
  "outcome s st = fst (exec (fst s) (snd s) st)"

definition stored :: "msg_row \<Rightarrow> StoredMsg" where
  "stored m = (msg_id m, body m)"

lemma stored_eta: "(\<lambda>m. (msg_id m, body m)) = stored"
  by (simp add: stored_def fun_eq_iff)

definition held :: "string \<Rightarrow> db \<Rightarrow> StoredMsg multiset" where
  "held k d = mset (map stored (queue d k))"

subsection \<open>What a step moves, read off its request and its answer\<close>

fun accepted_in :: "string \<Rightarrow> store_op \<Rightarrow> string + store_out \<Rightarrow> StoredMsg multiset" where
  "accepted_in k (OpEnqueue j lid mid b now max_depth max_routes ticket) (Inr (OutEnqueue Accepted)) =
     (if j = k then {#(mid, b)#} else {#})"
| "accepted_in k _ _ = {#}"

fun delivered_in :: "string \<Rightarrow> store_op \<Rightarrow> string + store_out \<Rightarrow> StoredMsg multiset" where
  "delivered_in k (OpPull j mx max_bytes now Legacy) (Inr (OutPull p)) =
     (if j = k then mset (pull_items p) else {#})"
| "delivered_in k _ _ = {#}"

text \<open>The time at which the step swept, if it did and committed.\<close>

fun sweep_time :: "store_op \<Rightarrow> string + store_out \<Rightarrow> int option" where
  "sweep_time (OpSweep now) (Inr out) = Some now"
| "sweep_time (OpStatus k now) (Inr out) = Some now"
| "sweep_time (OpCreate k lid cap_h revoke_h bun sg until now slot_cap) (Inr (OutCreate Created)) = Some now"
| "sweep_time (OpPull k mx max_bytes now mode) (Inr out) = Some now"
| "sweep_time (OpAck k ids now) (Inr out) = Some now"
| "sweep_time _ _ = None"

definition expired_in :: "int \<Rightarrow> string \<Rightarrow> store_op \<Rightarrow> string + store_out \<Rightarrow> db \<Rightarrow> StoredMsg multiset" where
  "expired_in ttl k op r d =
     (case sweep_time op r of
        None \<Rightarrow> {#} | Some now \<Rightarrow> mset (map stored (filter (expired ttl now) (queue d k))))"

fun acked_in :: "int \<Rightarrow> string \<Rightarrow> store_op \<Rightarrow> string + store_out \<Rightarrow> db \<Rightarrow> StoredMsg multiset" where
  "acked_in ttl k (OpAck j ids now) (Inr out) d =
     (if j = k
      then mset (map stored (filter (\<lambda>m. \<not> expired ttl now m \<and> acked_by k ids m) (queue d k)))
      else {#})"
| "acked_in ttl k _ _ d = {#}"

subsection \<open>Balance of one operation\<close>

lemma mset_filter_split: "mset (map f (filter q xs)) + mset (map f (filter (\<lambda>x. \<not> q x) xs)) = mset (map f xs)"
  by (induction xs) simp_all

lemma pull_loop_prefix: "\<exists>n. pull_loop max_bytes t acc ms = acc @ take n ms"
proof (induction max_bytes t acc ms rule: pull_loop.induct)
  case (2 max_bytes t acc m ms)
  show ?case
  proof (cases "acc \<noteq> [] \<and> max_bytes < usize_sat_add t (length (body m))")
    case True
    then have "pull_loop max_bytes t acc (m # ms) = acc @ take 0 (m # ms)" by simp
    then show ?thesis by blast
  next
    case False
    then obtain n where "pull_loop max_bytes t acc (m # ms) = acc @ take (Suc n) (m # ms)"
      using 2 by auto
    then show ?thesis by blast
  qed
qed simp

lemma held_split: "mail_ok d \<Longrightarrow> held k (keep q d) + mset (map stored (filter (\<lambda>m. \<not> q m) (queue d k))) = held k d"
  unfolding held_def queue_keep by (rule mset_filter_split)

lemma held_simps [simp]:
  "held k (touch j now d) = held k d"
  "held k (map_invites p f d) = held k d"
  "held k (add_invite i d) = held k d"
  "held k (drop_expired_invites now d) = held k d"
  by (simp_all add: held_def add_invite_def queue_def map_invites_def drop_expired_invites_def)

lemma held_swept:
  "mail_ok d \<Longrightarrow>
   held k (swept ttl now d) + mset (map stored (filter (expired ttl now) (queue d k))) = held k d"
  using held_split [of d k "\<lambda>m. \<not> expired ttl now m"] by (simp add: swept_keep)

lemma held_lease: "held k (lease_seqs seqs t d) = held k d"
proof -
  have "map stored (queue (lease_seqs seqs t d) k) = map stored (queue d k)"
    by (simp add: queue_lease_seqs stored_def)
  then show ?thesis by (simp only: held_def)
qed

lemma held_accepted:
  "held j (accepted k lid mid b now d) = (if j = k then add_mset (mid, b) (held k d) else held j d)"
  by (simp add: held_def queue_accepted stored_def new_message_def)

text \<open>A pull takes every message at most once, from its own route.\<close>

lemma pulled_distinct:
  assumes "mail_ok d"
  shows "distinct (pulled now k mx max_bytes d)"
proof -
  have "distinct (sql_limit (usize_as_i64 mx) (sort_key seq (filter (available now) (queue d k))))"
    using queue_distinct(1) [OF assms] by (simp add: sql_limit_def)
  then show ?thesis
    unfolding pulled_def using pull_loop_prefix [of max_bytes 0 "[]"] by (metis append_Nil distinct_take)
qed

lemma held_legacy:
  assumes "mail_ok d"
  shows "held j (legacy_delivered k now (pulled now k mx max_bytes d) d) +
    (if j = k then mset (map stored (pulled now k mx max_bytes d)) else {#}) = held j d"
proof -
  let ?ms = "pulled now k mx max_bytes d"
  have sub: "set ?ms \<subseteq> set (queue d k)" using pulled_subset by blast
  have dist: "distinct (queue d k)"
    using assms
    by (rule queue_distinct)
  have "set (filter (\<lambda>m. m \<in> set ?ms) (queue d k)) = set ?ms"
    using sub by auto
  then have "mset (filter (\<lambda>m. m \<in> set ?ms) (queue d k)) = mset ?ms"
    using set_eq_iff_mset_eq_distinct [OF distinct_filter [OF dist] pulled_distinct [OF assms]] by blast
  then have hit: "mset (map stored (filter (\<lambda>m. m \<in> set ?ms) (queue d k))) = mset (map stored ?ms)"
    by (metis mset_map)
  have "filter (\<lambda>m. \<not> m \<notin> set ?ms) (queue d j) =
      (if j = k then filter (\<lambda>m. m \<in> set ?ms) (queue d k) else [])"
    using sub by (auto simp: queue_def filter_empty_conv)
  then have "held j (keep (\<lambda>m. m \<notin> set ?ms) d) + (if j = k then mset (map stored ?ms) else {#}) = held j d"
    using held_split [OF assms, of j "\<lambda>m. m \<notin> set ?ms"] hit by (cases "j = k") simp_all
  moreover have "held j (legacy_delivered k now ?ms d) = held j (keep (\<lambda>m. m \<notin> set ?ms) d)"
    unfolding legacy_delivered_keep [OF assms sub] by (simp add: Let_def)
  ultimately show ?thesis by (simp only:)
qed

lemma held_acknowledged:
  assumes "mail_ok d"
  shows "held j (acknowledged k ids d) +
    (if j = k then mset (map stored (filter (acked_by k ids) (queue d k))) else {#}) = held j d"
proof -
  have "filter (\<lambda>m. \<not> \<not> acked_by k ids m) (queue d j) =
      (if j = k then filter (acked_by k ids) (queue d k) else [])"
    by (auto simp: queue_def acked_by_def filter_empty_conv)
  then show ?thesis
    using held_split [OF assms, of j "\<lambda>m. \<not> acked_by k ids m"]
    by (cases "j = k") (simp_all add: acknowledged_keep [OF assms])
qed

lemma balance_pull:
  assumes "mail_ok d" and "run_op ttl lease_secs op d = (r, d')" and "op = OpPull j mx max_bytes now mode"
  shows "held k d' + (delivered_in k op r + (acked_in ttl k op r d + expired_in ttl k op r d)) =
    held k d + accepted_in k op r"
proof -
  note sw = held_swept [OF assms(1), of k ttl]
  note mails = mail_ok_swept [OF assms(1), of ttl]
  show ?thesis
  proof (cases mode)
    case Legacy
    let ?ms = "pulled now j mx max_bytes (swept ttl now d)"
    have "held k (legacy_delivered j now ?ms (swept ttl now d)) +
        ((if k = j then mset (map stored ?ms) else {#}) +
         mset (map stored (filter (expired ttl now) (queue d k)))) = held k d"
      unfolding sw [of now, symmetric]
      using held_legacy [OF mails [of now], where j = k and k = j]
      by (metis (no_types, lifting) add.assoc)
    then show ?thesis
      using assms(2) assms(3) Legacy
      by (auto simp: run_op_def out_as_def pull_legacy_run Let_def expired_in_def stored_eta)
  next
    case Lease
    then show ?thesis
      using assms(2) assms(3) sw [of now]
      by (auto simp: run_op_def out_as_def pull_lease_run Let_def expired_in_def
          lease_delivered_def held_lease)
  qed
qed

lemma balance_ack:
  assumes "mail_ok d" and "run_op ttl lease_secs op d = (r, d')" and "op = OpAck j ids now"
  shows "held k d' + (delivered_in k op r + (acked_in ttl k op r d + expired_in ttl k op r d)) =
    held k d + accepted_in k op r"
proof -
  note sw = held_swept [OF assms(1), of k ttl]
  note mails = mail_ok_swept [OF assms(1), of ttl]
  have "queue (swept ttl now d) j = filter (\<lambda>m. \<not> expired ttl now m) (queue d j)"
    by (simp add: swept_keep [OF assms(1)] queue_def drop_expired_invites_def conj_commute)
  then have "filter (acked_by j ids) (queue (swept ttl now d) j) =
      filter (\<lambda>m. \<not> expired ttl now m \<and> acked_by j ids m) (queue d j)"
    by simp
  then have "held k (acknowledged j ids (swept ttl now d)) +
      ((if k = j then mset (map stored
          (filter (\<lambda>m. \<not> expired ttl now m \<and> acked_by j ids m) (queue d j))) else {#}) +
       mset (map stored (filter (expired ttl now) (queue d k)))) = held k d"
    unfolding sw [of now, symmetric]
    using held_acknowledged [OF mails [of now], where j = k and k = j]
    by (metis (no_types, lifting) add.assoc)
  then show ?thesis
    using assms(2) assms(3)
    by (auto simp: run_op_def out_as_def ack_run Let_def expired_in_def)
qed

lemma balance_op:
  assumes "db_ok d" and "run_op ttl lease_secs op d = (r, d')"
  shows "held k d' + (delivered_in k op r + (acked_in ttl k op r d + expired_in ttl k op r d)) =
    held k d + accepted_in k op r"
proof -
  have mail: "mail_ok d" and dist: "distinct (map slot_key (invites d))"
    using assms(1) by (simp_all add: db_ok_def slots_ok_def)
  note sw = held_swept [OF mail, of k ttl]
  show ?thesis
  proof (cases op)
    case (OpSweep now)
    then show ?thesis
      using assms(2) sw [of now]
      by (auto simp: run_op_def out_as_def retention_sweep_run expired_in_def)
  next
    case (OpStatus j now)
    then show ?thesis
      using assms(2) sw [of now]
      by (auto simp: run_op_def out_as_def route_status_run expired_in_def)
  next
    case (OpCreate j lid cap_h revoke_h bun sg until now slot_cap)
    then show ?thesis
      using assms(2) sw [of now]
      by (auto simp: run_op_def out_as_def invite_create_run Let_def expired_in_def
          split: if_splits)
  next
    case (OpRedeem j now th verify)
    then show ?thesis
      using assms(2)
      by (auto simp: run_op_def out_as_def invite_redeem_run [OF dist] expired_in_def
          consume_slot_def split: option.splits)
  next
    case (OpRevoke j verify)
    then show ?thesis
      using assms(2)
      by (auto simp: run_op_def out_as_def invite_revoke_run expired_in_def revoke_slot_def
          split: option.splits)
  next
    case (OpEnqueue j lid mid b now max_depth max_routes ticket)
    have no: "accepted_in k op (Inr (OutEnqueue c)) = {#}" if "capacity_refusal j max_depth max_routes d = Some c" for c
      using that OpEnqueue by (auto simp: capacity_refusal_def split: if_splits)
    show ?thesis
      using assms(2) OpEnqueue no
      by (auto simp: run_op_def out_as_def enqueue_run expired_in_def held_accepted
          split: option.splits if_splits)
  next
    case (OpPull j mx max_bytes now mode)
    then show ?thesis using balance_pull [OF mail assms(2)] by blast
  next
    case (OpAck j ids now)
    then show ?thesis using balance_ack [OF mail assms(2)] by blast
  qed
qed

subsection \<open>Runs\<close>

definition store_wf :: "Store \<Rightarrow> bool" where
  "store_wf st \<longleftrightarrow> alive st \<and> db_ok (tables st)"

definition mailbox :: "string \<Rightarrow> Store \<Rightarrow> StoredMsg multiset" where
  "mailbox k st = held k (tables st)"

definition accepted_mail :: "string \<Rightarrow> step \<Rightarrow> Store \<Rightarrow> StoredMsg multiset" where
  "accepted_mail k s st = accepted_in k (fst s) (outcome s st)"

definition delivered_mail :: "string \<Rightarrow> step \<Rightarrow> Store \<Rightarrow> StoredMsg multiset" where
  "delivered_mail k s st = delivered_in k (fst s) (outcome s st)"

definition acked_mail :: "string \<Rightarrow> step \<Rightarrow> Store \<Rightarrow> StoredMsg multiset" where
  "acked_mail k s st = acked_in (st_retention_ttl_secs st) k (fst s) (outcome s st) (tables st)"

definition expired_mail :: "string \<Rightarrow> step \<Rightarrow> Store \<Rightarrow> StoredMsg multiset" where
  "expired_mail k s st = expired_in (st_retention_ttl_secs st) k (fst s) (outcome s st) (tables st)"

lemma no_moves_on_error [simp]:
  "accepted_in k op (Inl e) = {#}" "delivered_in k op (Inl e) = {#}"
  "acked_in ttl k op (Inl e) d = {#}" "expired_in ttl k op (Inl e) d = {#}" "sweep_time op (Inl e) = None"
  by (cases op; simp add: expired_in_def)+

lemma perform_cases:
  assumes "alive st"
  obtains e where "outcome s st = Inl e" "perform s st = st"
  | d' where "run_op (st_retention_ttl_secs st) (st_pull_lease_secs st) (fst s) (tables st) =
      (outcome s st, d')" "perform s st = st\<lparr>conn := Mutex False d'\<rparr>"
proof -
  let ?ran = "run_op (st_retention_ttl_secs st) (st_pull_lease_secs st) (fst s) (tables st)"
  consider "exec (fst s) (snd s) st = (fst ?ran, st\<lparr>conn := Mutex False (snd ?ran)\<rparr>)"
    | e where "exec (fst s) (snd s) st = (Inl e, st)"
    using exec_cases [OF assms, of "fst s" "snd s"] unfolding op_effect_def by blast
  then show thesis
  proof cases
    case 1
    then show thesis by (intro that(2) [of "snd ?ran"]) (simp_all add: outcome_def perform_def)
  next
    case (2 e)
    then show thesis by (intro that(1) [of e]) (simp_all add: outcome_def perform_def)
  qed
qed

lemma perform_wf: "store_wf st \<Longrightarrow> store_wf (perform s st)"
proof -
  assume wf: "store_wf st"
  then have "alive st" by (simp add: store_wf_def)
  then show "store_wf (perform s st)"
  proof (cases rule: perform_cases [of st s])
    case (1 e)
    then show ?thesis using wf by simp
  next
    case (2 d')
    then have "d' = op_effect (st_retention_ttl_secs st) (st_pull_lease_secs st) (fst s) (tables st)"
      by (simp add: op_effect_def)
    then show ?thesis using 2 wf db_ok_op_effect by (simp add: store_wf_def)
  qed
qed

interpretation mail: ledger store_wf perform "mailbox k" "accepted_mail k"
  "\<lambda>s st. delivered_mail k s st + (acked_mail k s st + expired_mail k s st)" for k
proof unfold_locales
  fix s st
  assume wf: "store_wf st"
  then show "store_wf (perform s st)" by (rule perform_wf)
  from wf have "alive st" "db_ok (tables st)" by (simp_all add: store_wf_def)
  then show "mailbox k (perform s st) + (delivered_mail k s st + (acked_mail k s st + expired_mail k s st)) =
    mailbox k st + accepted_mail k s st"
  proof (cases rule: perform_cases [of st s])
    case (1 e)
    then show ?thesis
      by (simp add: mailbox_def delivered_mail_def acked_mail_def expired_mail_def accepted_mail_def)
  next
    case (2 d')
    then show ?thesis
      using balance_op [OF \<open>db_ok (tables st)\<close> 2(1), of k]
      by (simp add: mailbox_def delivered_mail_def acked_mail_def expired_mail_def accepted_mail_def)
  qed
qed

text \<open>
  C3: Messages are conserved. Over any run of store operations with any failures, counted
  with multiplicity, the copies queued for a route at the start and the copies accepted for
  it are exactly those delivered by legacy pulls, those removed by acknowledgements, those
  removed by the retention and those still queued: nothing is lost, duplicated or delivered
  on another route.
\<close>

theorem mail_conserved:
  assumes "reachable allowed st"
  shows "mailbox k (run_steps perform ss st) + tally perform (delivered_mail k) ss st
      + tally perform (acked_mail k) ss st + tally perform (expired_mail k) ss st
    = mailbox k st + tally perform (accepted_mail k) ss st"
proof -
  have "store_wf st" using reachable_ok [OF assms] by (simp add: store_wf_def)
  then show ?thesis using mail.conserved [of st k ss] by (simp add: tally_add ac_simps)
qed

text \<open>
  What a legacy reader receives on a route was accepted there: over any run from a
  reachable store the delivered copies, with their identifiers and bodies, are at most the
  copies queued at the start and those accepted during the run.
\<close>

lemma delivered_was_accepted:
  assumes "reachable allowed st"
  shows "tally perform (delivered_mail k) ss st
    \<subseteq># mailbox k st + tally perform (accepted_mail k) ss st"
proof -
  have "store_wf st" using reachable_ok [OF assms] by (simp add: store_wf_def)
  then show ?thesis by (rule mail.part_covered) (rule refl)
qed

text \<open>A run of two steps: a push, and the legacy pull that delivers it.\<close>

definition sample_run :: "step list" where
  "sample_run = [(sample_push, []), (OpPull ''r'' 8 100 101 Legacy, [])]"

lemma sample_run_delivers:
  "tally perform (accepted_mail ''r'') sample_run sample_store = {#(''m'', [1])#}"
  "tally perform (delivered_mail ''r'') sample_run sample_store = {#(''m'', [1])#}"
proof -
  let ?st = "snd (exec sample_push [] sample_store)" and ?op = "OpPull ''r'' 8 100 101 Legacy"
  define m where "m = new_message empty_db ''m'' ''r'' [1] 100"
  have st: "alive ?st" "tables ?st = accepted ''r'' ''l'' ''m'' [1] 100 empty_db"
    "st_retention_ttl_secs ?st = 60"
    unfolding sample_push_exec by (simp_all add: sample_store_def)
  have "messages (tables ?st) = [m]"
    by (simp add: st accepted_def append_message_def new_message_def m_def) (simp add: empty_db_def)
  then have "queue (swept 60 101 (tables ?st)) ''r'' = [m]"
    by (simp add: swept_def queue_def drop_expired_def drop_expired_invites_def expired_def m_def
        new_message_def)
  then have pulled: "pulled 101 ''r'' 8 100 (swept 60 101 (tables ?st)) = [m]"
    by (simp add: pulled_def available_def m_def new_message_def usize_as_i64_def sql_limit_def)
  have pull: "\<exists>p. fst (exec ?op [] ?st) = Inr (OutPull p) \<and> pull_items p = [(''m'', [1])]"
    unfolding exec_no_fault [OF st(1)]
    by (simp add: run_op_def out_as_def pull_legacy_run Let_def st(3) pulled)
       (simp add: m_def new_message_def)
  have push: "outcome (sample_push, []) sample_store = Inr (OutEnqueue Accepted)"
    "perform (sample_push, []) sample_store = ?st"
    by (simp_all add: outcome_def perform_def sample_push_exec)
  have at: "accepted_in ''r'' sample_push (Inr (OutEnqueue Accepted)) = {#(''m'', [1])#}"
    "delivered_in ''r'' sample_push r = {#}" for r
    by (simp_all add: sample_push_def)
  note step = sample_run_def push at outcome_def [of "(OpPull a b c d e, f)" for a b c d e f]
  show "tally perform (accepted_mail ''r'') sample_run sample_store = {#(''m'', [1])#}"
    using pull by (auto simp: accepted_mail_def step)
  show "tally perform (delivered_mail ''r'') sample_run sample_store = {#(''m'', [1])#}"
    using pull by (auto simp: delivered_mail_def step)
qed

theorem mail_conserved_witness:
  "mailbox ''r'' (run_steps perform sample_run sample_store) + {#(''m'', [1])#}
     + tally perform (acked_mail ''r'') sample_run sample_store
     + tally perform (expired_mail ''r'') sample_run sample_store
   = mailbox ''r'' sample_store + {#(''m'', [1])#}"
  using mail_conserved [OF reach_init [of "\<lambda>_. True" 60 5, folded sample_store_def], of "''r''" sample_run]
  by (simp only: sample_run_delivers)

end
