(* ===== verification/Store_Open.thy ===== *)
theory Store_Open imports Conservation Rust_Text begin

text \<open>
  \<open>Store::open\<close> of \<open>src/store.rs\<close>: validation of the two settings, the connection, the pragmas,
  the idempotent creation of the tables, and the schema marker with its forward migration and
  its downgrade guard. The statements run outside a transaction, each committing by itself,
  so a failure leaves the effects of the statements before it.

  The file system is a parameter: \<open>opened\<close> is the file behind the path if
  \<open>Connection::open\<close> succeeds. A file is the set of tables that exist and their rows.
\<close>

record store_file =
  present :: "string list"
  rows :: db

definition SCHEMA_VERSION :: int where "SCHEMA_VERSION = 2"

definition empty_file :: store_file where
  "empty_file = \<lparr>present = [], rows = empty_db\<rparr>"

subsection \<open>Statements that commit by themselves\<close>

type_synonym 'a auto = "store_file \<Rightarrow> faults \<Rightarrow> (string + 'a) \<times> store_file \<times> faults"

definition auto_return :: "'a \<Rightarrow> 'a auto" where
  "auto_return x f fs = (Inr x, f, fs)"

definition auto_fail :: "string \<Rightarrow> 'a auto" where
  "auto_fail e f fs = (Inl e, f, fs)"

definition auto_bind :: "'a auto \<Rightarrow> ('a \<Rightarrow> 'b auto) \<Rightarrow> 'b auto" where
  "auto_bind m g f fs =
     (case m f fs of (Inl e, f', fs') \<Rightarrow> (Inl e, f', fs') | (Inr x, f', fs') \<Rightarrow> g x f' fs')"

definition auto_stmt :: "(store_file \<Rightarrow> 'a \<times> store_file) \<Rightarrow> 'a auto" where
  "auto_stmt g f fs =
     (case fs of
        Some e # fs' \<Rightarrow> (Inl (map_err e), f, fs')
      | _ \<Rightarrow> (Inr (fst (g f)), snd (g f), tl fs))"

lemma auto_run:
  "auto_return x f fs = (Inr x, f, fs)" "auto_fail e f fs = (Inl e, f, fs)"
  "auto_stmt g f [] = (Inr (fst (g f)), snd (g f), [])"
  "m f fs = (Inr x, f', fs') \<Longrightarrow> auto_bind m h f fs = h x f' fs'"
  "m f fs = (Inl e, f', fs') \<Longrightarrow> auto_bind m h f fs = (Inl e, f', fs')"
  by (simp_all add: auto_return_def auto_fail_def auto_stmt_def auto_bind_def)

subsection \<open>The schema\<close>

text \<open>A pragma changes settings of the connection, no table.\<close>

definition pragma_update :: "unit auto" where
  "pragma_update = auto_stmt (\<lambda>f. ((), f))"

definition create_table_if_not_exists :: "string \<Rightarrow> unit auto" where
  "create_table_if_not_exists t = auto_stmt (\<lambda>f.
     ((), if t \<in> set (present f) then f else f\<lparr>present := present f @ [t]\<rparr>))"

definition create_index_if_not_exists :: "unit auto" where
  "create_index_if_not_exists = auto_stmt (\<lambda>f. ((), f))"

definition create_schema :: "unit auto" where
  "create_schema =
     auto_bind (create_table_if_not_exists ''meta'') (\<lambda>_.
     auto_bind (create_table_if_not_exists ''routes'') (\<lambda>_.
     auto_bind (create_table_if_not_exists ''messages'') (\<lambda>_.
     auto_bind create_index_if_not_exists (\<lambda>_.
     auto_bind create_index_if_not_exists (\<lambda>_.
     auto_bind (create_table_if_not_exists ''invites'') (\<lambda>_.
     create_index_if_not_exists))))))"

text \<open>\<open>SELECT value FROM meta WHERE key='schema_version'\<close> and the upsert of the marker.\<close>

definition select_schema_version :: "string option auto" where
  "select_schema_version = auto_stmt (\<lambda>f. (meta (rows f) ''schema_version'', f))"

definition int_to_string :: "int \<Rightarrow> string" where
  "int_to_string n = (if n < 0 then CHR ''-'' # nat_to_string (nat (- n)) else nat_to_string (nat n))"

definition write_schema_version :: "int \<Rightarrow> unit auto" where
  "write_schema_version version = auto_stmt (\<lambda>f.
     ((), f\<lparr>rows := (rows f)\<lparr>meta := (meta (rows f))(''schema_version'' \<mapsto> int_to_string version)\<rparr>\<rparr>))"

subsection \<open>Opening\<close>

definition open_connection :: "unit auto" where
  "open_connection =
     auto_bind pragma_update (\<lambda>_.
     auto_bind pragma_update (\<lambda>_.
     auto_bind pragma_update (\<lambda>_.
     auto_bind create_schema (\<lambda>_.
     auto_bind select_schema_version (\<lambda>stored.
     auto_bind
       (case stored of
          None \<Rightarrow> auto_bind (write_schema_version SCHEMA_VERSION) (\<lambda>_. auto_return SCHEMA_VERSION)
        | Some raw \<Rightarrow>
            (case parse_i64 raw of
               None \<Rightarrow> auto_fail ''ERR_STORE_VERSION'' | Some v \<Rightarrow> auto_return v)) (\<lambda>stored.
     if SCHEMA_VERSION < stored then auto_fail ''ERR_STORE_VERSION''
     else if stored < SCHEMA_VERSION then write_schema_version SCHEMA_VERSION
     else auto_return ()))))))"

definition Store_open ::
    "StoreConfig \<Rightarrow> store_file option \<Rightarrow> faults \<Rightarrow> (string + Store) \<times> store_file option" where
  "Store_open cfg opened fs =
     (case retention_ttl_or_error (cfg_retention_ttl_secs cfg) of
        Inl e \<Rightarrow> (Inl e, opened)
      | Inr ttl \<Rightarrow>
          (case pull_lease_or_error (cfg_pull_lease_secs cfg) of
             Inl e \<Rightarrow> (Inl e, opened)
           | Inr lease_secs \<Rightarrow>
               (case opened of
                  None \<Rightarrow> (Inl ''ERR_INVALID_CONFIG_STORE_PATH'', opened)
                | Some f \<Rightarrow>
                    (case open_connection f fs of
                       (Inl e, f', _) \<Rightarrow> (Inl e, Some f')
                     | (Inr _, f', _) \<Rightarrow>
                         (Inr \<lparr>conn = Mutex False (rows f'),
                               st_retention_ttl_secs = usize_as_i64 ttl,
                               st_pull_lease_secs = usize_as_i64 lease_secs\<rparr>,
                          Some f')))))"

text \<open>What a store leaves in its file: its tables and the schema.\<close>

definition close_store :: "Store \<Rightarrow> store_file" where
  "close_store st =
     \<lparr>present = [''meta'', ''routes'', ''messages'', ''invites''], rows = inner (conn st)\<rparr>"

subsection \<open>Failures while opening\<close>

text \<open>\<open>steady m\<close>: whatever fails, the step leaves the rows alone. \<open>recoverable m\<close>: when the step
  fails, it leaves the rows alone. \<open>candid m\<close>: a step that succeeds among failures to come did
  what it does without failures.\<close>

definition steady :: "'a auto \<Rightarrow> bool" where
  "steady m \<longleftrightarrow> (\<forall>f fs. rows (fst (snd (m f fs))) = rows f)"

definition recoverable :: "'a auto \<Rightarrow> bool" where
  "recoverable m \<longleftrightarrow> (\<forall>f fs e g fs'. m f fs = (Inl e, g, fs') \<longrightarrow> rows g = rows f)"

definition candid :: "'a auto \<Rightarrow> bool" where
  "candid m \<longleftrightarrow> (\<forall>f fs x g fs'. m f fs = (Inr x, g, fs') \<longrightarrow> m f [] = (Inr x, g, []))"

lemma steady_stmt: "(\<And>f. rows (snd (g f)) = rows f) \<Longrightarrow> steady (auto_stmt g)"
  by (simp add: steady_def auto_stmt_def split: list.split option.split)

lemma steady_bind:
  assumes "steady m" and "\<And>x. steady (h x)"
  shows "steady (auto_bind m h)"
  unfolding steady_def auto_bind_def
proof (intro allI)
  fix f fs
  obtain r g fs' where m: "m f fs = (r, g, fs')" by (cases "m f fs")
  then have "rows g = rows f" using assms(1) unfolding steady_def by (metis fst_conv snd_conv)
  then show "rows (fst (snd (case m f fs of (Inl e, f', fs') \<Rightarrow> (Inl e, f', fs')
      | (Inr x, f', fs') \<Rightarrow> h x f' fs'))) = rows f"
    using m assms(2) by (cases r) (simp_all add: steady_def)
qed

lemma recoverable_bind:
  assumes "steady m" and "\<And>x. recoverable (h x)"
  shows "recoverable (auto_bind m h)"
  unfolding recoverable_def auto_bind_def
proof (intro allI impI)
  fix f fs e g fs'
  assume fails: "(case m f fs of (Inl e, f', fs') \<Rightarrow> (Inl e, f', fs') | (Inr x, f', fs') \<Rightarrow> h x f' fs') = (Inl e, g, fs')"
  obtain r f1 fs1 where m: "m f fs = (r, f1, fs1)" by (cases "m f fs")
  then have "rows f1 = rows f" using assms(1) unfolding steady_def by (metis fst_conv snd_conv)
  moreover have "rows g = rows f1"
    using fails m assms(2) unfolding recoverable_def by (cases r) (simp, fastforce)
  ultimately show "rows g = rows f" by simp
qed

lemma candid_stmt: "candid (auto_stmt g)"
  by (auto simp: candid_def auto_stmt_def split: list.splits option.splits)

lemma candid_bind:
  assumes "candid m" and "\<And>x. candid (h x)"
  shows "candid (auto_bind m h)"
  unfolding candid_def auto_bind_def
proof (intro allI impI)
  fix f fs x g fs'
  assume ends: "(case m f fs of (Inl e, f', fs') \<Rightarrow> (Inl e, f', fs') | (Inr x, f', fs') \<Rightarrow> h x f' fs') = (Inr x, g, fs')"
  obtain y f1 fs1 where m: "m f fs = (Inr y, f1, fs1)" "h y f1 fs1 = (Inr x, g, fs')"
    using ends by (cases "m f fs"; cases "fst (m f fs)") auto
  then have "m f [] = (Inr y, f1, [])" "h y f1 [] = (Inr x, g, [])"
    using assms unfolding candid_def by blast+
  then show "(case m f [] of (Inl e, f', fs') \<Rightarrow> (Inl e, f', fs') | (Inr x, f', fs') \<Rightarrow> h x f' fs') = (Inr x, g, [])"
    by simp
qed

lemma candid_basic: "candid (auto_return x)" "candid (auto_fail e)"
  by (simp_all add: candid_def auto_return_def auto_fail_def)

lemmas statement_autos = pragma_update_def create_index_if_not_exists_def create_table_if_not_exists_def
  select_schema_version_def write_schema_version_def

lemma steady_statements:
  "steady pragma_update" "steady create_index_if_not_exists" "steady (create_table_if_not_exists t)"
  "steady select_schema_version"
  unfolding statement_autos by (rule steady_stmt; simp)+

lemma steady_schema: "steady create_schema"
  unfolding create_schema_def by (intro steady_bind steady_statements)

lemma candid_open: "candid open_connection"
proof -
  have read: "candid (case parse_i64 raw of
      None \<Rightarrow> auto_fail ''ERR_STORE_VERSION'' | Some v \<Rightarrow> auto_return v)" for raw
    by (simp add: candid_basic split: option.split)
  have marker: "candid (case stored of
      None \<Rightarrow> auto_bind (write_schema_version SCHEMA_VERSION) (\<lambda>_. auto_return SCHEMA_VERSION)
    | Some raw \<Rightarrow> (case parse_i64 raw of
        None \<Rightarrow> auto_fail ''ERR_STORE_VERSION'' | Some v \<Rightarrow> auto_return v))" for stored
    unfolding write_schema_version_def
    by (cases stored) (simp_all add: read candid_bind candid_stmt candid_basic)
  show ?thesis
    unfolding open_connection_def create_schema_def
    by (intro candid_bind marker)
       (simp_all add: statement_autos candid_stmt candid_basic)
qed

lemma recoverable_open: "recoverable open_connection"
proof -
  have tail: "recoverable (auto_bind
       (case stored of
          None \<Rightarrow> auto_bind (write_schema_version SCHEMA_VERSION) (\<lambda>_. auto_return SCHEMA_VERSION)
        | Some raw \<Rightarrow>
            (case parse_i64 raw of
               None \<Rightarrow> auto_fail ''ERR_STORE_VERSION'' | Some v \<Rightarrow> auto_return v)) (\<lambda>stored.
     if SCHEMA_VERSION < stored then auto_fail ''ERR_STORE_VERSION''
     else if stored < SCHEMA_VERSION then write_schema_version SCHEMA_VERSION
     else auto_return ()))" for stored
    by (auto simp: recoverable_def auto_bind_def write_schema_version_def auto_stmt_def auto_return_def
        auto_fail_def split: option.splits list.splits if_splits)
  show ?thesis
    unfolding open_connection_def
    by (rule recoverable_bind [OF steady_statements(1)], rule recoverable_bind [OF steady_statements(1)],
        rule recoverable_bind [OF steady_statements(1)], rule recoverable_bind [OF steady_schema],
        rule recoverable_bind [OF steady_statements(4)], rule tail)
qed

subsection \<open>The schema marker\<close>

definition file_version :: "db \<Rightarrow> int option" where
  "file_version d =
     (case meta d ''schema_version'' of None \<Rightarrow> Some SCHEMA_VERSION | Some raw \<Rightarrow> parse_i64 raw)"

lemma marker_parses: "parse_i64 (int_to_string SCHEMA_VERSION) = Some SCHEMA_VERSION"
  using parse_i64_nat_to_string [of 2] by (simp add: int_to_string_def SCHEMA_VERSION_def)

lemma create_table_run:
  "create_table_if_not_exists t f [] =
    (Inr (), if t \<in> set (present f) then f else f\<lparr>present := present f @ [t]\<rparr>, [])"
  by (simp add: create_table_if_not_exists_def auto_run)

lemma create_schema_run:
  "\<exists>g. create_schema f [] = (Inr (), g, []) \<and> rows g = rows f \<and>
    set (present g) = set (present f) \<union> {''meta'', ''routes'', ''messages'', ''invites''}"
  unfolding create_schema_def create_index_if_not_exists_def
  by (simp add: auto_bind_def auto_stmt_def create_table_run) auto

lemma create_schema_done:
  assumes "{''meta'', ''routes'', ''messages'', ''invites''} \<subseteq> set (present f)"
  shows "create_schema f [] = (Inr (), f, [])"
  using assms unfolding create_schema_def create_index_if_not_exists_def
  by (simp add: auto_bind_def auto_stmt_def create_table_run)

lemma open_connection_run:
  assumes "create_schema f [] = (Inr (), g, [])" and "rows g = rows f"
  shows "open_connection f [] =
    (case file_version (rows f) of
       None \<Rightarrow> (Inl ''ERR_STORE_VERSION'', g, [])
     | Some v \<Rightarrow>
         if SCHEMA_VERSION < v then (Inl ''ERR_STORE_VERSION'', g, [])
         else if v < SCHEMA_VERSION \<or> meta (rows f) ''schema_version'' = None
         then (Inr (), snd (((\<lambda>f. ((), f\<lparr>rows := (rows f)\<lparr>meta :=
                (meta (rows f))(''schema_version'' \<mapsto> int_to_string SCHEMA_VERSION)\<rparr>\<rparr>)) g)), [])
         else (Inr (), g, []))"
  using assms
  by (simp add: open_connection_def auto_bind_def pragma_update_def auto_stmt_def
      select_schema_version_def write_schema_version_def auto_return_def auto_fail_def
      file_version_def split: option.split)

lemma open_guard:
  assumes "0 < cfg_retention_ttl_secs cfg" and "0 < cfg_pull_lease_secs cfg"
  shows "case fst (Store_open cfg (Some f) []) of
      Inl e \<Rightarrow> e = ''ERR_STORE_VERSION'' \<and>
        (case file_version (rows f) of None \<Rightarrow> True | Some v \<Rightarrow> SCHEMA_VERSION < v)
    | Inr st \<Rightarrow> file_version (inner (conn st)) = Some SCHEMA_VERSION \<and>
        meta (inner (conn st)) ''schema_version'' \<noteq> None \<and>
        (case file_version (rows f) of None \<Rightarrow> False | Some v \<Rightarrow> v \<le> SCHEMA_VERSION)"
proof -
  obtain g where g: "create_schema f [] = (Inr (), g, [])" "rows g = rows f"
    using create_schema_run [of f] by blast
  show ?thesis
    using assms
    by (auto simp: Store_open_def retention_ttl_or_error_def pull_lease_or_error_def
        open_connection_run [OF g] g(2) file_version_def marker_parses split: option.splits)
qed

text \<open>
  C30: The schema marker decides, and is advanced. Without failures and with valid settings,
  a file without a marker or with a version up to the current one opens, with its marker at
  the current version afterwards (the forward migration is recorded); a file written by a
  newer version, or with a marker that is no number, is refused with \<open>ERR_STORE_VERSION\<close>.
\<close>

theorem open_version_guard:
  assumes "0 < cfg_retention_ttl_secs cfg" and "0 < cfg_pull_lease_secs cfg"
  shows "case fst (Store_open cfg (Some f) []) of
      Inl e \<Rightarrow> e = ''ERR_STORE_VERSION'' \<and>
        (case file_version (rows f) of None \<Rightarrow> True | Some v \<Rightarrow> SCHEMA_VERSION < v)
    | Inr st \<Rightarrow> file_version (inner (conn st)) = Some SCHEMA_VERSION \<and>
        meta (inner (conn st)) ''schema_version'' \<noteq> None \<and>
        (case file_version (rows f) of None \<Rightarrow> False | Some v \<Rightarrow> v \<le> SCHEMA_VERSION)"
  using assms by (rule open_guard)

text \<open>The rows that an opening without failures serves depend on the rows alone.\<close>

lemma open_rows:
  assumes "rows g = rows f"
  shows "fst (Store_open cfg (Some g) []) = fst (Store_open cfg (Some f) [])"
proof -
  obtain g1 where g1: "create_schema g [] = (Inr (), g1, [])" "rows g1 = rows g"
    using create_schema_run [of g] by blast
  obtain f1 where f1: "create_schema f [] = (Inr (), f1, [])" "rows f1 = rows f"
    using create_schema_run [of f] by blast
  show ?thesis
    by (auto simp: Store_open_def open_connection_run [OF g1] open_connection_run [OF f1] g1(2) f1(2) assms
        split: sum.split option.split)
qed

definition data_of :: "store_file \<Rightarrow> route_row list \<times> msg_row list \<times> nat \<times> invite_row list" where
  "data_of f = (routes (rows f), messages (rows f), last_seq (rows f), invites (rows f))"

lemma open_connection_ends:
  assumes "open_connection f fs = (Inr u, g, fs')"
  shows "data_of g = data_of f" and "\<forall>key. key \<noteq> ''schema_version'' \<longrightarrow> meta (rows g) key = meta (rows f) key"
    and "{''meta'', ''routes'', ''messages'', ''invites''} \<subseteq> set (present g)"
    and "open_connection g [] = (Inr (), g, [])"
proof -
  have ends: "open_connection f [] = (Inr u, g, [])" using candid_open assms unfolding candid_def by blast
  obtain f1 where f1: "create_schema f [] = (Inr (), f1, [])" "rows f1 = rows f"
    "set (present f1) = set (present f) \<union> {''meta'', ''routes'', ''messages'', ''invites''}"
    using create_schema_run [of f] by blast
  let ?marked = "f1\<lparr>rows := (rows f1)\<lparr>meta := (meta (rows f1))(''schema_version'' \<mapsto> int_to_string SCHEMA_VERSION)\<rparr>\<rparr>"
  have "g = f1 \<and> file_version (rows f) = Some SCHEMA_VERSION \<and> meta (rows f) ''schema_version'' \<noteq> None \<or> g = ?marked"
    using ends unfolding open_connection_run [OF f1(1,2)]
    by (cases "file_version (rows f)") (simp_all split: if_splits)
  then have g: "data_of g = data_of f \<and> (\<forall>key. key \<noteq> ''schema_version'' \<longrightarrow> meta (rows g) key = meta (rows f) key) \<and>
      present g = present f1 \<and> file_version (rows g) = Some SCHEMA_VERSION \<and> meta (rows g) ''schema_version'' \<noteq> None"
    by (elim disjE conjE) (simp_all add: data_of_def f1(2), simp add: file_version_def marker_parses)
  then show "data_of g = data_of f" "\<forall>key. key \<noteq> ''schema_version'' \<longrightarrow> meta (rows g) key = meta (rows f) key"
    by simp_all
  show tables: "{''meta'', ''routes'', ''messages'', ''invites''} \<subseteq> set (present g)"
    using g f1(3) by simp
  show "open_connection g [] = (Inr (), g, [])"
    using g by (auto simp: open_connection_run [OF create_schema_done [OF tables] refl])
qed

lemma open_cases:
  assumes "Store_open cfg (Some f) fs = (r, f')"
  obtains e g where "r = Inl e" "f' = Some g" "rows g = rows f"
  | g fs' where "f' = Some g" "data_of g = data_of f" "open_connection f fs = (Inr (), g, fs')"
      "0 < cfg_retention_ttl_secs cfg" "0 < cfg_pull_lease_secs cfg"
      "r = Inr \<lparr>conn = Mutex False (rows g),
                 st_retention_ttl_secs = usize_as_i64 (min (cfg_retention_ttl_secs cfg) MAX_RETENTION_TTL_SECS_CEILING),
                 st_pull_lease_secs = usize_as_i64 (min (cfg_pull_lease_secs cfg) MAX_PULL_LEASE_SECS_CEILING)\<rparr>"
proof -
  obtain q g fs' where q: "open_connection f fs = (q, g, fs')" by (cases "open_connection f fs")
  then have "rows g = rows f" if "q = Inl e" for e using recoverable_open that unfolding recoverable_def by blast
  moreover have "data_of g = data_of f" if "q = Inr ()" using open_connection_ends(1) q that by blast
  ultimately show thesis
    using assms q that
    by (cases q) (auto simp: Store_open_def retention_ttl_or_error_def pull_lease_or_error_def
        split: if_splits sum.splits)
qed

text \<open>
  C31: Opening a store is safe to fail and to repeat. Whatever the configuration, whatever
  version the file carries and whichever statement fails: the routes, messages and slots in the
  file, the row counter and every entry of \<open>meta\<close> but the version are those before; opening the
  file that is left, without failures, ends exactly as it would have ended without the first
  attempt; and a store that opens serves exactly the rows of its file, in which all tables now
  exist. So a start that is interrupted, or refused because the file is newer, neither loses
  data nor makes the next start succeed or fail where it would not have.
\<close>

theorem open_keeps_data:
  assumes "Store_open cfg (Some f) fs = (r, f')"
  shows "\<exists>g. f' = Some g \<and> data_of g = data_of f \<and>
    (\<forall>key. key \<noteq> ''schema_version'' \<longrightarrow> meta (rows g) key = meta (rows f) key) \<and>
    fst (Store_open cfg (Some g) []) = fst (Store_open cfg (Some f) []) \<and>
    (case r of
       Inl e \<Rightarrow> meta (rows g) ''schema_version'' = meta (rows f) ''schema_version''
     | Inr st \<Rightarrow> conn st = Mutex False (rows g) \<and>
         {''meta'', ''routes'', ''messages'', ''invites''} \<subseteq> set (present g))"
  using assms
proof (cases rule: open_cases)
  case (1 e g)
  then show ?thesis using open_rows [OF 1(3)] by (simp add: data_of_def)
next
  case (2 g fs')
  note ends = open_connection_ends [OF 2(3)]
  have "open_connection f [] = (Inr (), g, [])" using candid_open 2(3) unfolding candid_def by blast
  then have "fst (Store_open cfg (Some g) []) = fst (Store_open cfg (Some f) [])"
    using ends(4) by (simp add: Store_open_def split: sum.split)
  then show ?thesis using 2 ends(1-3) by simp
qed

subsection \<open>Restart\<close>

lemma meta_steps [simp]:
  "meta (swept ttl now d) = meta d" "meta (map_invites p f d) = meta d"
  "meta (add_invite i d) = meta d" "meta (accepted k lid mid b now d) = meta d"
  "meta (legacy_delivered k now ms d) = meta d" "meta (lease_delivered k now dl ms d) = meta d"
  "meta (acknowledged k ids d) = meta d"
  by (simp_all add: swept_def drop_expired_invites_def drop_idle_routes_def drop_expired_def
      map_invites_def add_invite_def accepted_def append_message_def add_route_def burn_ticket_def
      legacy_delivered_def lease_delivered_def acknowledged_def Let_def drop_route_def drop_seqs_def
      lease_seqs_def drop_acked_def)

lemma meta_op_effect:
  assumes "db_ok d"
  shows "meta (op_effect ttl lease_secs op d) = meta d"
proof -
  have dist: "distinct (map slot_key (invites d))"
    using assms by (simp add: db_ok_def slots_ok_def)
  note unfold = op_effect_def run_op_def out_as_def
  show ?thesis
  proof (cases op)
    case (OpPull j mx max_bytes now mode)
    then show ?thesis by (cases mode) (simp_all add: unfold pull_legacy_run pull_lease_run Let_def)
  qed (simp_all add: unfold retention_sweep_run route_status_run invite_create_run Let_def
      invite_redeem_run [OF dist] consume_slot_def invite_revoke_run revoke_slot_def enqueue_run
      ack_run split: option.split)
qed

lemma perform_frame:
  assumes "store_wf st"
  shows "meta (tables (perform s st)) = meta (tables st) \<and>
    st_retention_ttl_secs (perform s st) = st_retention_ttl_secs st \<and>
    st_pull_lease_secs (perform s st) = st_pull_lease_secs st"
proof -
  have live: "alive st" and ok: "db_ok (tables st)" using assms by (simp_all add: store_wf_def)
  from live show ?thesis
  proof (cases rule: perform_cases [of st s])
    case (2 d')
    then have "d' = op_effect (st_retention_ttl_secs st) (st_pull_lease_secs st) (fst s) (tables st)"
      by (simp add: op_effect_def)
    then show ?thesis using 2(2) meta_op_effect [OF ok] by simp
  qed simp
qed

lemma run_frame:
  "store_wf st \<Longrightarrow> store_wf (run_steps perform ss st) \<and>
   meta (tables (run_steps perform ss st)) = meta (tables st) \<and>
   st_retention_ttl_secs (run_steps perform ss st) = st_retention_ttl_secs st \<and>
   st_pull_lease_secs (run_steps perform ss st) = st_pull_lease_secs st"
  by (induction ss arbitrary: st) (simp_all add: perform_frame perform_wf)

text \<open>
  A restart of the store is invisible. After a store was opened, any operations with any failures may
  run; closing the file and opening it again with the same configuration yields exactly the
  store that was closed, with every committed message, lease, slot and tombstone, and leaves
  the file as it was.
\<close>

lemma restart_identity:
  assumes "fst (Store_open cfg (Some f) []) = Inr st" and "db_ok (rows f)"
  shows "Store_open cfg (Some (close_store (run_steps perform ss st))) [] =
    (Inr (run_steps perform ss st), Some (close_store (run_steps perform ss st)))"
proof -
  let ?st = "run_steps perform ss st"
  have pos: "0 < cfg_retention_ttl_secs cfg" "0 < cfg_pull_lease_secs cfg"
    using assms(1)
    by (auto simp: Store_open_def retention_ttl_or_error_def pull_lease_or_error_def
        split: if_splits)
  have version: "file_version (tables st) = Some SCHEMA_VERSION" "meta (tables st) ''schema_version'' \<noteq> None"
    using open_guard [OF pos, of f] assms(1) by simp_all
  have settings: "alive st" "st_retention_ttl_secs st = usize_as_i64 (min (cfg_retention_ttl_secs cfg) MAX_RETENTION_TTL_SECS_CEILING)"
    "st_pull_lease_secs st = usize_as_i64 (min (cfg_pull_lease_secs cfg) MAX_PULL_LEASE_SECS_CEILING)"
    "data_of (close_store st) = data_of f"
    using prod.collapse [of "Store_open cfg (Some f) []", symmetric] unfolding assms(1)
    by (cases rule: open_cases; simp add: close_store_def data_of_def)+
  have "db_ok (tables st)"
    using assms(2) settings(4)
    by (simp add: db_ok_def mail_ok_def slots_ok_def data_of_def close_store_def)
  then have "store_wf st" using settings(1) by (simp add: store_wf_def)
  from run_frame [OF this, of ss] have frame: "alive ?st" "meta (tables ?st) = meta (tables st)"
    "st_retention_ttl_secs ?st = st_retention_ttl_secs st" "st_pull_lease_secs ?st = st_pull_lease_secs st"
    by (simp_all add: store_wf_def)
  have same: "create_schema (close_store ?st) [] = (Inr (), close_store ?st, [])"
    by (rule create_schema_done) (simp add: close_store_def)
  have "file_version (rows (close_store ?st)) = Some SCHEMA_VERSION"
    "meta (rows (close_store ?st)) ''schema_version'' \<noteq> None"
    using version frame(2) by (simp_all add: close_store_def file_version_def)
  then have "open_connection (close_store ?st) [] = (Inr (), close_store ?st, [])"
    by (auto simp: open_connection_run [OF same refl])
  moreover have "?st = \<lparr>conn = Mutex False (rows (close_store ?st)),
      st_retention_ttl_secs = st_retention_ttl_secs st, st_pull_lease_secs = st_pull_lease_secs st\<rparr>"
    using frame by (cases ?st; cases "conn ?st") (simp add: close_store_def)
  ultimately show ?thesis
    using pos settings(2,3)
    by (simp add: Store_open_def retention_ttl_or_error_def pull_lease_or_error_def)
qed

subsection \<open>Concrete files\<close>

text \<open>A file of the first version, before the invites table, and one from the future.\<close>

definition v1_file :: store_file where
  "v1_file = \<lparr>present = [''meta'', ''routes'', ''messages''],
     rows = empty_db\<lparr>meta := [''schema_version'' \<mapsto> ''1'']\<rparr>\<rparr>"

definition v3_file :: store_file where
  "v3_file = \<lparr>present = [''meta'', ''routes'', ''messages''],
     rows = empty_db\<lparr>meta := [''schema_version'' \<mapsto> ''3'']\<rparr>\<rparr>"

lemma sample_versions: "file_version (rows v1_file) = Some 1" "file_version (rows v3_file) = Some 3"
  by (simp_all add: file_version_def v1_file_def v3_file_def parse_i64_def is_digit_def
      char_code_def Let_def)

text \<open>A file of the first version with a route and a message, whose first opening fails at the
  write of the marker, after the \<open>invites\<close> table was created.\<close>

definition v1_mail :: store_file where
  "v1_mail = v1_file\<lparr>rows := (rows v1_file)\<lparr>
     routes := [\<lparr>rt_key = ''r'', rt_log_id = ''l'', rt_created_at = 100, rt_last_touched = 100\<rparr>],
     messages := [\<lparr>seq = 1, msg_id = ''m'', msg_route = ''r'', body = [7], enqueued_at = 100, leased_until = None\<rparr>],
     last_seq := 1\<rparr>\<rparr>"

lemma v1_mail_fails:
  "open_connection v1_mail (replicate 11 None @ [Some e]) =
    (Inl (map_err e), v1_mail\<lparr>present := [''meta'', ''routes'', ''messages'', ''invites'']\<rparr>, [])"
proof -
  have parse: "parse_i64 ''1'' = Some 1" using sample_versions(1) by (simp add: file_version_def v1_file_def)
  have "replicate 11 None = [None, None, None, None, None, None, None, None, None, None, None :: string option]"
    by (simp add: eval_nat_numeral)
  then show ?thesis
    by (simp add: open_connection_def create_schema_def statement_autos auto_bind_def auto_stmt_def
        auto_return_def SCHEMA_VERSION_def v1_mail_def v1_file_def parse)
qed

theorem open_keeps_data_witness:
  "\<exists>g e. Store_open StoreConfig_default (Some v1_mail) (replicate 11 None @ [Some ''disk I/O error'']) = (Inl e, Some g) \<and>
    ''invites'' \<in> set (present g) \<and> data_of g = data_of v1_mail \<and>
    (\<exists>st. fst (Store_open StoreConfig_default (Some g) []) = Inr st \<and> file_version (inner (conn st)) = Some 2 \<and>
       map msg_id (messages (inner (conn st))) = [''m''] \<and> map rt_key (routes (inner (conn st))) = [''r''])"
proof -
  let ?g = "v1_mail\<lparr>present := [''meta'', ''routes'', ''messages'', ''invites'']\<rparr>"
  have fails: "Store_open StoreConfig_default (Some v1_mail) (replicate 11 None @ [Some ''disk I/O error'']) =
      (Inl (map_err ''disk I/O error''), Some ?g)"
    unfolding Store_open_def
    by (simp add: retention_ttl_or_error_def pull_lease_or_error_def StoreConfig_default_def default_defs
        ceiling_defs v1_mail_fails)
  have version: "file_version (rows ?g) = Some 1"
    using sample_versions(1) by (simp add: v1_mail_def file_version_def)
  obtain st where st: "fst (Store_open StoreConfig_default (Some ?g) []) = Inr st" "file_version (inner (conn st)) = Some 2"
    using open_guard [of StoreConfig_default ?g] version
    by (auto simp: StoreConfig_default_def default_defs SCHEMA_VERSION_def split: sum.splits)
  obtain h where h: "Store_open StoreConfig_default (Some ?g) [] = (Inr st, Some h)" "data_of h = data_of ?g"
    "conn st = Mutex False (rows h)"
    using open_keeps_data [OF prod.collapse [symmetric], of StoreConfig_default ?g "[]"] st(1)
    by (auto simp: prod_eq_iff)
  have "map msg_id (messages (inner (conn st))) = [''m'']" "map rt_key (routes (inner (conn st))) = [''r'']"
    using h(2,3) by (simp_all add: data_of_def v1_mail_def)
  moreover have "data_of ?g = data_of v1_mail" using open_keeps_data [OF fails] by auto
  ultimately show ?thesis
    by (intro exI [of _ ?g] exI [of _ "map_err ''disk I/O error''"] exI [of _ st] conjI fails st) simp_all
qed

theorem open_version_guard_witness:
  "fst (Store_open StoreConfig_default (Some v3_file) []) = Inl ''ERR_STORE_VERSION'' \<and>
   (\<exists>st. fst (Store_open StoreConfig_default (Some v1_file) []) = Inr st \<and>
     file_version (inner (conn st)) = Some 2)"
  using open_version_guard [of StoreConfig_default v3_file] open_version_guard [of StoreConfig_default v1_file]
  by (auto simp: StoreConfig_default_def default_defs sample_versions SCHEMA_VERSION_def
      split: sum.splits)

end
