(* ===== verification/Rate_Limit.thy ===== *)
theory Rate_Limit imports Config begin

text \<open>
  The token bucket \<open>PushRateBucket\<close> of \<open>src/lib.rs\<close>, used per route for pushes and once,
  globally, for invite creation. Instants of the monotonic clock are nanoseconds.

  The interface is the locale \<open>token_bucket\<close>: a stateful gate with a credit function that
  an admission lowers by one and that the passing of time raises by at most the refill of
  the whole seconds passed. Its client lemma bounds the admissions of any sequence of
  calls; the code's bucket is an interpretation.
\<close>

record PushRateBucket =
  tokens :: nat
  last_refill :: nat

definition ns_per_sec :: nat where
  "ns_per_sec = 1000000000"

text \<open>\<open>now.checked_duration_since(last).unwrap_or(ZERO).as_secs()\<close>\<close>

definition elapsed_secs :: "nat \<Rightarrow> nat \<Rightarrow> nat" where
  "elapsed_secs now since = (if now < since then 0 else (now - since) div ns_per_sec)"

definition bucket_new :: "nat \<Rightarrow> ResourceControls \<Rightarrow> PushRateBucket" where
  "bucket_new now controls = \<lparr>tokens = push_rate_burst controls, last_refill = now\<rparr>"

definition bucket_refill :: "ResourceControls \<Rightarrow> nat \<Rightarrow> PushRateBucket \<Rightarrow> PushRateBucket" where
  "bucket_refill controls now b =
     (if push_rate_refill_per_sec controls = 0 \<or> push_rate_burst controls \<le> tokens b then b
      else
        (let elapsed = elapsed_secs now (last_refill b) in
         if elapsed = 0 then b
         else
           (let refill = usize_sat_mul elapsed (push_rate_refill_per_sec controls) in
            \<lparr>tokens = min (usize_sat_add (tokens b) refill) (push_rate_burst controls),
             last_refill = now\<rparr>)))"

definition try_consume ::
    "ResourceControls \<Rightarrow> nat \<Rightarrow> PushRateBucket \<Rightarrow> bool \<times> PushRateBucket" where
  "try_consume controls now b =
     (let b = bucket_refill controls now b in
      if tokens b = 0 then (False, b) else (True, b\<lparr>tokens := tokens b - 1\<rparr>))"

text \<open>Calls at the given instants: how many are admitted, and the final bucket.\<close>

fun admissions :: "(nat \<Rightarrow> 'b \<Rightarrow> bool \<times> 'b) \<Rightarrow> nat list \<Rightarrow> 'b \<Rightarrow> nat \<times> 'b" where
  "admissions gate [] b = (0, b)"
| "admissions gate (t # ts) b =
     (case gate t b of (ok, b') \<Rightarrow>
        (case admissions gate ts b' of (n, b'') \<Rightarrow> (if ok then Suc n else n, b'')))"

subsection \<open>The interface\<close>

locale token_bucket =
  fixes gate :: "nat \<Rightarrow> 'b \<Rightarrow> bool \<times> 'b"
    and credit :: "nat \<Rightarrow> 'b \<Rightarrow> nat"
  assumes admit_pays: "t \<le> T \<Longrightarrow> gate t b = (True, b') \<Longrightarrow> Suc (credit T b') \<le> credit T b"
    and refuse_keeps: "t \<le> T \<Longrightarrow> gate t b = (False, b') \<Longrightarrow> credit T b' \<le> credit T b"
begin

lemma admissions_le_credit:
  "(\<forall>t \<in> set ts. t \<le> T) \<Longrightarrow> admissions gate ts b = (n, b') \<Longrightarrow> n + credit T b' \<le> credit T b"
proof (induction ts arbitrary: b n)
  case Nil
  then show ?case by simp
next
  case (Cons t ts)
  obtain ok b1 where step: "gate t b = (ok, b1)" by (cases "gate t b")
  obtain m b2 where rest: "admissions gate ts b1 = (m, b2)"
    by (cases "admissions gate ts b1")
  have "t \<le> T" using Cons.prems(1) by simp
  have n: "n = (if ok then Suc m else m)" and b': "b' = b2"
    using Cons.prems(2) step rest by auto
  have "m + credit T b' \<le> credit T b1"
    using Cons.IH [of b1 m] Cons.prems(1) rest b' by simp
  moreover have "credit T b1 + (if ok then 1 else 0) \<le> credit T b"
    using admit_pays [OF \<open>t \<le> T\<close>] refuse_keeps [OF \<open>t \<le> T\<close>] step by (cases ok) auto
  ultimately show ?case using n by auto
qed

lemma admissions_bounded:
  "(\<forall>t \<in> set ts. t \<le> T) \<Longrightarrow> fst (admissions gate ts b) \<le> credit T b"
  using admissions_le_credit [of ts T b "fst (admissions gate ts b)" "snd (admissions gate ts b)"]
  by simp

end

subsection \<open>The bucket pays its credit\<close>

text \<open>What the bucket can still admit up to instant \<open>T\<close>, were it not capped by the burst.\<close>

definition bucket_credit :: "ResourceControls \<Rightarrow> nat \<Rightarrow> PushRateBucket \<Rightarrow> nat" where
  "bucket_credit controls T b =
     tokens b + push_rate_refill_per_sec controls * elapsed_secs T (last_refill b)"

lemma div_add_superadditive: "(a::nat) div k + b div k \<le> (a + b) div k"
proof (cases "k = 0")
  case False
  then have "(a div k + b div k) * k \<le> a + b"
    by (metis add_le_mono add_mult_distrib div_times_less_eq_dividend)
  with False show ?thesis by (simp add: less_eq_div_iff_mult_less_eq)
qed simp

lemma elapsed_split:
  assumes "l \<le> t" and "t \<le> T"
  shows "elapsed_secs t l + elapsed_secs T t \<le> elapsed_secs T l"
proof -
  have "(t - l) div ns_per_sec + (T - t) div ns_per_sec \<le> ((t - l) + (T - t)) div ns_per_sec"
    by (rule div_add_superadditive)
  with assms show ?thesis by (simp add: elapsed_secs_def)
qed

lemma elapsed_pos_le: "0 < elapsed_secs t l \<Longrightarrow> l \<le> t"
  by (auto simp: elapsed_secs_def split: if_splits)

lemma bucket_refill_credit:
  assumes "t \<le> T"
  shows "bucket_credit controls T (bucket_refill controls t b) \<le> bucket_credit controls T b"
proof (cases "push_rate_refill_per_sec controls = 0 \<or> push_rate_burst controls \<le> tokens b \<or>
    elapsed_secs t (last_refill b) = 0")
  case True
  then show ?thesis by (auto simp: bucket_refill_def Let_def)
next
  case False
  let ?r = "push_rate_refill_per_sec controls" and ?l = "last_refill b"
  let ?e = "elapsed_secs t ?l"
  have "tokens (bucket_refill controls t b) \<le> tokens b + ?e * ?r"
    using False usize_sat_add_le [of "tokens b" "usize_sat_mul ?e ?r"] usize_sat_mul_le [of ?e ?r]
    by (simp add: bucket_refill_def Let_def min_def)
  moreover have "last_refill (bucket_refill controls t b) = t"
    using False by (simp add: bucket_refill_def Let_def)
  moreover have "?e + elapsed_secs T t \<le> elapsed_secs T ?l"
    using False assms elapsed_pos_le by (intro elapsed_split) auto
  then have "?r * ?e + ?r * elapsed_secs T t \<le> ?r * elapsed_secs T ?l"
    by (metis add_mult_distrib2 mult_le_mono2)
  ultimately show ?thesis by (simp add: bucket_credit_def mult.commute)
qed

interpretation bucket: token_bucket "try_consume controls" "bucket_credit controls" for controls
proof
  fix t T :: nat and b b' :: PushRateBucket
  assume t: "t \<le> T"
  note refill = bucket_refill_credit [OF t, of controls b]
  show "Suc (bucket_credit controls T b') \<le> bucket_credit controls T b"
    if "try_consume controls t b = (True, b')"
  proof -
    have "0 < tokens (bucket_refill controls t b)"
      and "b' = (bucket_refill controls t b)\<lparr>tokens := tokens (bucket_refill controls t b) - 1\<rparr>"
      using that by (auto simp: try_consume_def Let_def split: if_splits)
    with refill show ?thesis by (simp add: bucket_credit_def)
  qed
  show "bucket_credit controls T b' \<le> bucket_credit controls T b"
    if "try_consume controls t b = (False, b')"
    using that refill by (auto simp: try_consume_def Let_def split: if_splits)
qed

subsection \<open>The bucket stays within its burst\<close>

definition bucket_ok :: "ResourceControls \<Rightarrow> PushRateBucket \<Rightarrow> bool" where
  "bucket_ok controls b \<longleftrightarrow> tokens b \<le> push_rate_burst controls"

lemma bucket_new_ok [simp]: "bucket_ok controls (bucket_new now controls)"
  by (simp add: bucket_ok_def bucket_new_def)

lemma bucket_refill_ok: "bucket_ok controls b \<Longrightarrow> bucket_ok controls (bucket_refill controls t b)"
  by (auto simp: bucket_ok_def bucket_refill_def Let_def)

lemma try_consume_ok:
  "bucket_ok controls b \<Longrightarrow> bucket_ok controls (snd (try_consume controls t b))"
  using bucket_refill_ok [of controls b t]
  by (auto simp: try_consume_def bucket_ok_def Let_def)

lemma admissions_ok:
  "bucket_ok controls b \<Longrightarrow> bucket_ok controls (snd (admissions (try_consume controls) ts b))"
proof (induction ts arbitrary: b)
  case Nil
  then show ?case by simp
next
  case (Cons t ts)
  obtain ok b1 where step: "try_consume controls t b = (ok, b1)"
    by (cases "try_consume controls t b")
  with Cons.prems try_consume_ok [of controls b t] have "bucket_ok controls b1" by simp
  then show ?case using Cons.IH [of b1] step by (auto split: prod.splits)
qed

text \<open>A full bucket forgets how long it has been full, but for one refill.\<close>

lemma try_consume_full:
  assumes "tokens b = push_rate_burst controls" and "0 < push_rate_burst controls"
  shows "try_consume controls t b = (True, b\<lparr>tokens := push_rate_burst controls - 1\<rparr>)"
  using assms by (simp add: try_consume_def bucket_refill_def Let_def)

lemma try_consume_stale:
  assumes "tokens b < push_rate_burst controls" and "0 < push_rate_refill_per_sec controls"
    and "0 < elapsed_secs t (last_refill b)" and "push_rate_burst controls \<le> usize_max"
  shows "\<exists>k. try_consume controls t b = (True, \<lparr>tokens = k, last_refill = t\<rparr>) \<and>
    Suc k \<le> push_rate_burst controls"
proof -
  let ?m = "min (usize_sat_add (tokens b) (usize_sat_mul (elapsed_secs t (last_refill b))
    (push_rate_refill_per_sec controls))) (push_rate_burst controls)"
  have "0 < ?m"
    using assms by (simp add: usize_sat_add_def usize_sat_mul_def usize_max_def)
  then have "try_consume controls t b = (True, \<lparr>tokens = ?m - 1, last_refill = t\<rparr>)"
    using assms by (simp add: try_consume_def bucket_refill_def Let_def)
  with \<open>0 < ?m\<close> show ?thesis by auto
qed

subsection \<open>Properties\<close>

text \<open>
  Over the whole life of a bucket created at instant \<open>t0\<close>, the calls made up to instant
  \<open>T\<close>, in any order and at any rate, are admitted at most \<open>burst + refill * seconds\<close> times.
\<close>

lemma bucket_lifetime_bound:
  assumes "\<forall>t \<in> set ts. t \<le> T"
  shows "fst (admissions (try_consume controls) ts (bucket_new t0 controls))
    \<le> push_rate_burst controls + push_rate_refill_per_sec controls * elapsed_secs T t0"
  using bucket.admissions_bounded [OF assms, of controls "bucket_new t0 controls"]
  by (simp add: bucket_credit_def bucket_new_def)

text \<open>A window of calls: between \<open>t1\<close> and \<open>T\<close>, from any state the bucket can be in.\<close>

lemma elapsed_window:
  assumes "elapsed_secs t1 l = 0" and "t1 \<le> T"
  shows "elapsed_secs T l \<le> Suc (elapsed_secs T t1)"
proof (cases "T < l")
  case True
  then show ?thesis by (simp add: elapsed_secs_def)
next
  case False
  have "T - l < (T - t1) + ns_per_sec"
  proof (cases "t1 < l")
    case True
    then show ?thesis using assms(2) by (simp add: ns_per_sec_def)
  next
    case False
    with assms(1) have "(t1 - l) div ns_per_sec = 0" by (simp add: elapsed_secs_def)
    then have "t1 - l < ns_per_sec" by (simp add: ns_per_sec_def div_eq_0_iff)
    with False assms(2) show ?thesis by simp
  qed
  then have "(T - l) div ns_per_sec \<le> ((T - t1) + ns_per_sec) div ns_per_sec"
    by (intro div_le_mono) simp
  with False assms(2) show ?thesis by (simp add: elapsed_secs_def ns_per_sec_def)
qed

lemma admissions_no_refill:
  assumes "push_rate_refill_per_sec controls = 0"
  shows "fst (admissions (try_consume controls) ts b) \<le> tokens b"
proof -
  have "\<forall>t \<in> set ts. t \<le> Max (insert 0 (set ts))" by simp
  from bucket.admissions_bounded [OF this, of controls b] assms show ?thesis
    by (simp add: bucket_credit_def)
qed

lemma elapsed_mono: "t \<le> t' \<Longrightarrow> elapsed_secs t l \<le> elapsed_secs t' l"
  by (auto simp: elapsed_secs_def intro: div_le_mono)

lemma elapsed_antimono: "t1 \<le> t \<Longrightarrow> elapsed_secs T t \<le> elapsed_secs T t1"
  by (auto simp: elapsed_secs_def intro: div_le_mono)

text \<open>Once a bucket below its burst has refilled, at most the burst and the refill of the
  rest of the window are left.\<close>

lemma admissions_after_refill:
  assumes times: "\<forall>u \<in> set (t # ts). t1 \<le> u \<and> u \<le> T"
    and stale: "0 < elapsed_secs t1 (last_refill b)"
    and below: "tokens b < push_rate_burst controls"
    and rate: "0 < push_rate_refill_per_sec controls"
  shows "fst (admissions (try_consume controls) (t # ts) b)
    \<le> push_rate_burst controls + push_rate_refill_per_sec controls * elapsed_secs T t1"
proof -
  let ?r = "push_rate_refill_per_sec controls" and ?b = "bucket_refill controls t b"
  obtain ok b' where step: "try_consume controls t b = (ok, b')"
    by (cases "try_consume controls t b")
  have "0 < elapsed_secs t (last_refill b)"
    using stale times elapsed_mono [of t1 t "last_refill b"] by auto
  then have "tokens ?b \<le> push_rate_burst controls" and "last_refill ?b = t"
    using below rate by (auto simp: bucket_refill_def Let_def)
  moreover have "?r * elapsed_secs T t \<le> ?r * elapsed_secs T t1"
    using times by (intro mult_le_mono2 elapsed_antimono) simp
  ultimately have "bucket_credit controls T ?b
      \<le> push_rate_burst controls + ?r * elapsed_secs T t1"
    by (simp only: bucket_credit_def add_le_mono)
  moreover have "(if ok then 1 else 0) + bucket_credit controls T b' \<le> bucket_credit controls T ?b"
    using step by (auto simp: try_consume_def Let_def bucket_credit_def split: if_splits)
  moreover have "fst (admissions (try_consume controls) ts b') \<le> bucket_credit controls T b'"
    using times by (intro bucket.admissions_bounded) simp
  moreover have "fst (admissions (try_consume controls) (t # ts) b)
      = (if ok then 1 else 0) + fst (admissions (try_consume controls) ts b')"
    using step by (simp split: prod.splits)
  ultimately show ?thesis by linarith
qed

lemma admissions_stale_window:
  assumes times: "\<forall>t \<in> set ts. t1 \<le> t \<and> t \<le> T"
    and ok: "bucket_ok controls b" and burst: "0 < push_rate_burst controls"
    and rate: "0 < push_rate_refill_per_sec controls"
    and stale: "0 < elapsed_secs t1 (last_refill b)"
  shows "fst (admissions (try_consume controls) ts b)
    \<le> Suc (push_rate_burst controls + push_rate_refill_per_sec controls * elapsed_secs T t1)"
proof (cases ts)
  case Nil
  then show ?thesis by simp
next
  case (Cons t us)
  show ?thesis
  proof (cases "tokens b = push_rate_burst controls")
    case False
    with ok have "tokens b < push_rate_burst controls" by (simp add: bucket_ok_def)
    from admissions_after_refill [OF times [unfolded Cons] stale this rate] Cons
    show ?thesis by simp
  next
    case True
    let ?b = "b\<lparr>tokens := push_rate_burst controls - 1\<rparr>"
    have count: "fst (admissions (try_consume controls) ts b)
        = Suc (fst (admissions (try_consume controls) us ?b))"
      using Cons try_consume_full [OF True burst, of t] by (simp split: prod.splits)
    show ?thesis
    proof (cases us)
      case Nil
      then show ?thesis using count by simp
    next
      case us: (Cons u vs)
      have "fst (admissions (try_consume controls) us ?b)
          \<le> push_rate_burst controls + push_rate_refill_per_sec controls * elapsed_secs T t1"
        unfolding us by (rule admissions_after_refill) (use times Cons us stale burst rate in auto)
      then show ?thesis using count by simp
    qed
  qed
qed

lemma window_bound:
  assumes "\<forall>t \<in> set ts. t1 \<le> t \<and> t \<le> T" and "bucket_ok controls b"
    and "0 < push_rate_burst controls"
  shows "fst (admissions (try_consume controls) ts b)
    \<le> push_rate_burst controls + push_rate_refill_per_sec controls * Suc (elapsed_secs T t1)"
proof (cases "ts = []")
  case True
  then show ?thesis by simp
next
  case False
  then obtain t where "t \<in> set ts" by (cases ts) auto
  with assms(1) have "t1 \<le> T" by fastforce
  let ?r = "push_rate_refill_per_sec controls"
  consider (none) "?r = 0" | (fresh) "elapsed_secs t1 (last_refill b) = 0"
    | (stale) "0 < ?r" "0 < elapsed_secs t1 (last_refill b)" by fastforce
  then show ?thesis
  proof cases
    case none
    with admissions_no_refill [of controls ts b] assms(2) show ?thesis
      by (simp add: bucket_ok_def)
  next
    case fresh
    have "fst (admissions (try_consume controls) ts b) \<le> bucket_credit controls T b"
      using assms(1) by (intro bucket.admissions_bounded) simp
    also have "\<dots> \<le> push_rate_burst controls + ?r * Suc (elapsed_secs T t1)"
      unfolding bucket_credit_def using assms(2)
      by (intro add_le_mono mult_le_mono2 elapsed_window fresh \<open>t1 \<le> T\<close>) (simp add: bucket_ok_def)
    finally show ?thesis .
  next
    case stale
    from admissions_stale_window [OF assms stale] stale show ?thesis by simp
  qed
qed

text \<open>
  C38: In any window from \<open>t1\<close> to \<open>T\<close>, whatever happened before, a bucket admits at most
  its burst and the refill of the started seconds of the window. The last second is
  needed: a bucket that has been full for long refills once on its second call.
\<close>

theorem bucket_window_bound:
  assumes "\<forall>t \<in> set ts. t1 \<le> t \<and> t \<le> T" and "bucket_ok controls b"
    and "0 < push_rate_burst controls"
  shows "fst (admissions (try_consume controls) ts b)
    \<le> push_rate_burst controls + push_rate_refill_per_sec controls * Suc (elapsed_secs T t1)"
  using assms by (rule window_bound)

definition sample_controls :: ResourceControls where
  "sample_controls =
     ResourceControls_default\<lparr>push_rate_burst := 2, push_rate_refill_per_sec := 1\<rparr>"

text \<open>The bound is reached: a bucket of burst 2 that has been full for a minute admits three
  calls at one instant.\<close>

theorem bucket_window_bound_witness:
  "fst (admissions (try_consume sample_controls)
      [60000000000, 60000000000, 60000000000, 60000000000] (bucket_new 0 sample_controls)) = 3 \<and>
   fst (admissions (try_consume sample_controls)
      [60000000000, 60000000000, 60000000000, 60000000000] (bucket_new 0 sample_controls))
     \<le> 2 + 1 * Suc (elapsed_secs 60000000000 60000000000)"
proof -
  have "push_rate_burst sample_controls = 2" "push_rate_refill_per_sec sample_controls = 1"
    by (simp_all add: sample_controls_def)
  with bucket_window_bound [of "[60000000000, 60000000000, 60000000000, 60000000000]"
      60000000000 60000000000 sample_controls "bucket_new 0 sample_controls"]
  show ?thesis
    by (simp add: try_consume_def bucket_refill_def bucket_new_def elapsed_secs_def
        ns_per_sec_def usize_sat_add_def usize_sat_mul_def usize_max_def)
qed

text \<open>
  The gate is live: with a positive burst and refill, a call at least one second after
  the last refill is admitted, so an exhausted bucket never locks its route out.
\<close>

lemma try_consume_live:
  assumes "0 < push_rate_burst controls" and "push_rate_burst controls \<le> usize_max"
    and "0 < push_rate_refill_per_sec controls"
    and "last_refill b + ns_per_sec \<le> now"
  shows "fst (try_consume controls now b)"
proof (cases "tokens b < push_rate_burst controls")
  case True
  have "0 < elapsed_secs now (last_refill b)"
    using assms(4) by (simp add: elapsed_secs_def ns_per_sec_def div_greater_zero_iff)
  from try_consume_stale [OF True assms(3) this assms(2)] show ?thesis by auto
next
  case False
  with assms(1) show ?thesis by (simp add: try_consume_def bucket_refill_def Let_def)
qed

end
