(* ===== verification/Credentials.thy ===== *)
theory Credentials imports Rust_Text begin

text \<open>
  The credential functions of \<open>src/lib.rs\<close>: digests rendered in hexadecimal, the at-rest
  route key, the redacted log identifier (FNV-1a), the constant-time comparison, the bearer
  gate and the route-token header.

  SHA-256 (crate \<open>sha2\<close>) is the parameter \<open>sha\<close>; what the code relies on is \<open>digest32\<close>:
  a digest has 32 bytes. No theorem assumes that it is free of collisions: comparisons of
  secrets are characterised as comparisons of digests. The random token of
  \<open>Uuid::new_v4\<close> (crate \<open>uuid\<close>) is an input of the operations that draw one.

  A header lookup yields \<open>None\<close> for an absent header, \<open>Some None\<close> for a value that
  \<open>HeaderValue::to_str\<close> refuses and \<open>Some (Some s)\<close> for the string \<open>s\<close>.
\<close>

unbundle bit_operations_syntax

type_synonym digest_fun = "bytes \<Rightarrow> bytes"

type_synonym headers = "string \<Rightarrow> string option option"

definition as_bytes :: "string \<Rightarrow> bytes" where
  "as_bytes s = map of_char s"

definition digest32 :: "digest_fun \<Rightarrow> bool" where
  "digest32 sha \<longleftrightarrow> (\<forall>m. length (sha m) = 32)"

subsection \<open>Digests and identifiers\<close>

definition sha256_hex :: "digest_fun \<Rightarrow> string \<Rightarrow> string" where
  "sha256_hex sha s = hex_bytes (sha (as_bytes s))"

definition route_key_for :: "digest_fun \<Rightarrow> string \<Rightarrow> string" where
  "route_key_for sha channel = hex_bytes (sha (as_bytes channel))"

definition fnv_step :: "64 word \<Rightarrow> 8 word \<Rightarrow> 64 word" where
  "fnv_step state b = (state XOR ucast b) * 0x100000001b3"

definition channel_log_id :: "string \<Rightarrow> string" where
  "channel_log_id channel =
     hex_pad 16 (unat (foldl fnv_step 0xcbf29ce484222325 (as_bytes channel)))"

text \<open>\<open>a.simple().to_string()\<close>: the 16 random bytes of a UUID as 32 hexadecimal digits.\<close>

definition random_token_128 :: "bytes \<Rightarrow> string" where
  "random_token_128 uuid = hex_bytes uuid"

subsection \<open>Comparison\<close>

definition ct_eq_secret :: "digest_fun \<Rightarrow> string \<Rightarrow> string \<Rightarrow> bool" where
  "ct_eq_secret sha a b =
     (let da = sha (as_bytes a); db = sha (as_bytes b);
          diff = foldl (\<lambda>diff i. diff OR (da ! i XOR db ! i)) 0 [0..<32] in
      diff = 0)"

lemma fold_or_zero:
  "foldl (\<lambda>d i. d OR f i) (d0 :: 8 word) is = 0 \<longleftrightarrow> d0 = 0 \<and> (\<forall>i \<in> set is. f i = 0)"
  by (induction "is" arbitrary: d0) (auto simp: or_eq_0_iff)

lemma xor_zero_iff: "(a :: 8 word) XOR b = 0 \<longleftrightarrow> a = b"
  by (metis xor.assoc xor.left_neutral xor_self_eq)

lemma ct_eq_secret_digests:
  assumes "digest32 sha"
  shows "ct_eq_secret sha a b \<longleftrightarrow> sha (as_bytes a) = sha (as_bytes b)"
  using assms unfolding ct_eq_secret_def Let_def fold_or_zero xor_zero_iff digest32_def
  by (auto intro: nth_equalityI)

lemma ct_eq_secret_refl [simp]: "ct_eq_secret sha a a"
  unfolding ct_eq_secret_def Let_def fold_or_zero by simp

lemma ct_eq_secret_sym: "ct_eq_secret sha a b = ct_eq_secret sha b a"
  unfolding ct_eq_secret_def Let_def fold_or_zero xor_zero_iff by auto

subsection \<open>The bearer gate and the route token\<close>

definition ROUTE_TOKEN_HEADER :: string where "ROUTE_TOKEN_HEADER = ''x-qsl-route-token''"

definition INVITE_TICKET_HEADER :: string where "INVITE_TICKET_HEADER = ''x-qsl-invite-ticket''"

text \<open>\<open>headers.get(name).and_then(|v| v.to_str().ok())\<close>\<close>

definition header_str :: "headers \<Rightarrow> string \<Rightarrow> string option" where
  "header_str headers name = (case headers name of None \<Rightarrow> None | Some v \<Rightarrow> v)"

definition auth_ok :: "digest_fun \<Rightarrow> headers \<Rightarrow> string option \<Rightarrow> bool" where
  "auth_ok sha headers relay_token =
     (case relay_token of
        None \<Rightarrow> True
      | Some token \<Rightarrow>
          (case header_str headers ''authorization'' of
             None \<Rightarrow> False
           | Some raw \<Rightarrow>
               (case strip_prefix ''Bearer '' raw of
                  None \<Rightarrow> False
                | Some provided \<Rightarrow> ct_eq_secret sha provided token)))"

definition resolve_route_token :: "headers \<Rightarrow> string + string" where
  "resolve_route_token headers =
     (case headers ROUTE_TOKEN_HEADER of
        None \<Rightarrow> Inl ''ERR_MISSING_ROUTE_TOKEN''
      | Some raw \<Rightarrow>
          (case raw of
             None \<Rightarrow> Inl ''ERR_BAD_ROUTE_TOKEN''
           | Some s \<Rightarrow>
               (let token = trim s in
                if token = [] then Inl ''ERR_MISSING_ROUTE_TOKEN'' else Inr token)))"

lemma resolve_route_token_nonempty: "resolve_route_token h = Inr t \<Longrightarrow> t \<noteq> []"
  by (auto simp: resolve_route_token_def Let_def split: option.splits if_splits)

lemma resolve_route_token_error:
  "resolve_route_token h = Inl e \<Longrightarrow> e \<in> {''ERR_MISSING_ROUTE_TOKEN'', ''ERR_BAD_ROUTE_TOKEN''}"
  by (auto simp: resolve_route_token_def Let_def split: option.splits if_splits)

lemma length_sha256_hex: "digest32 sha \<Longrightarrow> length (sha256_hex sha s) = 64"
  by (simp add: sha256_hex_def digest32_def)

lemma route_key_eq_iff:
  "route_key_for sha a = route_key_for sha b \<longleftrightarrow> sha (as_bytes a) = sha (as_bytes b)"
  by (auto simp: route_key_for_def dest: hex_bytes_inj)

subsection \<open>Properties\<close>

text \<open>
  C37: The bearer gate: with a configured token a request passes exactly when it carries an
  \<open>authorization\<close> header of the form \<open>Bearer p\<close> whose \<open>p\<close> has the digest of the token.
  The XOR-accumulate fold over the 32 digest bytes decides equality of digests, neither
  more nor less; on an open relay every request passes.
\<close>

theorem auth_ok_iff:
  assumes "digest32 sha"
  shows "auth_ok sha headers relay_token \<longleftrightarrow>
    (case relay_token of None \<Rightarrow> True
     | Some token \<Rightarrow> \<exists>p. headers ''authorization'' = Some (Some (''Bearer '' @ p)) \<and>
         sha (as_bytes p) = sha (as_bytes token))"
  using ct_eq_secret_digests [OF assms]
  by (auto simp: auth_ok_def header_str_def strip_prefix_eq_Some
      split: option.splits dest: strip_prefix_eq_Some [THEN iffD2])

text \<open>A digest for the witnesses: the first 32 bytes of the padded message.\<close>

definition sample_sha :: digest_fun where
  "sample_sha m = take 32 (m @ replicate 32 0)"

lemma sample_sha_digest32: "digest32 sample_sha"
  by (simp add: digest32_def sample_sha_def min_def)

definition sample_headers :: "string \<Rightarrow> headers" where
  "sample_headers auth = (\<lambda>n. if n = ''authorization'' then Some (Some auth) else None)"

theorem auth_ok_iff_witness:
  "auth_ok sample_sha (sample_headers ''Bearer tok'') (Some ''tok'') \<and>
   \<not> auth_ok sample_sha (sample_headers ''Bearer toX'') (Some ''tok'')"
  unfolding auth_ok_iff [OF sample_sha_digest32]
  by (auto simp: sample_headers_def sample_sha_def as_bytes_def)

text \<open>
  The log identifier of a channel is always 16 lower-case hexadecimal characters, so a
  log line never carries the route token's own characters or its length.
\<close>

lemma channel_log_id_shape:
  "length (channel_log_id channel) = 16 \<and> set (channel_log_id channel) \<subseteq> set ''0123456789abcdef''"
proof -
  have "set (hex_pad k n) \<subseteq> set ''0123456789abcdef''" for k n
  proof (induction k n rule: hex_pad.induct)
    case (2 k n)
    have "hex_digit (n mod 16) \<in> set ''0123456789abcdef''"
      unfolding hex_digit_def by (rule nth_mem) simp
    with 2 show ?case by auto
  qed simp
  then show ?thesis by (simp add: channel_log_id_def)
qed

end
