(* ===== verification/Base64.thy ===== *)
theory Base64 imports Rust_Text begin

text \<open>
  The URL-safe base64 codec of \<open>src/lib.rs\<close> (\<open>b64_decode\<close>, \<open>b64_encode\<close>), on 32-bit
  words as the code has it. The proof reads both as positional numerals: the encoder's
  sextets, as a number to base 64, are the input's bytes, as a number to base 256, shifted
  left by the padding bits; the decoder's loop keeps the same relation with the bits still
  pending. The contract of the codec is the locale \<open>canonical_codec\<close>.
\<close>

unbundle bit_operations_syntax

subsection \<open>The decoder\<close>

text \<open>The inner function \<open>val\<close>, on the code of a byte.\<close>

definition b64_val :: "char \<Rightarrow> nat option" where
  "b64_val c =
     (let n = char_code c in
      if 65 \<le> n \<and> n \<le> 90 then Some (n - 65)
      else if 97 \<le> n \<and> n \<le> 122 then Some (n - 97 + 26)
      else if 48 \<le> n \<and> n \<le> 57 then Some (n - 48 + 52)
      else if n = 45 then Some 62
      else if n = 95 then Some 63
      else None)"

text \<open>The loop over the bytes; the state is \<open>acc\<close>, \<open>bits\<close> and \<open>out\<close>.\<close>

fun b64_loop :: "string \<Rightarrow> 32 word \<Rightarrow> nat \<Rightarrow> bytes \<Rightarrow> (32 word \<times> nat \<times> bytes) option" where
  "b64_loop [] acc bits out = Some (acc, bits, out)"
| "b64_loop (c # cs) acc bits out =
     (case b64_val c of
        None \<Rightarrow> None
      | Some v \<Rightarrow>
          (let acc = push_bit 6 acc OR word_of_nat v;
               bits = bits + 6 in
           if 8 \<le> bits then
             (let bits = bits - 8 in
              b64_loop cs acc bits (out @ [ucast (drop_bit bits acc AND 0xff)]))
           else b64_loop cs acc bits out))"

definition b64_decode :: "string \<Rightarrow> bytes option" where
  "b64_decode s =
     (case b64_loop (trim_end_matches CHR ''='' s) 0 0 [] of
        None \<Rightarrow> None
      | Some (acc, bits, out) \<Rightarrow>
          if 6 \<le> bits \<or> acc AND (push_bit bits 1 - 1) \<noteq> 0 then None else Some out)"

subsection \<open>The encoder\<close>

definition b64_table :: string where
  "b64_table = ''ABCDEFGHIJKLMNOPQRSTUVWXYZabcdefghijklmnopqrstuvwxyz0123456789-_''"

definition b64_chunk :: "bytes \<Rightarrow> string" where
  "b64_chunk chunk =
     (let b0 = chunk ! 0;
          b1 = (if 1 < length chunk then chunk ! 1 else 0);
          b2 = (if 2 < length chunk then chunk ! 2 else 0);
          n = (push_bit 16 (ucast b0) OR push_bit 8 (ucast b1) OR ucast b2 :: 32 word) in
      [b64_table ! unat (drop_bit 18 n AND 63), b64_table ! unat (drop_bit 12 n AND 63)] @
      (if 1 < length chunk then [b64_table ! unat (drop_bit 6 n AND 63)] else []) @
      (if 2 < length chunk then [b64_table ! unat (n AND 63)] else []))"

function b64_encode :: "bytes \<Rightarrow> string" where
  "b64_encode [] = []"
| "b64_encode (x # xs) = b64_chunk (take 3 (x # xs)) @ b64_encode (drop 3 (x # xs))"
  by pat_completeness auto
termination
  by (relation "measure length") auto

subsection \<open>The alphabet\<close>

lemma b64_codes: "map char_code b64_table = [65..<91] @ [97..<123] @ [48..<58] @ [45, 95]"
  by (simp add: b64_table_def char_code_def)

lemma length_b64_table: "length b64_table = 64"
  by (simp add: b64_table_def)

lemma b64_code:
  assumes "n < 64"
  shows "char_code (b64_table ! n) =
    (if n < 26 then 65 + n else if n < 52 then 71 + n else if n < 62 then n - 4
     else if n = 62 then 45 else 95)"
proof -
  have "char_code (b64_table ! n) = map char_code b64_table ! n"
    using assms by (simp add: length_b64_table)
  also have "\<dots> = ([65..<91] @ [97..<123] @ [48..<58] @ [45, 95]) ! n"
    by (simp only: b64_codes)
  finally show ?thesis using assms by (auto simp: nth_append nth_Cons' simp del: upt_rec_numeral)
qed

lemma char_code_inj: "char_code c = char_code d \<Longrightarrow> c = d"
  unfolding char_code_def by (metis char_of_char)

lemma b64_val_table: "n < 64 \<Longrightarrow> b64_val (b64_table ! n) = Some n"
  by (auto simp: b64_val_def b64_code Let_def)

lemma b64_table_not_pad: "n < 64 \<Longrightarrow> b64_table ! n \<noteq> CHR ''=''"
proof
  assume n: "n < 64" and "b64_table ! n = CHR ''=''"
  then have "char_code (b64_table ! n) = 61" by (simp add: char_code_def)
  with b64_code [OF n] n show False by (auto split: if_splits)
qed

lemma b64_val_Some:
  assumes "b64_val c = Some v"
  shows "v < 64" and "b64_table ! v = c"
proof -
  show v: "v < 64" using assms by (auto simp: b64_val_def Let_def split: if_splits)
  show "b64_table ! v = c"
    using assms by (intro char_code_inj) (auto simp: b64_code [OF v] b64_val_def Let_def split: if_splits)
qed

subsection \<open>Positional values\<close>

fun horner :: "nat \<Rightarrow> nat list \<Rightarrow> nat" where
  "horner b [] = 0"
| "horner b (d # ds) = d * b ^ length ds + horner b ds"

lemma horner_append: "horner b (xs @ ys) = horner b xs * b ^ length ys + horner b ys"
  by (induction xs) (auto simp: algebra_simps power_add)

lemma horner_lt: "\<forall>d \<in> set ds. d < b \<Longrightarrow> horner b ds < b ^ length ds"
proof (induction ds)
  case (Cons d ds)
  then have "horner b ds < b ^ length ds" and "d + 1 \<le> b" by simp_all
  then have "d * b ^ length ds + horner b ds < (d + 1) * b ^ length ds" by (simp add: algebra_simps)
  also have "\<dots> \<le> b * b ^ length ds" using \<open>d + 1 \<le> b\<close> by (rule mult_le_mono1)
  finally show ?case by simp
qed simp

lemma div_digit: "r < B \<Longrightarrow> (x * B + r) div B = (x::nat)"
  by (cases "B = 0") (simp_all add: div_add1_eq)

lemma horner_inj:
  assumes "length xs = length ys" and "\<forall>d \<in> set xs. d < b" and "\<forall>d \<in> set ys. d < b"
    and "horner b xs = horner b ys"
  shows "xs = ys"
  using assms
proof (induction xs ys rule: list_induct2)
  case (Cons x xs y ys)
  then have lt: "horner b xs < b ^ length ys" "horner b ys < b ^ length ys"
    using horner_lt [of xs b] horner_lt [of ys b] by simp_all
  have eq: "x * b ^ length ys + horner b xs = y * b ^ length ys + horner b ys"
    using Cons by simp
  then have "(x * b ^ length ys + horner b xs) div b ^ length ys
      = (y * b ^ length ys + horner b ys) div b ^ length ys" by simp
  then have "x = y" by (simp only: div_digit [OF lt(1)] div_digit [OF lt(2)])
  with eq have "horner b xs = horner b ys" by simp
  with Cons \<open>x = y\<close> show ?case by simp
qed simp

abbreviation sextets :: "string \<Rightarrow> nat list" where
  "sextets s \<equiv> map (\<lambda>c. the (b64_val c)) s"

definition b64_ok :: "string \<Rightarrow> bool" where
  "b64_ok s \<longleftrightarrow> (\<forall>c \<in> set s. b64_val c \<noteq> None)"

lemma sextets_lt: "b64_ok s \<Longrightarrow> d \<in> set (sextets s) \<Longrightarrow> d < 64"
  by (fastforce simp: b64_ok_def dest: b64_val_Some(1))

lemma sextets_inj: "b64_ok s \<Longrightarrow> b64_ok t \<Longrightarrow> sextets s = sextets t \<Longrightarrow> s = t"
proof (induction s arbitrary: t)
  case (Cons c s)
  then obtain d u where t: "t = d # u" by (cases t) auto
  with Cons.prems obtain v w where vw: "b64_val c = Some v" "b64_val d = Some w"
    by (auto simp: b64_ok_def)
  with Cons.prems t have "v = w" by simp
  with b64_val_Some(2) [OF vw(1)] b64_val_Some(2) [OF vw(2)] have "c = d" by simp
  with Cons t show ?case by (simp add: b64_ok_def)
qed simp

abbreviation octets :: "bytes \<Rightarrow> nat list" where
  "octets bs \<equiv> map unat bs"

lemma octets_lt: "d \<in> set (octets bs) \<Longrightarrow> d < 256"
  using unsigned_less [where 'a = nat and 'b = 8] by auto

lemma octets_inj: "octets xs = octets ys \<Longrightarrow> xs = ys"
  by (metis (no_types, lifting) list.inj_map_strong word_unat_eq_iff)

subsection \<open>The decoder's loop keeps the value\<close>

text \<open>One round on \<open>nat\<close>: the pending bits are \<open>unat acc mod 2 ^ bits\<close>.\<close>

lemma acc_shift:
  fixes acc :: "32 word"
  assumes "v < 64"
  shows "unat (push_bit 6 acc OR word_of_nat v) = (unat acc * 64 + v) mod 2 ^ 32"
proof -
  have "push_bit 6 acc AND (word_of_nat v :: 32 word) = 0"
  proof (rule bit_word_eqI)
    fix n assume "n < LENGTH(32)"
    show "bit (push_bit 6 acc AND (word_of_nat v :: 32 word)) n = bit (0 :: 32 word) n"
    proof (cases "n < 6")
      case True
      then show ?thesis by (simp add: bit_simps)
    next
      case False
      then have "(64::nat) \<le> 2 ^ n" using power_increasing [of 6 n "2::nat"] by simp
      with assms have "\<not> bit v n" by (simp add: bit_iff_odd)
      then show ?thesis by (simp add: bit_simps)
    qed
  qed
  then have "push_bit 6 acc OR word_of_nat v = push_bit 6 acc + word_of_nat v"
    by (simp add: disjunctive_add_eq_or)
  also have "\<dots> = word_of_nat (unat acc * 64 + v)"
    by (simp add: push_bit_eq_mult)
  finally have "push_bit 6 acc OR word_of_nat v = (word_of_nat (unat acc * 64 + v) :: 32 word)" .
  then show ?thesis by (simp only: unat_of_nat) simp
qed

text \<open>Low bits of a 32-bit word, as remainders.\<close>

lemma low_bits:
  fixes w :: "32 word"
  assumes "k \<le> 32"
  shows "(n mod 2 ^ 32) mod 2 ^ k = (n::nat) mod 2 ^ k"
  by (rule mod_mod_cancel) (rule le_imp_power_dvd [OF assms])

lemma mod_shift_add: "((p::nat) * 64 + v) mod (M * 64) = ((p mod M) * 64 + v) mod (M * 64)"
  by (metis mod_add_left_eq mult_mod_left)

lemma and_63: "unat ((w::32 word) AND 63) = unat w mod 64"
proof -
  have "w AND 63 = take_bit 6 w" by (simp add: take_bit_eq_mask mask_eq_exp_minus_1)
  then have "unat (w AND 63) = take_bit 6 (unat w)" by (simp only: unsigned_take_bit_eq)
  then show ?thesis by (simp add: take_bit_eq_mod)
qed

lemma and_255: "unat (ucast ((w::32 word) AND 0xff) :: 8 word) = unat w mod 256"
proof -
  have "w AND 0xff = take_bit 8 w" by (simp add: take_bit_eq_mask mask_eq_exp_minus_1)
  then have "unat (ucast (w AND 0xff) :: 8 word) = take_bit 8 (take_bit 8 (unat w))"
    by (simp only: unsigned_take_bit_eq unsigned_ucast_eq) simp
  then show ?thesis by (simp add: take_bit_eq_mod)
qed

lemma unat_shr: "unat (drop_bit k (w::32 word)) = unat w div 2 ^ k"
  by (rule trans [OF unat_drop_bit_eq drop_bit_eq_div])

text \<open>The byte one round emits and the bits it leaves pending.\<close>

lemma emitted_byte:
  fixes acc :: "32 word"
  assumes "k \<in> {0, 2, 4}" and v: "v < 64"
  defines "f \<equiv> (unat acc mod 2 ^ (k + 2)) * 64 + v"
  defines "acc1 \<equiv> push_bit 6 acc OR word_of_nat v :: 32 word"
  shows "unat (ucast (drop_bit k acc1 AND 0xff) :: 8 word) = f div 2 ^ k"
    and "unat acc1 mod 2 ^ k = f mod 2 ^ k"
proof -
  have "f < 2 ^ (k + 2) * 64"
  proof -
    have "unat acc mod 2 ^ (k + 2) < 2 ^ (k + 2)" by simp
    with v show ?thesis unfolding f_def by linarith
  qed
  then have f: "f < 2 ^ k * 256" by (simp add: power_add)
  have acc1: "unat acc1 mod 2 ^ (k + 8) = f"
  proof -
    have "unat acc1 mod 2 ^ (k + 8) = (unat acc * 64 + v) mod 2 ^ (k + 8)"
      unfolding acc1_def acc_shift [OF v] using assms(1) by (intro low_bits) auto
    also have "\<dots> = (unat acc * 64 + v) mod (2 ^ (k + 2) * 64)"
      by (simp add: power_add mult.commute)
    also have "\<dots> = f mod (2 ^ (k + 2) * 64)" unfolding f_def by (rule mod_shift_add)
    also have "\<dots> = f" using f by (simp add: power_add)
    finally show ?thesis .
  qed
  have "unat (ucast (drop_bit k acc1 AND 0xff) :: 8 word) = unat acc1 div 2 ^ k mod 2 ^ 8"
    by (simp add: and_255 unat_shr)
  also have "\<dots> = unat acc1 mod 2 ^ (k + 8) div 2 ^ k"
    by (rule div_exp_mod_exp_eq)
  finally show "unat (ucast (drop_bit k acc1 AND 0xff) :: 8 word) = f div 2 ^ k"
    by (simp only: acc1)
  have "unat acc1 mod 2 ^ k = unat acc1 mod 2 ^ (k + 8) mod 2 ^ k"
    by (simp add: mod_mod_cancel power_add)
  then show "unat acc1 mod 2 ^ k = f mod 2 ^ k" by (simp only: acc1)
qed

lemma b64_loop_None: "b64_loop s acc bits out = None \<longleftrightarrow> \<not> b64_ok s"
  by (induction s arbitrary: acc bits out) (auto simp: b64_ok_def Let_def split: option.splits)

lemma emitted_value:
  fixes f :: nat
  assumes "unat b = f div 2 ^ k" and "6 * n + k = 8 * length bs + bits'"
    and "horner 256 (octets bs) * 2 ^ bits' + r = (f mod 2 ^ k) * 64 ^ n + h"
  shows "horner 256 (octets (b # bs)) * 2 ^ bits' + r = f * 64 ^ n + h"
proof -
  have "(256::nat) ^ length bs * 2 ^ bits' = 2 ^ (8 * length bs + bits')"
    by (simp add: power_add power_mult)
  also have "\<dots> = 2 ^ (6 * n + k)" by (simp only: assms(2))
  also have "\<dots> = 2 ^ k * 64 ^ n" by (simp add: power_add power_mult)
  finally have pow: "(256::nat) ^ length bs * 2 ^ bits' = 2 ^ k * 64 ^ n" .
  have "horner 256 (octets (b # bs)) * 2 ^ bits' + r
      = unat b * (256 ^ length bs * 2 ^ bits') + (horner 256 (octets bs) * 2 ^ bits' + r)"
    by (simp add: algebra_simps)
  also have "\<dots> = (f div 2 ^ k) * (2 ^ k * 64 ^ n) + ((f mod 2 ^ k) * 64 ^ n + h)"
    by (simp only: pow assms(1,3))
  also have "\<dots> = (f div 2 ^ k * 2 ^ k + f mod 2 ^ k) * 64 ^ n + h"
    by (simp only: algebra_simps)
  finally show ?thesis by (simp only: div_mult_mod_eq)
qed

lemma b64_loop_value:
  assumes "b64_loop s acc bits out = Some (acc', bits', out')" and "bits \<in> {0, 2, 4, 6}"
  shows "bits' \<in> {0, 2, 4, 6} \<and> (\<exists>bs. out' = out @ bs \<and>
    6 * length s + bits = 8 * length bs + bits' \<and>
    horner 256 (octets bs) * 2 ^ bits' + unat acc' mod 2 ^ bits'
      = (unat acc mod 2 ^ bits) * 64 ^ length s + horner 64 (sextets s))"
  using assms
proof (induction s arbitrary: acc bits out)
  case Nil
  then show ?case by simp
next
  case (Cons c s)
  then obtain v where v: "b64_val c = Some v" by (cases "b64_val c") auto
  then have v64: "v < 64" by (rule b64_val_Some)
  let ?acc = "push_bit 6 acc OR word_of_nat v :: 32 word"
  show ?case
  proof (cases "bits = 0")
    case True
    have "unat ?acc mod 2 ^ 6 = (unat acc * 64 + v) mod 2 ^ 6"
      unfolding acc_shift [OF v64] by (rule low_bits) simp
    also have "\<dots> = v" using v64 by simp
    finally have acc: "unat ?acc mod 2 ^ 6 = v" .
    have "b64_loop s ?acc 6 out = Some (acc', bits', out')"
      using Cons.prems(1) v True by simp
    from Cons.IH [OF this] acc v True show ?thesis by (auto simp: add.commute)
  next
    case False
    define k where "k = bits - 2"
    have k: "k \<in> {0, 2, 4}" "bits = k + 2" using Cons.prems(2) False by (auto simp: k_def)
    let ?f = "(unat acc mod 2 ^ bits) * 64 + v"
    let ?b = "ucast (drop_bit k ?acc AND 0xff) :: 8 word"
    have b: "unat ?b = ?f div 2 ^ k" and pend: "unat ?acc mod 2 ^ k = ?f mod 2 ^ k"
      using emitted_byte [OF k(1) v64, of acc] k(2) by simp_all
    have "b64_loop s ?acc k (out @ [?b]) = Some (acc', bits', out')"
      using Cons.prems(1) v k by simp
    from Cons.IH [OF this] k(1) obtain bs where bs: "bits' \<in> {0, 2, 4, 6}"
      "out' = (out @ [?b]) @ bs" "6 * length s + k = 8 * length bs + bits'"
      "horner 256 (octets bs) * 2 ^ bits' + unat acc' mod 2 ^ bits'
        = (?f mod 2 ^ k) * 64 ^ length s + horner 64 (sextets s)"
      using pend by auto
    from emitted_value [OF b bs(3,4)] show ?thesis
      using bs(1-3) k(2) v by (intro conjI exI [of _ "?b # bs"]) (simp_all add: algebra_simps)
  qed
qed

subsection \<open>The encoder's value\<close>

lemma bit_byte: "bit (w :: 8 word) n \<Longrightarrow> n < 8"
  using bit_imp_le_length [of w n] by simp

lemma chunk_word:
  fixes b0 b1 b2 :: "8 word"
  shows "unat (push_bit 16 (ucast b0) OR push_bit 8 (ucast b1) OR ucast b2 :: 32 word)
    = unat b0 * 65536 + unat b1 * 256 + unat b2"
proof -
  let ?w0 = "push_bit 16 (ucast b0) :: 32 word" and ?w1 = "push_bit 8 (ucast b1) :: 32 word"
  let ?w2 = "ucast b2 :: 32 word"
  have "?w1 AND ?w2 = 0" and "?w0 AND (?w1 OR ?w2) = 0"
    by (rule bit_word_eqI, auto simp: bit_simps dest!: bit_byte)+
  then have "?w0 OR (?w1 OR ?w2) = ?w0 + (?w1 + ?w2)"
    by (simp add: disjunctive_add_eq_or)
  also have "\<dots> = word_of_nat (unat b0 * 65536 + unat b1 * 256 + unat b2)"
    by (simp add: push_bit_eq_mult)
  finally have "?w0 OR ?w1 OR ?w2 = (word_of_nat (unat b0 * 65536 + unat b1 * 256 + unat b2) :: 32 word)"
    by (simp only: or.assoc)
  then have "unat (?w0 OR ?w1 OR ?w2) = (unat b0 * 65536 + unat b1 * 256 + unat b2) mod 2 ^ 32"
    by (simp only: unat_of_nat) simp
  moreover have "unat b0 < 256" "unat b1 < 256" "unat b2 < 256"
    using unsigned_less [where 'a = nat and 'b = 8] by auto
  ultimately show ?thesis by simp
qed

text \<open>The encoding of a chunk: 2, 3 or 4 digits of the chunk's number to base 64.\<close>

definition chunk_num :: "bytes \<Rightarrow> nat" where
  "chunk_num chunk = unat (chunk ! 0) * 65536 +
     (if 1 < length chunk then unat (chunk ! 1) else 0) * 256 +
     (if 2 < length chunk then unat (chunk ! 2) else 0)"

lemma b64_chunk_digits:
  "b64_chunk chunk =
     [b64_table ! (chunk_num chunk div 2 ^ 18 mod 64), b64_table ! (chunk_num chunk div 2 ^ 12 mod 64)] @
     (if 1 < length chunk then [b64_table ! (chunk_num chunk div 2 ^ 6 mod 64)] else []) @
     (if 2 < length chunk then [b64_table ! (chunk_num chunk mod 64)] else [])"
proof -
  let ?b1 = "if 1 < length chunk then chunk ! 1 else 0"
  let ?b2 = "if 2 < length chunk then chunk ! 2 else 0"
  have "unat (push_bit 16 (ucast (chunk ! 0)) OR push_bit 8 (ucast ?b1) OR ucast ?b2 :: 32 word)
      = chunk_num chunk"
    by (simp only: chunk_word) (simp add: chunk_num_def)
  then show ?thesis
    unfolding b64_chunk_def Let_def by (simp only: and_63 unat_shr)
qed

lemma b64_chunk_ok: "b64_ok (b64_chunk chunk)" "CHR ''='' \<notin> set (b64_chunk chunk)"
proof -
  have "b64_table ! (n mod 64) \<noteq> CHR ''=''" for n by (rule b64_table_not_pad) simp
  then show "CHR ''='' \<notin> set (b64_chunk chunk)"
    unfolding b64_chunk_digits by (auto simp: eq_commute [of "CHR ''=''"])
  show "b64_ok (b64_chunk chunk)"
    unfolding b64_chunk_digits by (auto simp: b64_ok_def b64_val_table)
qed

lemma sextets_chunk:
  "sextets (b64_chunk chunk) =
     [chunk_num chunk div 2 ^ 18 mod 64, chunk_num chunk div 2 ^ 12 mod 64] @
     (if 1 < length chunk then [chunk_num chunk div 2 ^ 6 mod 64] else []) @
     (if 2 < length chunk then [chunk_num chunk mod 64] else [])"
  unfolding b64_chunk_digits by (simp add: b64_val_table)

text \<open>The first digits of a number below \<open>2 ^ 24\<close> are the number without its last bits.\<close>

lemma digit_step: "(m div 64) * 64 + m mod 64 = (m::nat)"
  by (rule div_mult_mod_eq)

lemma leading_digits:
  assumes "(n::nat) < 2 ^ 24"
  shows "(n div 2 ^ 18 mod 64) * 64 + n div 2 ^ 12 mod 64 = n div 2 ^ 12"
    and "(n div 2 ^ 12) * 64 + n div 2 ^ 6 mod 64 = n div 2 ^ 6"
    and "(n div 2 ^ 6) * 64 + n mod 64 = n"
proof -
  have "n div 2 ^ 18 < 64" using assms by (simp add: less_mult_imp_div_less)
  then have "n div 2 ^ 18 mod 64 = n div 2 ^ 12 div 64"
    by (simp add: div_mult2_eq [symmetric])
  then show "(n div 2 ^ 18 mod 64) * 64 + n div 2 ^ 12 mod 64 = n div 2 ^ 12"
    by (simp only: digit_step)
  have "n div 2 ^ 12 = n div 2 ^ 6 div 64" by (simp add: div_mult2_eq [symmetric])
  then show "(n div 2 ^ 12) * 64 + n div 2 ^ 6 mod 64 = n div 2 ^ 6"
    by (simp only: digit_step)
  have "n div 2 ^ 6 = n div 64" by simp
  then show "(n div 2 ^ 6) * 64 + n mod 64 = n" by (simp only: digit_step)
qed

lemma horner_digits:
  "horner 64 [x, y] = x * 64 + y"
  "horner 64 [x, y, z] = (x * 64 + y) * 64 + z"
  "horner 64 [x, y, z, w] = ((x * 64 + y) * 64 + z) * 64 + w"
  by simp_all

lemma chunk_num_simps:
  "chunk_num [a] = unat a * 65536"
  "chunk_num [a, b] = unat a * 65536 + unat b * 256"
  "chunk_num [a, b, c] = unat a * 65536 + unat b * 256 + unat c"
  by (simp_all add: chunk_num_def)

lemma sextets_chunk_value:
  "horner 64 (sextets (b64_chunk [a])) = unat a * 2 ^ 4"
  "horner 64 (sextets (b64_chunk [a, b])) = (unat a * 256 + unat b) * 2 ^ 2"
  "horner 64 (sextets (b64_chunk [a, b, c])) = unat a * 65536 + unat b * 256 + unat c"
proof -
  have lt: "unat a < 256" "unat b < 256" "unat c < 256"
    using unsigned_less [where 'a = nat and 'b = 8] by auto
  have n: "chunk_num [a] < 2 ^ 24" "chunk_num [a, b] < 2 ^ 24" "chunk_num [a, b, c] < 2 ^ 24"
    using lt by (simp_all add: chunk_num_simps)
  have "horner 64 (sextets (b64_chunk [a])) = chunk_num [a] div 2 ^ 12"
    unfolding sextets_chunk by (simp add: horner_digits leading_digits [OF n(1), simplified]
        del: horner.simps)
  then show "horner 64 (sextets (b64_chunk [a])) = unat a * 2 ^ 4" by (simp add: chunk_num_simps)
  have "horner 64 (sextets (b64_chunk [a, b])) = chunk_num [a, b] div 2 ^ 6"
    unfolding sextets_chunk by (simp add: horner_digits leading_digits [OF n(2), simplified]
        del: horner.simps)
  then show "horner 64 (sextets (b64_chunk [a, b])) = (unat a * 256 + unat b) * 2 ^ 2"
    by (simp add: chunk_num_simps)
  have "horner 64 (sextets (b64_chunk [a, b, c])) = chunk_num [a, b, c]"
    unfolding sextets_chunk by (simp add: horner_digits leading_digits [OF n(3), simplified]
        del: horner.simps)
  then show "horner 64 (sextets (b64_chunk [a, b, c])) = unat a * 65536 + unat b * 256 + unat c"
    by (simp add: chunk_num_simps)
qed

lemma b64_encode_value:
  "b64_ok (b64_encode bs) \<and> CHR ''='' \<notin> set (b64_encode bs) \<and>
   (\<exists>pad \<in> {0, 2, 4}. 6 * length (b64_encode bs) = 8 * length bs + pad \<and>
      horner 64 (sextets (b64_encode bs)) = horner 256 (octets bs) * 2 ^ pad)"
proof (induction bs rule: b64_encode.induct)
  case 1
  then show ?case by (simp add: b64_ok_def)
next
  case (2 x xs)
  have tail: "drop 3 (x # xs) = drop 2 xs" by simp
  obtain pad where pad: "pad \<in> {0, 2, 4}"
    "6 * length (b64_encode (drop 2 xs)) = 8 * length (drop 2 xs) + pad"
    "horner 64 (sextets (b64_encode (drop 2 xs))) = horner 256 (octets (drop 2 xs)) * 2 ^ pad"
    using 2 unfolding tail by blast
  let ?e = "b64_encode (drop 2 xs)"
  have alphabet: "b64_ok (b64_encode (x # xs)) \<and> CHR ''='' \<notin> set (b64_encode (x # xs))"
    using 2 b64_chunk_ok [of "take 3 (x # xs)"] by (auto simp: b64_ok_def)
  have enc: "b64_encode (x # xs) = b64_chunk (take 3 (x # xs)) @ ?e" by simp
  have len: "length (b64_chunk c) = 2 + (if 1 < length c then 1 else 0) + (if 2 < length c then 1 else 0)"
    for c by (simp add: b64_chunk_digits)
  consider (one) "xs = []" | (two) y where "xs = [y]" | (three) y z ws where "xs = y # z # ws"
    by (metis list.exhaust)
  then show ?case
  proof cases
    case one
    then show ?thesis
      using alphabet by (intro conjI bexI [of _ 4]) (simp_all add: len sextets_chunk_value)
  next
    case two
    then show ?thesis
      using alphabet by (intro conjI bexI [of _ 2]) (simp_all add: len sextets_chunk_value)
  next
    case three
    have "(64::nat) ^ length ?e = 2 ^ (6 * length ?e)" by (simp add: power_mult)
    also have "\<dots> = 2 ^ (8 * length ws + pad)" using pad(2) three by simp
    also have "\<dots> = 256 ^ length ws * 2 ^ pad" by (simp add: power_add power_mult)
    finally have pow: "(64::nat) ^ length ?e = 256 ^ length ws * 2 ^ pad" .
    have "horner 64 (sextets (b64_encode (x # xs)))
        = horner 64 (sextets (b64_chunk [x, y, z])) * 64 ^ length ?e + horner 64 (sextets ?e)"
      unfolding enc using three by (simp add: horner_append numeral_3_eq_3)
    also have "\<dots> = horner 256 (octets (x # xs)) * 2 ^ pad"
      unfolding sextets_chunk_value pow pad(3) using three by (simp add: algebra_simps)
    finally show ?thesis
      using alphabet pad(1,2) three by (intro conjI bexI [of _ pad]) (simp_all add: len)
  qed
qed

lemma low_mask_zero: "(acc :: 32 word) AND (2 ^ bits - 1) = 0 \<longleftrightarrow> unat acc mod 2 ^ bits = 0"
proof -
  have "acc AND (2 ^ bits - 1) = take_bit bits acc"
    by (simp only: take_bit_eq_mask mask_eq_exp_minus_1)
  moreover have "unat (take_bit bits acc) = unat acc mod 2 ^ bits"
    by (simp only: unsigned_take_bit_eq) (rule take_bit_eq_mod)
  ultimately show ?thesis by (simp only: unat_eq_0 [symmetric])
qed

lemma b64_decode_encode: "b64_decode (b64_encode bs) = Some bs"
proof -
  let ?e = "b64_encode bs"
  obtain pad where ok: "b64_ok ?e" "CHR ''='' \<notin> set ?e" and pad: "pad \<in> {0, 2, 4}"
    "6 * length ?e = 8 * length bs + pad"
    "horner 64 (sextets ?e) = horner 256 (octets bs) * 2 ^ pad"
    using b64_encode_value [of bs] by blast
  obtain acc bits out where loop: "b64_loop ?e 0 0 [] = Some (acc, bits, out)"
    using b64_loop_None [of ?e 0 0 "[]"] ok(1) by (cases "b64_loop ?e 0 0 []") auto
  from b64_loop_value [OF loop] have bits: "bits \<in> {0, 2, 4, 6}"
    "6 * length ?e = 8 * length out + bits"
    "horner 256 (octets out) * 2 ^ bits + unat acc mod 2 ^ bits = horner 64 (sextets ?e)"
    by auto
  have same: "bits = pad" "length out = length bs"
    using bits(1,2) pad(1,2) by (auto; presburger)+
  have eq: "horner 256 (octets out) * 2 ^ pad + unat acc mod 2 ^ pad = horner 256 (octets bs) * 2 ^ pad + 0"
    using bits(3) pad(3) same(1) by simp
  have "(horner 256 (octets out) * 2 ^ pad + unat acc mod 2 ^ pad) div 2 ^ pad = horner 256 (octets out)"
    by (rule div_digit) simp
  moreover have "(horner 256 (octets bs) * 2 ^ pad + 0) div 2 ^ pad = horner 256 (octets bs)"
    by (rule div_digit) simp
  ultimately have same_value: "horner 256 (octets out) = horner 256 (octets bs)" using eq by simp
  then have "octets out = octets bs"
    using same(2) octets_lt by (intro horner_inj [of _ _ 256]) auto
  then have "out = bs" by (rule octets_inj)
  moreover have "unat acc mod 2 ^ pad = 0" using eq same_value by simp
  ultimately show ?thesis
    using loop ok(2) same(1) pad(1)
    by (auto simp: b64_decode_def trim_end_matches_id low_mask_zero push_bit_of_1)
qed

lemma b64_encode_decode:
  assumes "b64_decode s = Some bs"
  shows "b64_encode bs = trim_end_matches CHR ''='' s"
proof -
  let ?t = "trim_end_matches CHR ''='' s" and ?e = "b64_encode bs"
  obtain acc bits where loop: "b64_loop ?t 0 0 [] = Some (acc, bits, bs)"
    and bits6: "bits < 6" and zero: "unat acc mod 2 ^ bits = 0"
    using assms by (auto simp: b64_decode_def low_mask_zero push_bit_of_1
        split: option.splits if_splits)
  from b64_loop_value [OF loop] have bits: "bits \<in> {0, 2, 4, 6}"
    "6 * length ?t = 8 * length bs + bits"
    "horner 256 (octets bs) * 2 ^ bits = horner 64 (sextets ?t)"
    using zero by auto
  have okt: "b64_ok ?t" using loop b64_loop_None [of ?t 0 0 "[]"] by auto
  obtain pad where oke: "b64_ok ?e" and pad: "pad \<in> {0, 2, 4}"
    "6 * length ?e = 8 * length bs + pad"
    "horner 64 (sextets ?e) = horner 256 (octets bs) * 2 ^ pad"
    using b64_encode_value [of bs] by blast
  have same: "pad = bits" "length ?e = length ?t"
    using bits(1,2) bits6 pad(1,2) by (auto; presburger)+
  have "sextets ?e = sextets ?t"
    using same bits(3) pad(3) sextets_lt [OF oke] sextets_lt [OF okt]
    by (intro horner_inj [of _ _ 64]) auto
  with oke okt show ?thesis by (rule sextets_inj)
qed

subsection \<open>The codec's contract\<close>

locale codec =
  fixes enc :: "'a \<Rightarrow> 'b" and dec :: "'b \<Rightarrow> 'a option"
  assumes dec_enc: "dec (enc x) = Some x"
begin

lemma enc_inj: "enc x = enc y \<longleftrightarrow> x = y"
  by (metis dec_enc option.inject)

end

locale canonical_codec = codec +
  fixes norm :: "'b \<Rightarrow> 'b"
  assumes enc_dec: "dec y = Some x \<Longrightarrow> enc x = norm y"
    and norm_enc: "norm (enc x) = enc x"
    and dec_norm: "dec (norm y) = dec y"
begin

lemma dec_iff: "dec y = Some x \<longleftrightarrow> norm y = enc x"
  by (metis dec_enc dec_norm enc_dec)

lemma dec_same: "dec y = Some x \<Longrightarrow> dec z = Some x \<Longrightarrow> norm y = norm z"
  by (simp add: dec_iff)

end

lemma trim_end_matches_idem: "trim_end_matches c (trim_end_matches c s) = trim_end_matches c s"
  by (simp add: trim_end_matches_def dropWhile_idem)

interpretation b64: canonical_codec b64_encode b64_decode "trim_end_matches CHR ''=''"
proof
  show "b64_decode (b64_encode bs) = Some bs" for bs by (rule b64_decode_encode)
  show "b64_encode bs = trim_end_matches CHR ''='' s" if "b64_decode s = Some bs" for s bs
    using that by (rule b64_encode_decode)
  show "trim_end_matches CHR ''='' (b64_encode bs) = b64_encode bs" for bs
    using b64_encode_value [of bs] by (simp add: trim_end_matches_id)
  show "b64_decode (trim_end_matches CHR ''='' s) = b64_decode s" for s
    by (simp add: b64_decode_def trim_end_matches_idem)
qed

lemma length_b64_encode: "length (b64_encode bs) = div_ceil (4 * length bs) 3"
proof -
  obtain pad where "pad \<in> {0, 2, 4}" and "6 * length (b64_encode bs) = 8 * length bs + pad"
    using b64_encode_value [of bs] by blast
  then have "3 * length (b64_encode bs) = 4 * length bs + pad div 2" and "pad div 2 \<in> {0, 1, 2}"
    by auto
  then show ?thesis unfolding div_ceil_def by auto presburger+
qed

subsection \<open>Properties\<close>

text \<open>
  Round trip of the base64 codec: what \<open>b64_encode\<close> writes, \<open>b64_decode\<close> reads back to
  the same bytes, for every byte string, so a redeemer receives exactly the bundle and the
  signature that were published.
\<close>

lemma b64_roundtrip: "b64_decode (b64_encode bs) = Some bs"
  by (rule b64.dec_enc)

text \<open>
  C36: \<open>b64_decode\<close> is canonical: it accepts a string exactly when the string, without its
  trailing padding characters, is the encoding of the bytes it returns. Nonzero leftover
  bits, a dangling character and characters outside the alphabet are refused.
\<close>

theorem b64_decode_canonical:
  "b64_decode s = Some bs \<longleftrightarrow> trim_end_matches CHR ''='' s = b64_encode bs"
  by (rule b64.dec_iff)

end
