(* ===== verification/App.thy ===== *)
theory App imports Store_Open Rate_Limit Credentials Base64 begin

text \<open>
  The application state of \<open>src/lib.rs\<close> and the pieces its handlers share: the state record
  and its constructor, the log events, the responses, the monad in which the handlers are
  written, the call into the store, and the retention sweep with its pruning of rate buckets.

  A handler threads the state, emits log events and may stop early with a response. What a
  request finds outside the process is an argument: the digest function, the clocks, the
  random bytes of a UUID, the parsed JSON body (\<open>serde_json\<close> is not in the repository) and the
  failures SQLite will report.
\<close>

subsection \<open>State\<close>

record AppState =
  store :: Store
  push_rates :: "(string \<Rightarrow> PushRateBucket option) mutex"
  app_limits :: Limits
  app_controls :: ResourceControls
  relay_token :: "string option"
  app_retention_ttl_secs :: nat
  server_info :: ServerInfoCfg
  invite_limits :: InviteLimits
  invite_create_rate :: "PushRateBucket mutex"

text \<open>The controls of the global bucket of invite creation.\<close>

definition invite_bucket_controls :: "InviteLimits \<Rightarrow> ResourceControls" where
  "invite_bucket_controls il =
     ResourceControls_default\<lparr>push_rate_burst := create_burst il,
       push_rate_refill_per_sec := create_refill_per_sec il\<rparr>"

definition AppState_new_full ::
    "Limits \<Rightarrow> ResourceControls \<Rightarrow> string option \<Rightarrow> StoreConfig \<Rightarrow> ServerInfoCfg \<Rightarrow> InviteLimits
      \<Rightarrow> store_file option \<Rightarrow> faults \<Rightarrow> nat \<Rightarrow> string + AppState" where
  "AppState_new_full lim ctl token store_cfg info il opened fs instant =
     res_bind (retention_ttl_or_error (cfg_retention_ttl_secs store_cfg)) (\<lambda>ttl.
     res_bind (fst (Store_open store_cfg opened fs)) (\<lambda>st.
     Inr \<lparr>store = st, push_rates = Mutex False (\<lambda>_. None), app_limits = lim, app_controls = ctl,
          relay_token = token, app_retention_ttl_secs = ttl, server_info = info,
          invite_limits = il,
          invite_create_rate = Mutex False (bucket_new instant (invite_bucket_controls il))\<rparr>))"

text \<open>The shorter constructors, on the process environment. The ones without a store open
  \<open>:memory:\<close>, an empty file, and unwrap the result: \<open>None\<close> is the panic.\<close>

definition relay_token_from_env :: "environ \<Rightarrow> string option" where
  "relay_token_from_env env = option_filter (\<lambda>v. v \<noteq> []) (env ''RELAY_TOKEN'')"

definition AppState_new_with_auth_controls_store_and_info ::
    "Limits \<Rightarrow> ResourceControls \<Rightarrow> string option \<Rightarrow> StoreConfig \<Rightarrow> ServerInfoCfg
      \<Rightarrow> store_file option \<Rightarrow> faults \<Rightarrow> nat \<Rightarrow> string + AppState" where
  "AppState_new_with_auth_controls_store_and_info lim ctl token store_cfg info opened fs instant =
     AppState_new_full lim ctl token store_cfg info InviteLimits_default opened fs instant"

definition AppState_new_with_auth_controls_and_store ::
    "environ \<Rightarrow> Limits \<Rightarrow> ResourceControls \<Rightarrow> string option \<Rightarrow> StoreConfig
      \<Rightarrow> store_file option \<Rightarrow> faults \<Rightarrow> nat \<Rightarrow> string + AppState" where
  "AppState_new_with_auth_controls_and_store env lim ctl token store_cfg opened fs instant =
     AppState_new_with_auth_controls_store_and_info lim ctl token store_cfg
       (ServerInfoCfg_from_env env) opened fs instant"

definition AppState_new_with_controls_and_store ::
    "environ \<Rightarrow> Limits \<Rightarrow> ResourceControls \<Rightarrow> StoreConfig \<Rightarrow> store_file option \<Rightarrow> faults \<Rightarrow> nat
      \<Rightarrow> string + AppState" where
  "AppState_new_with_controls_and_store env lim ctl store_cfg opened fs instant =
     AppState_new_with_auth_controls_and_store env lim ctl (relay_token_from_env env) store_cfg
       opened fs instant"

definition AppState_new_with_auth_and_controls ::
    "environ \<Rightarrow> Limits \<Rightarrow> ResourceControls \<Rightarrow> string option \<Rightarrow> faults \<Rightarrow> nat \<Rightarrow> AppState option" where
  "AppState_new_with_auth_and_controls env lim ctl token fs instant =
     (case AppState_new_with_auth_controls_and_store env lim ctl token StoreConfig_default
             (Some empty_file) fs instant of
        Inl _ \<Rightarrow> None | Inr st \<Rightarrow> Some st)"

definition AppState_new_with_controls ::
    "environ \<Rightarrow> Limits \<Rightarrow> ResourceControls \<Rightarrow> faults \<Rightarrow> nat \<Rightarrow> AppState option" where
  "AppState_new_with_controls env lim ctl fs instant =
     AppState_new_with_auth_and_controls env lim ctl (relay_token_from_env env) fs instant"

definition AppState_new_with_auth ::
    "environ \<Rightarrow> Limits \<Rightarrow> string option \<Rightarrow> faults \<Rightarrow> nat \<Rightarrow> AppState option" where
  "AppState_new_with_auth env lim token fs instant =
     AppState_new_with_auth_and_controls env lim ResourceControls_default token fs instant"

definition AppState_new :: "environ \<Rightarrow> Limits \<Rightarrow> faults \<Rightarrow> nat \<Rightarrow> AppState option" where
  "AppState_new env lim fs instant = AppState_new_with_auth env lim (relay_token_from_env env) fs instant"

subsection \<open>Log events and responses\<close>

datatype log_event =
  RetentionExpired string nat int
| StoreErrorSweep string
| StoreError string
| InviteRateLimited nat nat
| InviteCreated string int
| InviteCapFull nat nat
| InviteRedeemed string
| InviteRevoked string
| QueueOverloaded nat nat
| RouteCapReached string nat nat
| RateLimited string nat nat
| InviteSlotRejected string
| Pushed string string nat
| Pulled string string nat
| Acknowledged string nat

record InfoDoc =
  doc_version :: string
  doc_name :: string
  doc_api :: "string list"
  doc_auth_mode :: string
  doc_max_body_bytes :: nat
  doc_max_queue_depth :: nat
  doc_max_invite_bundle_bytes :: nat
  doc_max_expiry_secs :: nat
  doc_max_slots :: nat
  doc_ttl_secs :: nat
  doc_service_url :: "string option"
  doc_min_client_version :: "string option"

datatype payload =
  Code string
| NoBody
| PostResp string
| PullResp "StoredMsg list"
| AckResp nat
| InviteCreateResp string
| InviteRedeemResp string string string
| InviteRevokeResp bool
| InfoProbe
| InfoFull InfoDoc

datatype response = Reply (reply_status: nat) (reply_payload: payload)

text \<open>What a request finds outside the process.\<close>

record ambient =
  sys_ns :: int
  mono_ns :: nat
  uuid_bytes :: bytes
  uuid_text :: string
  faults1 :: faults
  faults2 :: faults

text \<open>\<open>duration_since(UNIX_EPOCH).map(|d| d.as_secs() as i64).unwrap_or(0)\<close>\<close>

definition now_unix_secs :: "ambient \<Rightarrow> int" where
  "now_unix_secs amb = (if sys_ns amb < 0 then 0 else usize_as_i64 (nat (sys_ns amb) div ns_per_sec))"

subsection \<open>Handlers\<close>

type_synonym 'a handler = "AppState \<Rightarrow> (response + 'a) \<times> log_event list \<times> AppState"

definition h_return :: "'a \<Rightarrow> 'a handler" where
  "h_return x st = (Inr x, [], st)"

definition h_reply :: "nat \<Rightarrow> payload \<Rightarrow> 'a handler" where
  "h_reply s p st = (Inl (Reply s p), [], st)"

definition h_bind :: "'a handler \<Rightarrow> ('a \<Rightarrow> 'b handler) \<Rightarrow> 'b handler" where
  "h_bind m f st =
     (case m st of
        (Inl r, l, st') \<Rightarrow> (Inl r, l, st')
      | (Inr x, l, st') \<Rightarrow> (case f x st' of (r, l', st'') \<Rightarrow> (r, l @ l', st'')))"

definition h_info :: "log_event \<Rightarrow> unit handler" where
  "h_info e st = (Inr (), [e], st)"

definition h_get :: "(AppState \<Rightarrow> 'a) \<Rightarrow> 'a handler" where
  "h_get f st = (Inr (f st), [], st)"

definition h_guard :: "bool \<Rightarrow> nat \<Rightarrow> string \<Rightarrow> unit handler" where
  "h_guard stop s code = (if stop then h_reply s (Code code) else h_return ())"

lemma h_run:
  "h_return x st = (Inr x, [], st)" "h_reply s p st = (Inl (Reply s p), [], st)"
  "h_info e st = (Inr (), [e], st)" "h_get f st = (Inr (f st), [], st)"
  "m st = (Inl r, l, st') \<Longrightarrow> h_bind m g st = (Inl r, l, st')"
  "m st = (Inr x, l, st') \<Longrightarrow> h_bind m g st = (fst (g x st'), l @ fst (snd (g x st')), snd (snd (g x st')))"
  by (simp_all add: h_return_def h_reply_def h_info_def h_get_def h_bind_def split: prod.split)

text \<open>\<open>run_store\<close>: the store call on the blocking pool; a store error is logged and turned
  into the one public code. (The closures do not panic, so the join succeeds.)\<close>

definition run_store :: "(Store \<Rightarrow> (string + 'a) \<times> Store) \<Rightarrow> AppState \<Rightarrow> (string + 'a) \<times> log_event list \<times> AppState" where
  "run_store f st =
     (case f (store st) of
        (Inr v, s) \<Rightarrow> (Inr v, [], st\<lparr>store := s\<rparr>)
      | (Inl e, s) \<Rightarrow> (Inl ''ERR_STORE'', [StoreError e], st\<lparr>store := s\<rparr>))"

definition h_store :: "(Store \<Rightarrow> (string + 'a) \<times> Store) \<Rightarrow> 'a handler" where
  "h_store f st =
     (case run_store f st of
        (Inr v, l, st') \<Rightarrow> (Inr v, l, st')
      | (Inl code, l, st') \<Rightarrow> (Inl (Reply 500 (Code code)), l, st'))"

subsection \<open>Buckets of routes\<close>

text \<open>Nothing in the relay panics while it holds one of these mutexes; a poisoned one is
  skipped here and answered by the handlers.\<close>

definition update_buckets ::
    "((string \<Rightarrow> PushRateBucket option) \<Rightarrow> (string \<Rightarrow> PushRateBucket option)) \<Rightarrow> AppState \<Rightarrow> AppState" where
  "update_buckets f st =
     (case lock (push_rates st) of
        None \<Rightarrow> st | Some b \<Rightarrow> st\<lparr>push_rates := Mutex False (f b)\<rparr>)"

definition drop_rate_bucket :: "string \<Rightarrow> AppState \<Rightarrow> AppState" where
  "drop_rate_bucket key st = update_buckets (\<lambda>b. b(key := None)) st"

definition log_and_prune_sweep :: "SweepStats \<Rightarrow> AppState \<Rightarrow> log_event list \<times> AppState" where
  "log_and_prune_sweep stats st =
     (map (\<lambda>(lid, n). RetentionExpired lid n (st_retention_ttl_secs (store st))) (expired_routes stats),
      if removed_route_keys stats \<noteq> []
      then update_buckets (\<lambda>b. foldl (\<lambda>b key. b(key := None)) b (removed_route_keys stats)) st
      else st)"

definition h_prune :: "SweepStats \<Rightarrow> unit handler" where
  "h_prune stats st = (case log_and_prune_sweep stats st of (l, st') \<Rightarrow> (Inr (), l, st'))"

definition h_drop_bucket :: "string \<Rightarrow> unit handler" where
  "h_drop_bucket key st = (Inr (), [], drop_rate_bucket key st)"

definition run_retention_sweep :: "ambient \<Rightarrow> AppState \<Rightarrow> SweepStats \<times> log_event list \<times> AppState" where
  "run_retention_sweep amb st =
     (case store_retention_sweep (now_unix_secs amb) (faults1 amb) (store st) of
        (Inr stats, s) \<Rightarrow>
          (case log_and_prune_sweep stats (st\<lparr>store := s\<rparr>) of (l, st') \<Rightarrow> (stats, l, st'))
      | (Inl e, s) \<Rightarrow> (SweepStats_default, [StoreErrorSweep e], st\<lparr>store := s\<rparr>))"

end
