(* ===== verification/Handlers.thy ===== *)
theory Handlers imports App begin

text \<open>
  The seven routes of \<open>app\<close> in \<open>src/lib.rs\<close>, one definition per handler, cut where the handler
  releases the shared state: admission (no shared state), the store call, the rate gate, the
  second store call, the answer. JSON bodies are parsed by a parameter of the handler.
\<close>

subsection \<open>Requests\<close>

record PullQuery =
  query_max :: "nat option"
  query_ack :: "string option"

record InviteCreateReq =
  create_invite_id :: string
  create_cap_hash :: string
  create_expiry :: int
  create_bundle_b64 :: string
  create_sig_b64 :: string

record InviteRedeemReq =
  redeem_invite_id :: string
  redeem_cap :: string

record InviteRevokeReq =
  revoke_invite_id :: string
  revoke_token :: string

subsection \<open>Shared steps\<close>

definition h_auth :: "digest_fun \<Rightarrow> headers \<Rightarrow> unit handler" where
  "h_auth sha headers =
     h_bind (h_get relay_token) (\<lambda>token.
     h_guard (\<not> auth_ok sha headers token) 401 ''ERR_UNAUTHORIZED'')"

definition h_route_token :: "headers \<Rightarrow> string handler" where
  "h_route_token headers =
     (case resolve_route_token headers of
        Inr channel \<Rightarrow> h_return channel | Inl code \<Rightarrow> h_reply 400 (Code code))"

definition h_json :: "(bytes \<Rightarrow> 'a option) \<Rightarrow> bytes \<Rightarrow> string \<Rightarrow> 'a handler" where
  "h_json parse data code =
     (case parse data of Some req \<Rightarrow> h_return req | None \<Rightarrow> h_reply 400 (Code code))"

subsection \<open>\<open>POST /v1/push\<close>\<close>

definition push_admit :: "digest_fun \<Rightarrow> headers \<Rightarrow> bytes \<Rightarrow> string handler" where
  "push_admit sha headers data =
     h_bind (h_auth sha headers) (\<lambda>_.
     h_bind (h_route_token headers) (\<lambda>channel.
     h_bind (h_guard (data = []) 400 ''ERR_EMPTY_BODY'') (\<lambda>_.
     h_bind (h_get app_limits) (\<lambda>lim.
     h_bind (h_guard (max_body_bytes lim < length data) 413 ''ERR_TOO_LARGE'') (\<lambda>_.
     h_return channel)))))"

definition push_msg_id :: "ambient \<Rightarrow> headers \<Rightarrow> string" where
  "push_msg_id amb headers =
     unwrap_or (option_filter (\<lambda>v. \<not> blank v) (header_str headers ''x-msg-id'')) (uuid_text amb)"

definition push_status :: "ambient \<Rightarrow> string \<Rightarrow> string \<Rightarrow> unit handler" where
  "push_status amb key lid =
     h_bind (h_store (store_route_status key (now_unix_secs amb) (faults1 amb))) (\<lambda>status.
     h_bind (h_prune (status_sweep status)) (\<lambda>_.
     h_bind (h_get app_limits) (\<lambda>lim.
     h_bind (h_get app_controls) (\<lambda>ctl.
     if route_exists status \<and> max_queue_depth lim \<le> depth status then
       h_bind (h_info (QueueOverloaded (depth status) (max_queue_depth lim))) (\<lambda>_.
       h_reply 429 (Code ''ERR_OVERLOADED''))
     else if \<not> route_exists status \<and> max_route_count ctl \<le> live_routes status then
       h_bind (h_info (RouteCapReached lid (live_routes status) (max_route_count ctl))) (\<lambda>_.
       h_reply 429 (Code ''ERR_ROUTE_CAP''))
     else h_return ()))))"

definition push_gate :: "ambient \<Rightarrow> string \<Rightarrow> string \<Rightarrow> unit handler" where
  "push_gate amb key lid st =
     (let ctl = app_controls st in
      case lock (push_rates st) of
        None \<Rightarrow> (Inl (Reply 500 (Code ''ERR_LOCK_POISON'')), [], st)
      | Some buckets \<Rightarrow>
          (let bucket = unwrap_or (buckets key) (bucket_new (mono_ns amb) ctl);
               (ok, bucket') = try_consume ctl (mono_ns amb) bucket;
               st' = st\<lparr>push_rates := Mutex False (buckets(key \<mapsto> bucket'))\<rparr> in
           if ok then (Inr (), [], st')
           else
             (Inl (Reply 429 (Code ''ERR_RATE_LIMITED'')),
              [RateLimited lid (push_rate_burst ctl) (push_rate_refill_per_sec ctl)], st')))"

definition push_ticket :: "digest_fun \<Rightarrow> headers \<Rightarrow> (string \<Rightarrow> bool) option" where
  "push_ticket sha headers =
     map_option (\<lambda>t. ct_eq_secret sha (sha256_hex sha t))
       (option_filter (\<lambda>v. v \<noteq> []) (map_option trim (header_str headers INVITE_TICKET_HEADER)))"

definition push_enqueue ::
    "digest_fun \<Rightarrow> ambient \<Rightarrow> headers \<Rightarrow> bytes \<Rightarrow> string \<Rightarrow> string \<Rightarrow> string \<Rightarrow> EnqueueOutcome handler" where
  "push_enqueue sha amb headers data key lid mid =
     h_bind (h_get app_limits) (\<lambda>lim.
     h_bind (h_get app_controls) (\<lambda>ctl.
     h_store (store_enqueue key lid mid data (now_unix_secs amb) (max_queue_depth lim)
       (max_route_count ctl) (push_ticket sha headers) (faults2 amb))))"

definition slot_reply :: "SlotReject \<Rightarrow> response" where
  "slot_reply reason =
     (case reason of
        SlotExpired \<Rightarrow> Reply 410 (Code ''ERR_INVITE_EXPIRED'')
      | SlotRevoked \<Rightarrow> Reply 410 (Code ''ERR_INVITE_REVOKED'')
      | TicketInvalid \<Rightarrow> Reply 403 (Code ''ERR_INVITE_TICKET_INVALID''))"

definition push_answer :: "string \<Rightarrow> string \<Rightarrow> string \<Rightarrow> nat \<Rightarrow> EnqueueOutcome \<Rightarrow> response handler" where
  "push_answer key lid mid len out =
     (case out of
        Accepted \<Rightarrow>
          h_bind (h_info (Pushed lid mid len)) (\<lambda>_. h_return (Reply 200 (PostResp mid)))
      | Overloaded d \<Rightarrow>
          h_bind (h_get app_limits) (\<lambda>lim.
          h_bind (h_info (QueueOverloaded d (max_queue_depth lim))) (\<lambda>_.
          h_reply 429 (Code ''ERR_OVERLOADED'')))
      | RouteCap live \<Rightarrow>
          h_bind (h_get app_controls) (\<lambda>ctl.
          h_bind (h_info (RouteCapReached lid live (max_route_count ctl))) (\<lambda>_.
          h_bind (h_drop_bucket key) (\<lambda>_.
          h_reply 429 (Code ''ERR_ROUTE_CAP''))))
      | SlotRejected reason \<Rightarrow>
          h_bind (h_info (InviteSlotRejected lid)) (\<lambda>_. h_return (slot_reply reason)))"

definition push_message :: "digest_fun \<Rightarrow> ambient \<Rightarrow> headers \<Rightarrow> bytes \<Rightarrow> response handler" where
  "push_message sha amb headers data =
     h_bind (push_admit sha headers data) (\<lambda>channel.
     let mid = push_msg_id amb headers; key = route_key_for sha channel; lid = channel_log_id channel in
     h_bind (push_status amb key lid) (\<lambda>_.
     h_bind (push_gate amb key lid) (\<lambda>_.
     h_bind (push_enqueue sha amb headers data key lid mid) (\<lambda>out.
     push_answer key lid mid (length data) out))))"

subsection \<open>\<open>GET /v1/pull\<close>\<close>

definition pull_admit :: "digest_fun \<Rightarrow> headers \<Rightarrow> PullQuery \<Rightarrow> (string \<times> nat \<times> PullMode) handler" where
  "pull_admit sha headers q =
     h_bind (h_auth sha headers) (\<lambda>_.
     h_bind (h_route_token headers) (\<lambda>channel.
     let mx = unwrap_or (query_max q) 1 in
     h_bind (h_guard (mx = 0) 400 ''ERR_BAD_MAX'') (\<lambda>_.
     h_bind (h_get app_limits) (\<lambda>lim.
     let mx = min mx (max_queue_depth lim) in
     case query_ack q of
       None \<Rightarrow> h_return (channel, mx, Legacy)
     | Some a \<Rightarrow>
         if a = ''lease'' then h_return (channel, mx, Lease)
         else h_reply 400 (Code ''ERR_BAD_ACK_MODE'')))))"

definition pull_store :: "ambient \<Rightarrow> string \<Rightarrow> nat \<Rightarrow> PullMode \<Rightarrow> PullOutcome handler" where
  "pull_store amb key mx mode =
     h_bind (h_get app_limits) (\<lambda>lim.
     let max_bytes = max PULL_BUDGET_BYTES (max_body_bytes lim) in
     h_store (store_pull key mx max_bytes (now_unix_secs amb) mode (faults1 amb)))"

definition pull_answer_items :: "string \<Rightarrow> StoredMsg list \<Rightarrow> response handler" where
  "pull_answer_items lid items st =
     (if items = [] then (Inr (Reply 204 NoBody), [], st)
      else (Inr (Reply 200 (PullResp items)), map (\<lambda>(mid, b). Pulled lid mid (length b)) items, st))"

definition pull_message :: "digest_fun \<Rightarrow> ambient \<Rightarrow> headers \<Rightarrow> PullQuery \<Rightarrow> response handler" where
  "pull_message sha amb headers q =
     h_bind (pull_admit sha headers q) (\<lambda>(channel, mx, mode).
     let key = route_key_for sha channel; lid = channel_log_id channel in
     h_bind (pull_store amb key mx mode) (\<lambda>out.
     h_bind (h_prune (pull_sweep out)) (\<lambda>_.
     h_bind (if pull_drained out then h_drop_bucket key else h_return ()) (\<lambda>_.
     pull_answer_items lid (pull_items out)))))"

subsection \<open>\<open>POST /v1/pull/ack\<close>\<close>

definition ack_messages ::
    "digest_fun \<Rightarrow> (bytes \<Rightarrow> string list option) \<Rightarrow> ambient \<Rightarrow> headers \<Rightarrow> bytes \<Rightarrow> response handler" where
  "ack_messages sha parse amb headers data =
     h_bind (h_auth sha headers) (\<lambda>_.
     h_bind (h_route_token headers) (\<lambda>channel.
     h_bind (h_guard (ACK_BODY_CAP < length data) 413 ''ERR_TOO_LARGE'') (\<lambda>_.
     h_bind (h_json parse data ''ERR_BAD_ACK_BODY'') (\<lambda>ids.
     h_bind (h_guard (ids = [] \<or> MAX_ACK_IDS < length ids) 400 ''ERR_BAD_ACK_IDS'') (\<lambda>_.
     let key = route_key_for sha channel; lid = channel_log_id channel in
     h_bind (h_store (store_ack key ids (now_unix_secs amb) (faults1 amb))) (\<lambda>out.
     h_bind (h_prune (ack_sweep out)) (\<lambda>_.
     h_bind (if ack_drained out then h_drop_bucket key else h_return ()) (\<lambda>_.
     h_bind (h_info (Acknowledged lid (acked out))) (\<lambda>_.
     h_return (Reply 200 (AckResp (acked out))))))))))))"

subsection \<open>\<open>POST /v1/invite/create\<close>\<close>

definition create_gate :: "ambient \<Rightarrow> unit handler" where
  "create_gate amb st =
     (let il = invite_limits st in
      case lock (invite_create_rate st) of
        None \<Rightarrow> (Inl (Reply 500 (Code ''ERR_LOCK_POISON'')), [], st)
      | Some bucket \<Rightarrow>
          (let (ok, bucket') = try_consume (invite_bucket_controls il) (mono_ns amb) bucket;
               st' = st\<lparr>invite_create_rate := Mutex False bucket'\<rparr> in
           if ok then (Inr (), [], st')
           else
             (Inl (Reply 429 (Code ''ERR_RATE_LIMITED'')),
              [InviteRateLimited (create_burst il) (create_refill_per_sec il)], st')))"

text \<open>Validation of a parsed create: the two decoded blobs and the clamped expiry.\<close>

definition create_validate :: "ambient \<Rightarrow> InviteCreateReq \<Rightarrow> (bytes \<times> bytes \<times> int) handler" where
  "create_validate amb req =
     h_bind (h_guard (blank (create_invite_id req) \<or> blank (create_cap_hash req))
               400 ''ERR_INVITE_BAD_BODY'') (\<lambda>_.
     case (b64_decode (create_bundle_b64 req), b64_decode (create_sig_b64 req)) of
       (Some bun, Some sg) \<Rightarrow>
         h_bind (h_guard (bun = [] \<or> sg = []) 400 ''ERR_INVITE_BAD_BODY'') (\<lambda>_.
         h_bind (h_get invite_limits) (\<lambda>il.
         h_bind (h_guard (max_bundle_bytes il < length bun \<or> max_bundle_bytes il < length sg)
                   413 ''ERR_INVITE_TOO_LARGE'') (\<lambda>_.
         let now = now_unix_secs amb in
         h_bind (h_guard (create_expiry req \<le> now) 400 ''ERR_INVITE_EXPIRED'') (\<lambda>_.
         let max_expiry = i64_sat_add now (usize_as_i64 (max_expiry_secs il)) in
         h_return (bun, sg, min (create_expiry req) max_expiry)))))
     | _ \<Rightarrow> h_reply 400 (Code ''ERR_INVITE_BAD_BODY''))"

definition create_answer :: "string \<Rightarrow> int \<Rightarrow> string \<Rightarrow> nat \<Rightarrow> InviteCreateOutcome \<Rightarrow> response handler" where
  "create_answer lid until token slot_cap out =
     (case out of
        Created \<Rightarrow>
          h_bind (h_info (InviteCreated lid until)) (\<lambda>_.
          h_return (Reply 200 (InviteCreateResp token)))
      | Duplicate \<Rightarrow> h_return (Reply 409 (Code ''ERR_INVITE_DUPLICATE''))
      | CapFull n \<Rightarrow>
          h_bind (h_info (InviteCapFull n slot_cap)) (\<lambda>_.
          h_return (Reply 429 (Code ''ERR_INVITE_CAP_FULL''))))"

definition invite_create ::
    "digest_fun \<Rightarrow> (bytes \<Rightarrow> InviteCreateReq option) \<Rightarrow> ambient \<Rightarrow> headers \<Rightarrow> bytes \<Rightarrow> response handler" where
  "invite_create sha parse amb headers data =
     h_bind (h_auth sha headers) (\<lambda>_.
     h_bind (h_get invite_limits) (\<lambda>il.
     h_bind (h_guard (invite_create_body_cap (max_bundle_bytes il) < length data)
               413 ''ERR_INVITE_TOO_LARGE'') (\<lambda>_.
     h_bind (create_gate amb) (\<lambda>_.
     h_bind (h_json parse data ''ERR_INVITE_BAD_BODY'') (\<lambda>req.
     h_bind (create_validate amb req) (\<lambda>(bun, sg, until).
     let slot = route_key_for sha (create_invite_id req); lid = channel_log_id (create_invite_id req);
         token = random_token_128 (uuid_bytes amb); now = now_unix_secs amb in
     h_bind (h_store (store_invite_create slot lid (create_cap_hash req) (sha256_hex sha token)
               bun sg until now (max_slots il) (faults1 amb))) (\<lambda>out.
     create_answer lid until token (max_slots il) out)))))))"

subsection \<open>\<open>POST /v1/invite/redeem\<close> and \<open>POST /v1/invite/revoke\<close>\<close>

definition redeem_reply :: "string \<Rightarrow> InviteRedeemOutcome \<Rightarrow> response" where
  "redeem_reply ticket out =
     (case out of
        Redeemed bun sg \<Rightarrow> Reply 200 (InviteRedeemResp (b64_encode bun) (b64_encode sg) ticket)
      | RedeemNotFound \<Rightarrow> Reply 404 (Code ''ERR_INVITE_NOT_FOUND'')
      | RedeemRevoked \<Rightarrow> Reply 410 (Code ''ERR_INVITE_REVOKED'')
      | RedeemExpired \<Rightarrow> Reply 410 (Code ''ERR_INVITE_EXPIRED'')
      | AlreadyUsed \<Rightarrow> Reply 409 (Code ''ERR_INVITE_ALREADY_USED'')
      | CapInvalid \<Rightarrow> Reply 403 (Code ''ERR_INVITE_CAP_INVALID''))"

definition invite_redeem ::
    "digest_fun \<Rightarrow> (bytes \<Rightarrow> InviteRedeemReq option) \<Rightarrow> ambient \<Rightarrow> headers \<Rightarrow> bytes \<Rightarrow> response handler" where
  "invite_redeem sha parse amb headers data =
     h_bind (h_auth sha headers) (\<lambda>_.
     h_bind (h_guard (INVITE_REDEEM_BODY_CAP < length data) 413 ''ERR_TOO_LARGE'') (\<lambda>_.
     h_bind (h_json parse data ''ERR_INVITE_BAD_BODY'') (\<lambda>req.
     h_bind (h_guard (blank (redeem_invite_id req) \<or> blank (redeem_cap req))
               400 ''ERR_INVITE_BAD_BODY'') (\<lambda>_.
     let slot = route_key_for sha (redeem_invite_id req); lid = channel_log_id (redeem_invite_id req);
         ticket = random_token_128 (uuid_bytes amb);
         presented = sha256_hex sha (redeem_cap req) in
     h_bind (h_store (store_invite_redeem slot (now_unix_secs amb) (sha256_hex sha ticket)
               (ct_eq_secret sha presented) (faults1 amb))) (\<lambda>out.
     h_bind (case out of Redeemed bun sg \<Rightarrow> h_info (InviteRedeemed lid) | _ \<Rightarrow> h_return ()) (\<lambda>_.
     h_return (redeem_reply ticket out)))))))"

definition revoke_reply :: "InviteRevokeOutcome \<Rightarrow> response" where
  "revoke_reply out =
     (case out of
        Revoked \<Rightarrow> Reply 200 (InviteRevokeResp True)
      | AlreadyRevoked \<Rightarrow> Reply 200 (InviteRevokeResp True)
      | RevokeNotFound \<Rightarrow> Reply 404 (Code ''ERR_INVITE_NOT_FOUND'')
      | TokenInvalid \<Rightarrow> Reply 403 (Code ''ERR_INVITE_REVOKE_INVALID''))"

definition invite_revoke ::
    "digest_fun \<Rightarrow> (bytes \<Rightarrow> InviteRevokeReq option) \<Rightarrow> ambient \<Rightarrow> headers \<Rightarrow> bytes \<Rightarrow> response handler" where
  "invite_revoke sha parse amb headers data =
     h_bind (h_auth sha headers) (\<lambda>_.
     h_bind (h_guard (INVITE_REVOKE_BODY_CAP < length data) 413 ''ERR_TOO_LARGE'') (\<lambda>_.
     h_bind (h_json parse data ''ERR_INVITE_BAD_BODY'') (\<lambda>req.
     h_bind (h_guard (blank (revoke_invite_id req) \<or> blank (revoke_token req))
               400 ''ERR_INVITE_BAD_BODY'') (\<lambda>_.
     let slot = route_key_for sha (revoke_invite_id req); lid = channel_log_id (revoke_invite_id req);
         presented = sha256_hex sha (revoke_token req) in
     h_bind (h_store (store_invite_revoke slot (ct_eq_secret sha presented) (faults1 amb))) (\<lambda>out.
     h_bind (if out = Revoked \<or> out = AlreadyRevoked then h_info (InviteRevoked lid) else h_return ()) (\<lambda>_.
     h_return (revoke_reply out)))))))"

subsection \<open>\<open>GET /v1/server-info\<close>\<close>

definition info_document :: "AppState \<Rightarrow> InfoDoc" where
  "info_document st =
     \<lparr>doc_version = ''0.1.0'',
      doc_name = unwrap_or (info_name (server_info st)) '''',
      doc_api = [''push_v1'', ''pull_v1'', ''pull_ack_lease_v1'', ''invite_v1''],
      doc_auth_mode = (if relay_token st \<noteq> None then ''bearer'' else ''open''),
      doc_max_body_bytes = max_body_bytes (app_limits st),
      doc_max_queue_depth = max_queue_depth (app_limits st),
      doc_max_invite_bundle_bytes = max_bundle_bytes (invite_limits st),
      doc_max_expiry_secs = max_expiry_secs (invite_limits st),
      doc_max_slots = max_slots (invite_limits st),
      doc_ttl_secs = app_retention_ttl_secs st,
      doc_service_url = attachments_service_url (server_info st),
      doc_min_client_version = min_client_version (server_info st)\<rparr>"

definition server_info_handler :: "digest_fun \<Rightarrow> headers \<Rightarrow> response handler" where
  "server_info_handler sha headers st =
     (if \<not> auth_ok sha headers (relay_token st) then (Inl (Reply 401 InfoProbe), [], st)
      else (Inr (Reply 200 (InfoFull (info_document st))), [], st))"

subsection \<open>The router\<close>

text \<open>A request by its route, with what axum has extracted; the JSON parsers are parameters.\<close>

datatype request =
  PushReq headers bytes
| PullReq headers PullQuery
| AckReq headers bytes
| CreateReq headers bytes
| RedeemReq headers bytes
| RevokeReq headers bytes
| InfoReq headers

record parsers =
  parse_ack :: "bytes \<Rightarrow> string list option"
  parse_create :: "bytes \<Rightarrow> InviteCreateReq option"
  parse_redeem :: "bytes \<Rightarrow> InviteRedeemReq option"
  parse_revoke :: "bytes \<Rightarrow> InviteRevokeReq option"

definition app :: "digest_fun \<Rightarrow> parsers \<Rightarrow> ambient \<Rightarrow> request \<Rightarrow> response handler" where
  "app sha p amb req =
     (case req of
        PushReq h b \<Rightarrow> push_message sha amb h b
      | PullReq h q \<Rightarrow> pull_message sha amb h q
      | AckReq h b \<Rightarrow> ack_messages sha (parse_ack p) amb h b
      | CreateReq h b \<Rightarrow> invite_create sha (parse_create p) amb h b
      | RedeemReq h b \<Rightarrow> invite_redeem sha (parse_redeem p) amb h b
      | RevokeReq h b \<Rightarrow> invite_revoke sha (parse_revoke p) amb h b
      | InfoReq h \<Rightarrow> server_info_handler sha h)"

definition serve :: "digest_fun \<Rightarrow> parsers \<Rightarrow> ambient \<Rightarrow> request \<Rightarrow> AppState \<Rightarrow> response \<times> log_event list \<times> AppState" where
  "serve sha p amb req st =
     (case app sha p amb req st of (Inl r, l, st') \<Rightarrow> (r, l, st') | (Inr r, l, st') \<Rightarrow> (r, l, st'))"

end
