(* ===== verification/Slots.thy ===== *)
theory Slots imports Conservation begin

text \<open>
  The life of an invite slot: created, redeemed once, used for one handshake push, revoked or
  expired. Capabilities (active slots) and tickets (issued by a redemption, burnt by the push
  they admit) are ledgers over runs, so each is spent at most once under every interleaving of
  concurrent requests; a slot's phase only ever moves forward until the slot is swept.
\<close>

subsection \<open>Slots that satisfy a property, by key\<close>

fun keys_of :: "(invite_row \<Rightarrow> bool) \<Rightarrow> invite_row list \<Rightarrow> string multiset" where
  "keys_of p [] = {#}"
| "keys_of p (i # is) = (if p i then {#slot_key i#} else {#}) + keys_of p is"

definition live :: "(invite_row \<Rightarrow> bool) \<Rightarrow> db \<Rightarrow> string multiset" where
  "live p d = keys_of p (invites d)"

definition is_active :: "invite_row \<Rightarrow> bool" where
  "is_active i \<longleftrightarrow> inv_state i = INVITE_ACTIVE"

definition has_ticket :: "invite_row \<Rightarrow> bool" where
  "has_ticket i \<longleftrightarrow> ticket_hash i \<noteq> None"

lemma live_frame [simp]:
  "live p (keep q d) = live p d" "live p (touch k now d) = live p d"
  "live p (lease_seqs seqs t d) = live p d"
  by (simp_all add: live_def lease_seqs_def)

lemma live_drop_expired:
  "live p (drop_expired_invites now d) + live (\<lambda>i. p i \<and> expiry i \<le> now) d = live p d"
proof -
  have "keys_of p (filter (\<lambda>i. \<not> expiry i \<le> now) is) + keys_of (\<lambda>i. p i \<and> expiry i \<le> now) is = keys_of p is"
    for "is"
    by (induction "is") auto
  then show ?thesis by (simp add: live_def drop_expired_invites_def)
qed

lemma live_swept:
  "mail_ok d \<Longrightarrow> live p (swept ttl now d) + live (\<lambda>i. p i \<and> expiry i \<le> now) d = live p d"
  using live_drop_expired [of p now "keep (\<lambda>m. \<not> expired ttl now m) d"] by (simp add: swept_keep)

lemma live_add: "live p (add_invite i d) = live p d + (if p i then {#slot_key i#} else {#})"
proof -
  have "keys_of p (is @ [i]) = keys_of p is + (if p i then {#slot_key i#} else {#})" for "is"
    by (induction "is") (simp_all add: ac_simps)
  then show ?thesis by (simp add: live_def add_invite_def)
qed

text \<open>Updating one slot moves that slot only.\<close>

lemma live_update:
  assumes "distinct (map slot_key (invites d))" and "find_invite k d = Some i"
    and "slot_key (f i) = slot_key i"
  shows "live p (map_invites (\<lambda>i. slot_key i = k \<and> q i) f d) + (if p i then {#k#} else {#}) =
    live p d + (if p (if q i then f i else i) then {#k#} else {#})"
proof -
  let ?g = "\<lambda>j. if slot_key j = k \<and> q j then f j else j"
  have "keys_of p (map ?g is) + (if p i then {#k#} else {#}) =
      keys_of p is + (if p (if q i then f i else i) then {#k#} else {#})"
    if "distinct (map slot_key is)" "List.find (\<lambda>i. slot_key i = k) is = Some i" for "is"
    using that
  proof (induction "is")
    case (Cons j js)
    show ?case
    proof (cases "slot_key j = k")
      case True
      with Cons.prems have ji: "j = i" "k \<notin> slot_key ` set js" by auto
      then have "map ?g js = js" by (intro map_idI) auto
      moreover have "slot_key (?g i) = k" using True ji(1) assms(3) by auto
      ultimately show ?thesis using True unfolding ji(1) by (auto simp: ac_simps)
    next
      case False
      have "keys_of p (map ?g js) + (if p i then {#k#} else {#}) =
          keys_of p js + (if p (if q i then f i else i) then {#k#} else {#})"
        using Cons False by simp
      then show ?thesis using False by (simp only: list.map keys_of.simps if_False simp_thms add.assoc)
    qed
  qed simp
  then show ?thesis using assms(1,2) by (simp add: live_def map_invites_def find_invite_def)
qed

lemma live_map_same:
  "(\<And>i. p (f i) = p i) \<Longrightarrow> (\<And>i. slot_key (f i) = slot_key i) \<Longrightarrow> live p (map_invites q f d) = live p d"
proof -
  assume same: "\<And>i. p (f i) = p i" "\<And>i. slot_key (f i) = slot_key i"
  have "keys_of p (map (\<lambda>i. if q i then f i else i) is) = keys_of p is" for "is"
    by (induction "is") (simp_all add: same)
  then show ?thesis by (simp add: live_def map_invites_def)
qed

lemma live_accepted: "live p (accepted k lid mid b now d) = live p (burn_ticket k d)"
  by (simp add: live_def invites_accepted)

subsection \<open>What a step does to slots\<close>

fun created_in :: "store_op \<Rightarrow> string + store_out \<Rightarrow> string multiset" where
  "created_in (OpCreate k lid cap_h revoke_h bun sg until now slot_cap) (Inr (OutCreate Created)) = {#k#}"
| "created_in _ _ = {#}"

fun redeemed_in :: "store_op \<Rightarrow> string + store_out \<Rightarrow> string multiset" where
  "redeemed_in (OpRedeem k now th verify) (Inr (OutRedeem (Redeemed b s))) = {#k#}"
| "redeemed_in _ _ = {#}"

text \<open>A push accepted into a slot.\<close>

fun handshake_in :: "store_op \<Rightarrow> string + store_out \<Rightarrow> db \<Rightarrow> string multiset" where
  "handshake_in (OpEnqueue k lid mid b now max_depth max_routes ticket) (Inr (OutEnqueue Accepted)) d =
     (if find_invite k d \<noteq> None then {#k#} else {#})"
| "handshake_in _ _ d = {#}"

text \<open>Slots with property \<open>p\<close> that the step revoked, or swept at their expiry.\<close>

fun revoked_in :: "(invite_row \<Rightarrow> bool) \<Rightarrow> store_op \<Rightarrow> string + store_out \<Rightarrow> db \<Rightarrow> string multiset" where
  "revoked_in p (OpRevoke k verify) (Inr (OutRevoke Revoked)) d =
     (if \<exists>i. find_invite k d = Some i \<and> p i then {#k#} else {#})"
| "revoked_in p _ _ d = {#}"

definition lapsed_in :: "(invite_row \<Rightarrow> bool) \<Rightarrow> store_op \<Rightarrow> string + store_out \<Rightarrow> db \<Rightarrow> string multiset" where
  "lapsed_in p op r d =
     (case sweep_time op r of None \<Rightarrow> {#} | Some now \<Rightarrow> live (\<lambda>i. p i \<and> expiry i \<le> now) d)"

definition ended_in :: "(invite_row \<Rightarrow> bool) \<Rightarrow> store_op \<Rightarrow> string + store_out \<Rightarrow> db \<Rightarrow> string multiset" where
  "ended_in p op r d = revoked_in p op r d + lapsed_in p op r d"

lemma not_active_updates [simp]:
  "\<not> is_active (consume now th i)" "\<not> is_active (revoke i)" "is_active (burn i) = is_active i"
  "has_ticket (consume now th i)" "\<not> has_ticket (revoke i)" "\<not> has_ticket (burn i)"
  "is_active (new_invite k lid cap_h revoke_h bun sg until now)"
  "\<not> has_ticket (new_invite k lid cap_h revoke_h bun sg until now)"
  by (simp_all add: is_active_def has_ticket_def consume_def revoke_def burn_def new_invite_def)

lemma slot_key_new_invite [simp]: "slot_key (new_invite k lid cap_h revoke_h bun sg until now) = k"
  by (simp add: new_invite_def)

lemma live_deliveries:
  assumes "mail_ok d"
  shows "live p (legacy_delivered k now (pulled t k mx mb d) d) = live p d"
    and "live p (lease_delivered k now dl ms d) = live p d" and "live p (acknowledged k ids d) = live p d"
proof -
  have "set (pulled t k mx mb d) \<subseteq> set (queue d k)" using pulled_subset by blast
  then show "live p (legacy_delivered k now (pulled t k mx mb d) d) = live p d"
    unfolding legacy_delivered_keep [OF assms \<open>set (pulled t k mx mb d) \<subseteq> _\<close>] by (simp add: Let_def)
  show "live p (lease_delivered k now dl ms d) = live p d"
    by (simp add: lease_delivered_def)
  show "live p (acknowledged k ids d) = live p d"
    by (simp add: acknowledged_keep [OF assms])
qed

lemma live_consume:
  assumes "distinct (map slot_key (invites d))" and "find_invite k d = Some i"
    and "inv_state i = INVITE_ACTIVE" and "invite_ok i"
  shows "live is_active (consume_slot k now th d) + {#k#} = live is_active d"
    and "live has_ticket (consume_slot k now th d) = live has_ticket d + {#k#}"
proof -
  have "is_active i" "\<not> has_ticket i"
    using assms(3,4) by (simp_all add: is_active_def has_ticket_def invite_ok_def)
  then show "live is_active (consume_slot k now th d) + {#k#} = live is_active d"
    "live has_ticket (consume_slot k now th d) = live has_ticket d + {#k#}"
    using live_update [OF assms(1,2), of "consume now th" is_active "\<lambda>i. inv_state i = INVITE_ACTIVE"]
      live_update [OF assms(1,2), of "consume now th" has_ticket "\<lambda>i. inv_state i = INVITE_ACTIVE"]
      assms(3)
    by (simp_all add: consume_slot_def)
qed

lemma live_revoke:
  assumes "distinct (map slot_key (invites d))" and "find_invite k d = Some i" and "\<not> p (revoke i)"
  shows "live p (revoke_slot k d) + (if p i then {#k#} else {#}) = live p d"
  using live_update [OF assms(1,2), of revoke p "\<lambda>_. True"] assms(3)
  by (simp add: revoke_slot_def)

lemma live_burn:
  assumes "distinct (map slot_key (invites d))" and "find_invite k d = Some i" and "has_ticket i"
  shows "live has_ticket (burn_ticket k d) + {#k#} = live has_ticket d"
  using live_update [OF assms(1,2), of burn has_ticket "\<lambda>_. True"] assms(3)
  by (simp add: burn_ticket_def)

lemma live_burn_active: "live is_active (burn_ticket k d) = live is_active d"
  unfolding burn_ticket_def by (rule live_map_same) simp_all

subsection \<open>Balance of one operation\<close>

text \<open>Only a creation, a redemption, a revocation and a push move slots; every other operation
  at most sweeps.\<close>

lemma balance_sweeping:
  assumes "mail_ok d" and "live p d' = live p (swept ttl now d)" and "sweep_time op r = Some now"
    and "revoked_in p op r d = {#}"
  shows "live p d' + ended_in p op r d = live p d"
  using live_swept [OF assms(1), of p ttl now] assms(2-4) by (simp add: ended_in_def lapsed_in_def)

text \<open>Shared by the two balances: operations that only sweep, a creation, a redemption and a
  revocation.\<close>

lemma ended_sweeping:
  assumes "db_ok d" and "run_op ttl lease_secs op d = (r, d')"
    and "case op of OpSweep _ \<Rightarrow> True | OpStatus _ _ \<Rightarrow> True | OpPull _ _ _ _ _ \<Rightarrow> True | OpAck _ _ _ \<Rightarrow> True | _ \<Rightarrow> False"
  shows "live p d' + ended_in p op r d = live p d"
proof -
  have mail: "mail_ok d" using assms(1) by (simp add: db_ok_def)
  note mails = mail_ok_swept [OF mail, of ttl]
  have now: "live p d' + ended_in p op r d = live p d"
    if "live p d' = live p (swept ttl now d)" "sweep_time op r = Some now" "revoked_in p op r d = {#}" for now
    using balance_sweeping [OF mail that] .
  show ?thesis
  proof (cases op)
    case (OpPull j mx max_bytes now mode)
    then show ?thesis
      using assms(2) now [of now]
      by (cases mode) (auto simp: run_op_def out_as_def pull_legacy_run pull_lease_run Let_def
          live_deliveries [OF mails])
  next
    case (OpAck j ids now)
    then show ?thesis
      using assms(2) now [of now] by (auto simp: run_op_def out_as_def ack_run Let_def live_deliveries [OF mails])
  qed (use assms(2,3) now in \<open>auto simp: run_op_def out_as_def retention_sweep_run route_status_run\<close>)
qed

lemma ended_create:
  assumes "db_ok d" and "run_op ttl lease_secs op d = (r, d')"
    and "op = OpCreate j lid cap_h revoke_h bun sg until now slot_cap"
  shows "live p d' + ended_in p op r d =
    live p d + (if p (new_invite j lid cap_h revoke_h bun sg until now) then created_in op r else {#})"
proof -
  have mail: "mail_ok d" using assms(1) by (simp add: db_ok_def)
  show ?thesis
    using assms(2,3) live_swept [OF mail, of p ttl now]
    by (auto simp: run_op_def out_as_def invite_create_run Let_def ended_in_def lapsed_in_def
        live_add split: if_splits)
qed

lemma ended_redeem:
  assumes "db_ok d" and "run_op ttl lease_secs op d = (r, d')" and "op = OpRedeem j now th verify"
  shows "ended_in p op r d = {#}" and "live is_active d' + redeemed_in op r = live is_active d"
    and "live has_ticket d' = live has_ticket d + redeemed_in op r"
proof -
  have rows: "\<forall>i \<in> set (invites d). invite_ok i" and dist: "distinct (map slot_key (invites d))"
    using assms(1) by (simp_all add: db_ok_def slots_ok_def)
  note run = run_op_def out_as_def invite_redeem_run [OF dist]
  show "ended_in p op r d = {#}"
    using assms(2,3) by (auto simp: run ended_in_def lapsed_in_def split: option.splits)
  show "live is_active d' + redeemed_in op r = live is_active d"
    "live has_ticket d' = live has_ticket d + redeemed_in op r"
  proof (atomize (full), cases "redeem_refusal j now verify d")
    case None
    then obtain i where i: "find_invite j d = Some i" "inv_state i = INVITE_ACTIVE"
      by (auto simp: redeem_refusal_def split: option.splits if_splits)
    then have "invite_ok i" using rows find_invite_in by blast
    with None i show "live is_active d' + redeemed_in op r = live is_active d \<and>
        live has_ticket d' = live has_ticket d + redeemed_in op r"
      using assms(2,3) live_consume [OF dist i] by (auto simp: run)
  next
    case (Some out)
    moreover have "redeemed_in op (Inr (OutRedeem out)) = {#}"
      using Some assms(3) by (auto simp: redeem_refusal_def split: option.splits if_splits)
    ultimately show "live is_active d' + redeemed_in op r = live is_active d \<and>
        live has_ticket d' = live has_ticket d + redeemed_in op r"
      using assms(2,3) by (auto simp: run)
  qed
qed

lemma ended_revoke:
  assumes "db_ok d" and "run_op ttl lease_secs op d = (r, d')" and "op = OpRevoke j verify"
    and gone: "\<And>i. \<not> p (revoke i)"
  shows "live p d' + ended_in p op r d = live p d"
proof -
  have dist: "distinct (map slot_key (invites d))" using assms(1) by (simp add: db_ok_def slots_ok_def)
  show ?thesis
  proof (cases "revoke_refusal j verify d")
    case None
    then obtain i where i: "find_invite j d = Some i"
      by (auto simp: revoke_refusal_def split: option.splits)
    with None show ?thesis
      using assms(2,3) live_revoke [OF dist i, of p] gone
      by (auto simp: run_op_def out_as_def invite_revoke_run ended_in_def lapsed_in_def)
  next
    case (Some out)
    moreover have "out \<noteq> Revoked"
      using Some by (auto simp: revoke_refusal_def split: option.splits if_splits)
    ultimately show ?thesis
      using assms(2,3)
      by (cases out) (auto simp: run_op_def out_as_def invite_revoke_run ended_in_def lapsed_in_def)
  qed
qed

lemma ticket_enqueue:
  assumes "db_ok d" and "run_op ttl lease_secs op d = (r, d')"
    and "op = OpEnqueue j lid mid b now max_depth max_routes ticket"
  shows "live has_ticket d' + (handshake_in op r d + ended_in has_ticket op r d) = live has_ticket d"
proof -
  have dist: "distinct (map slot_key (invites d))" using assms(1) by (simp add: db_ok_def slots_ok_def)
  have quiet: "handshake_in op (Inr (OutEnqueue c)) d = {#}" if "c \<noteq> Accepted" for c
    using that assms(3) by (cases c) simp_all
  have refusals: "c \<noteq> Accepted" if "capacity_refusal j max_depth max_routes d = Some c" for c
    using that by (auto simp: capacity_refusal_def split: if_splits)
  show ?thesis
  proof (cases "find_invite j d")
    case None
    then show ?thesis
      using assms(2) assms(3) quiet refusals
      by (auto simp: run_op_def out_as_def enqueue_run ended_in_def lapsed_in_def live_accepted
          find_invite_None_burn slot_refusal_def split: option.splits if_splits)
  next
    case (Some i)
    have "has_ticket i" if "slot_admission i now ticket = None"
      using that by (auto simp: slot_admission_def has_ticket_def Let_def split: option.splits if_splits)
    then show ?thesis
      using Some assms(2) assms(3) quiet refusals live_burn [OF dist Some]
      by (auto simp: run_op_def out_as_def enqueue_run ended_in_def lapsed_in_def live_accepted
          slot_refusal_def split: option.splits if_splits)
  qed
qed

lemma balance_active:
  assumes "db_ok d" and "run_op ttl lease_secs op d = (r, d')"
  shows "live is_active d' + (redeemed_in op r + ended_in is_active op r d) =
      live is_active d + created_in op r"
proof (cases op)
  case (OpCreate j lid cap_h revoke_h bun sg until now slot_cap)
  then show ?thesis using ended_create [OF assms OpCreate, of is_active] by simp
next
  case (OpRedeem j now th verify)
  then show ?thesis using ended_redeem(1,2) [OF assms OpRedeem] by simp
next
  case (OpRevoke j verify)
  then show ?thesis using ended_revoke [OF assms OpRevoke, of is_active] by simp
next
  case (OpEnqueue j lid mid b now max_depth max_routes ticket)
  then show ?thesis
    using assms(2)
    by (auto simp: run_op_def out_as_def enqueue_run ended_in_def lapsed_in_def live_accepted
        live_burn_active split: option.splits if_splits)
qed (use ended_sweeping [OF assms, of is_active] in simp_all)

lemma balance_ticket:
  assumes "db_ok d" and "run_op ttl lease_secs op d = (r, d')"
  shows "live has_ticket d' + (handshake_in op r d + ended_in has_ticket op r d) =
      live has_ticket d + redeemed_in op r"
proof (cases op)
  case (OpCreate j lid cap_h revoke_h bun sg until now slot_cap)
  then show ?thesis using ended_create [OF assms OpCreate, of has_ticket] by simp
next
  case (OpRedeem j now th verify)
  then show ?thesis using ended_redeem(1,3) [OF assms OpRedeem] by simp
next
  case (OpRevoke j verify)
  then show ?thesis using ended_revoke [OF assms OpRevoke, of has_ticket] by simp
next
  case (OpEnqueue j lid mid b now max_depth max_routes ticket)
  then show ?thesis using ticket_enqueue [OF assms OpEnqueue] by simp
qed (use ended_sweeping [OF assms, of has_ticket] in simp_all)

subsection \<open>Runs\<close>

definition creations :: "step \<Rightarrow> Store \<Rightarrow> string multiset" where
  "creations s st = created_in (fst s) (outcome s st)"

definition redemptions :: "step \<Rightarrow> Store \<Rightarrow> string multiset" where
  "redemptions s st = redeemed_in (fst s) (outcome s st)"

definition handshakes :: "step \<Rightarrow> Store \<Rightarrow> string multiset" where
  "handshakes s st = handshake_in (fst s) (outcome s st) (tables st)"

definition endings :: "(invite_row \<Rightarrow> bool) \<Rightarrow> step \<Rightarrow> Store \<Rightarrow> string multiset" where
  "endings p s st = ended_in p (fst s) (outcome s st) (tables st)"

lemmas movement_defs = creations_def redemptions_def handshakes_def endings_def

lemma no_slot_moves_on_error [simp]:
  "created_in op (Inl e) = {#}" "redeemed_in op (Inl e) = {#}" "handshake_in op (Inl e) d = {#}"
  "ended_in p op (Inl e) d = {#}"
  by (cases op; simp add: ended_in_def lapsed_in_def)+

interpretation capability: ledger store_wf perform "\<lambda>st. live is_active (tables st)" creations
  "\<lambda>s st. redemptions s st + endings is_active s st"
proof unfold_locales
  fix s st
  assume wf: "store_wf st"
  then show "store_wf (perform s st)" by (rule perform_wf)
  from wf have "alive st" "db_ok (tables st)" by (simp_all add: store_wf_def)
  then show "live is_active (tables (perform s st)) + (redemptions s st + endings is_active s st) =
    live is_active (tables st) + creations s st"
    by (cases rule: perform_cases [of st s])
       (simp_all add: movement_defs balance_active)
qed

interpretation ticket: ledger store_wf perform "\<lambda>st. live has_ticket (tables st)" redemptions
  "\<lambda>s st. handshakes s st + endings has_ticket s st"
proof unfold_locales
  fix s st
  assume wf: "store_wf st"
  then show "store_wf (perform s st)" by (rule perform_wf)
  from wf have "alive st" "db_ok (tables st)" by (simp_all add: store_wf_def)
  then show "live has_ticket (tables (perform s st)) + (handshakes s st + endings has_ticket s st) =
    live has_ticket (tables st) + redemptions s st"
    by (cases rule: perform_cases [of st s])
       (simp_all add: movement_defs balance_ticket)
qed

lemma init_wf: "store_wf \<lparr>conn = Mutex False empty_db, st_retention_ttl_secs = ttl, st_pull_lease_secs = ls\<rparr>"
  by (simp add: store_wf_def db_ok_empty)

text \<open>
  A capability is redeemed once. Over any run from an empty store, with any interleaving
  of concurrent requests and any failures, a slot key is successfully redeemed at most as
  often as a slot was created under it, whatever capabilities are presented.
\<close>

lemma redeemed_at_most_created:
  "count (tally perform redemptions ss
      \<lparr>conn = Mutex False empty_db, st_retention_ttl_secs = ttl, st_pull_lease_secs = ls\<rparr>) k
   \<le> count (tally perform creations ss
      \<lparr>conn = Mutex False empty_db, st_retention_ttl_secs = ttl, st_pull_lease_secs = ls\<rparr>) k"
  using capability.part_covered [OF init_wf refl, of ss ttl ls]
  by (simp add: live_def empty_db_def mset_subset_eq_count)

text \<open>
  C9: A ticket admits one handshake. Over any run from an empty store, with any interleaving
  and any failures, the pushes accepted into a slot are at most the redemptions of that slot.
\<close>

theorem handshakes_at_most_redeemed:
  "count (tally perform handshakes ss
      \<lparr>conn = Mutex False empty_db, st_retention_ttl_secs = ttl, st_pull_lease_secs = ls\<rparr>) k
   \<le> count (tally perform redemptions ss
      \<lparr>conn = Mutex False empty_db, st_retention_ttl_secs = ttl, st_pull_lease_secs = ls\<rparr>) k"
  using ticket.part_covered [OF init_wf refl, of ss ttl ls]
  by (simp add: live_def empty_db_def mset_subset_eq_count)

end
