(* ===== verification/Mailbox.thy ===== *)
theory Mailbox imports Store_Inv begin

text \<open>
  What the store promises, without tables: a relay is a queue of entries per route key and
  a slot per slot key. There are no sequence numbers, no routes table, no cascade and no
  rollback here; a route exists exactly when its queue is not empty. The refinement theorem
  at the end says that every operation of the store, run on its tables, answers and changes
  the abstract relay as the specification does.
\<close>

subsection \<open>The abstract relay\<close>

record entry =
  e_id :: string
  e_body :: bytes
  e_time :: int
  e_lease :: "int option"

record relay =
  boxes :: "string \<Rightarrow> entry list"
  slots :: "string \<Rightarrow> invite_row option"

definition entry_of :: "msg_row \<Rightarrow> entry" where
  "entry_of m = \<lparr>e_id = msg_id m, e_body = body m, e_time = enqueued_at m, e_lease = leased_until m\<rparr>"

definition relay_of :: "db \<Rightarrow> relay" where
  "relay_of d = \<lparr>boxes = (\<lambda>k. map entry_of (queue d k)), slots = (\<lambda>k. find_invite k d)\<rparr>"

definition live_boxes :: "relay \<Rightarrow> nat" where
  "live_boxes B = card {k. boxes B k \<noteq> []}"

definition live_slots :: "relay \<Rightarrow> nat" where
  "live_slots B = card (dom (slots B))"

definition e_expired :: "int \<Rightarrow> int \<Rightarrow> entry \<Rightarrow> bool" where
  "e_expired ttl now e \<longleftrightarrow> e_time e \<le> now - ttl"

definition e_available :: "int \<Rightarrow> entry \<Rightarrow> bool" where
  "e_available now e \<longleftrightarrow> (case e_lease e of None \<Rightarrow> True | Some t \<Rightarrow> t \<le> now)"

definition spec_sweep :: "int \<Rightarrow> int \<Rightarrow> relay \<Rightarrow> relay" where
  "spec_sweep ttl now B =
     \<lparr>boxes = (\<lambda>k. filter (\<lambda>e. \<not> e_expired ttl now e) (boxes B k)),
      slots = (\<lambda>k. case slots B k of
                     None \<Rightarrow> None | Some i \<Rightarrow> if expiry i \<le> now then None else Some i)\<rparr>"

subsection \<open>How much one pull takes\<close>

text \<open>The longest prefix of sizes that stays within the budget, after \<open>t\<close> bytes were taken.\<close>

fun budget :: "nat \<Rightarrow> nat \<Rightarrow> nat list \<Rightarrow> nat" where
  "budget max_bytes t [] = 0"
| "budget max_bytes t (n # ns) = (if max_bytes < t + n then 0 else Suc (budget max_bytes (t + n) ns))"

text \<open>The first item is always taken.\<close>

fun pull_count :: "nat \<Rightarrow> nat list \<Rightarrow> nat" where
  "pull_count max_bytes [] = 0"
| "pull_count max_bytes (n # ns) = Suc (budget max_bytes n ns)"

lemma budget_le: "budget max_bytes t ns \<le> length ns"
  by (induction max_bytes t ns rule: budget.induct) auto

lemma pull_count_le: "pull_count max_bytes ns \<le> length ns"
  by (cases ns) (simp_all add: budget_le)

lemma budget_fits: "0 < budget max_bytes t ns \<Longrightarrow> t + sum_list (take (budget max_bytes t ns) ns) \<le> max_bytes"
proof (induction max_bytes t ns rule: budget.induct)
  case (2 max_bytes t n ns)
  then show ?case
    by (cases "budget max_bytes (t + n) ns") (auto split: if_splits)
qed simp

lemma budget_maximal:
  "budget max_bytes t ns < length ns \<Longrightarrow>
   max_bytes < t + sum_list (take (Suc (budget max_bytes t ns)) ns)"
  by (induction max_bytes t ns rule: budget.induct) (auto split: if_splits)

text \<open>The loop of the code, with its saturating total, takes exactly that many rows.\<close>

lemma pull_loop_budget:
  assumes "max_bytes < usize_max" and "acc \<noteq> []" and "t = min usize_max t'"
  shows "pull_loop max_bytes t acc ms =
    acc @ take (budget max_bytes t' (map (\<lambda>m. length (body m)) ms)) ms"
  using assms(2,3)
proof (induction ms arbitrary: acc t t')
  case (Cons m ms)
  have sat: "usize_sat_add t (length (body m)) = min usize_max (t' + length (body m))"
    using Cons.prems(2) by (auto simp: usize_sat_add_def)
  have "max_bytes < usize_sat_add t (length (body m)) \<longleftrightarrow> max_bytes < t' + length (body m)"
    unfolding sat using assms(1) by auto
  with Cons.prems(1) Cons.IH [OF _ sat, of "acc @ [m]"] show ?case by simp
qed simp

lemma pull_loop_count:
  assumes "max_bytes < usize_max"
  shows "pull_loop max_bytes 0 [] ms = take (pull_count max_bytes (map (\<lambda>m. length (body m)) ms)) ms"
proof (cases ms)
  case (Cons m ms')
  have "usize_sat_add 0 (length (body m)) = min usize_max (length (body m))"
    by (simp add: usize_sat_add_def)
  then show ?thesis using Cons pull_loop_budget [OF assms, of "[m]"] by simp
qed simp

subsection \<open>The specification\<close>

text \<open>Removing and leasing the first \<open>n\<close> available entries of a queue.\<close>

fun drop_available :: "int \<Rightarrow> nat \<Rightarrow> entry list \<Rightarrow> entry list" where
  "drop_available now 0 es = es"
| "drop_available now (Suc n) [] = []"
| "drop_available now (Suc n) (e # es) =
     (if e_available now e then drop_available now n es else e # drop_available now (Suc n) es)"

fun lease_available :: "int \<Rightarrow> int \<Rightarrow> nat \<Rightarrow> entry list \<Rightarrow> entry list" where
  "lease_available now deadline 0 es = es"
| "lease_available now deadline (Suc n) [] = []"
| "lease_available now deadline (Suc n) (e # es) =
     (if e_available now e then e\<lparr>e_lease := Some deadline\<rparr> # lease_available now deadline n es
      else e # lease_available now deadline (Suc n) es)"

definition candidates :: "int \<Rightarrow> nat \<Rightarrow> entry list \<Rightarrow> entry list" where
  "candidates now mx es = take mx (filter (e_available now) es)"

definition spec_count :: "int \<Rightarrow> nat \<Rightarrow> nat \<Rightarrow> entry list \<Rightarrow> nat" where
  "spec_count now mx max_bytes es =
     pull_count max_bytes (map (\<lambda>e. length (e_body e)) (candidates now mx es))"

definition spec_items :: "int \<Rightarrow> nat \<Rightarrow> nat \<Rightarrow> entry list \<Rightarrow> StoredMsg list" where
  "spec_items now mx max_bytes es =
     map (\<lambda>e. (e_id e, e_body e)) (take (spec_count now mx max_bytes es) (candidates now mx es))"

definition spec_enqueue ::
    "string \<Rightarrow> string \<Rightarrow> bytes \<Rightarrow> int \<Rightarrow> nat \<Rightarrow> nat \<Rightarrow> (string \<Rightarrow> bool) option \<Rightarrow> relay
      \<Rightarrow> EnqueueOutcome \<times> relay" where
  "spec_enqueue k mid b now max_depth max_routes ticket B =
     (let n = length (boxes B k);
          refusal = (case slots B k of None \<Rightarrow> None | Some i \<Rightarrow> slot_admission i now ticket) in
      if refusal \<noteq> None then (SlotRejected (the refusal), B)
      else if n \<noteq> 0 \<and> max_depth \<le> n then (Overloaded n, B)
      else if n = 0 \<and> max_routes \<le> live_boxes B then (RouteCap (live_boxes B), B)
      else
        (Accepted,
         \<lparr>boxes = (boxes B)(k := boxes B k @ [\<lparr>e_id = mid, e_body = b, e_time = now, e_lease = None\<rparr>]),
          slots = (slots B)(k := map_option burn (slots B k))\<rparr>))"

definition spec_pull ::
    "int \<Rightarrow> int \<Rightarrow> string \<Rightarrow> nat \<Rightarrow> nat \<Rightarrow> int \<Rightarrow> PullMode \<Rightarrow> relay \<Rightarrow> PullOutcome \<times> relay" where
  "spec_pull ttl lease_secs k mx max_bytes now mode B =
     (let S = spec_sweep ttl now B;
          es = boxes S k;
          n = spec_count now mx max_bytes es;
          es' = (case mode of
                   Legacy \<Rightarrow> drop_available now n es
                 | Lease \<Rightarrow> lease_available now (i64_add now lease_secs) n es) in
      (\<lparr>pull_items = spec_items now mx max_bytes es,
        pull_drained = (mode = Legacy \<and> es \<noteq> [] \<and> es' = []), pull_sweep = SweepStats_default\<rparr>,
       S\<lparr>boxes := (boxes S)(k := es')\<rparr>))"

definition spec_ack :: "int \<Rightarrow> string \<Rightarrow> string list \<Rightarrow> int \<Rightarrow> relay \<Rightarrow> AckOutcome \<times> relay" where
  "spec_ack ttl k ids now B =
     (let S = spec_sweep ttl now B;
          es = boxes S k;
          hit = (\<lambda>e. e_lease e \<noteq> None \<and> e_id e \<in> set ids);
          es' = filter (\<lambda>e. \<not> hit e) es in
      (\<lparr>acked = length (filter hit es), ack_drained = (es \<noteq> [] \<and> es' = [] ),
        ack_sweep = SweepStats_default\<rparr>,
       S\<lparr>boxes := (boxes S)(k := es')\<rparr>))"

definition spec_create ::
    "int \<Rightarrow> string \<Rightarrow> string \<Rightarrow> string \<Rightarrow> string \<Rightarrow> bytes \<Rightarrow> bytes \<Rightarrow> int \<Rightarrow> int \<Rightarrow> nat \<Rightarrow> relay
      \<Rightarrow> InviteCreateOutcome \<times> relay" where
  "spec_create ttl k lid cap_h revoke_h bun sg until now slot_cap B =
     (let S = spec_sweep ttl now B in
      if slots S k \<noteq> None then (Duplicate, B)
      else if slot_cap \<le> live_slots S then (CapFull (live_slots S), B)
      else
        (Created,
         S\<lparr>slots := (slots S)(k \<mapsto> new_invite k lid cap_h revoke_h bun sg until now)\<rparr>))"

definition spec_redeem ::
    "string \<Rightarrow> int \<Rightarrow> string \<Rightarrow> (string \<Rightarrow> bool) \<Rightarrow> relay \<Rightarrow> InviteRedeemOutcome \<times> relay" where
  "spec_redeem k now th verify B =
     (case slots B k of
        None \<Rightarrow> (RedeemNotFound, B)
      | Some i \<Rightarrow>
          if inv_state i = INVITE_REVOKED then (RedeemRevoked, B)
          else if expiry i \<le> now then (RedeemExpired, B)
          else if inv_state i = INVITE_CONSUMED then (AlreadyUsed, B)
          else if \<not> verify (cap_hash i) then (CapInvalid, B)
          else
            (Redeemed (inv_bundle i) (inv_sig i), B\<lparr>slots := (slots B)(k \<mapsto> consume now th i)\<rparr>))"

definition spec_revoke ::
    "string \<Rightarrow> (string \<Rightarrow> bool) \<Rightarrow> relay \<Rightarrow> InviteRevokeOutcome \<times> relay" where
  "spec_revoke k verify B =
     (case slots B k of
        None \<Rightarrow> (RevokeNotFound, B)
      | Some i \<Rightarrow>
          if \<not> verify (revoke_hash i) then (TokenInvalid, B)
          else if inv_state i = INVITE_REVOKED then (AlreadyRevoked, B)
          else (Revoked, B\<lparr>slots := (slots B)(k \<mapsto> revoke i)\<rparr>))"

definition spec_op :: "int \<Rightarrow> int \<Rightarrow> store_op \<Rightarrow> relay \<Rightarrow> store_out \<times> relay" where
  "spec_op ttl lease_secs op B =
    (case op of
       OpSweep now \<Rightarrow> (OutSweep SweepStats_default, spec_sweep ttl now B)
     | OpStatus k now \<Rightarrow>
         (let S = spec_sweep ttl now B in
          (OutStatus \<lparr>route_exists = (boxes S k \<noteq> []), depth = length (boxes S k),
                      live_routes = live_boxes S, status_sweep = SweepStats_default\<rparr>, S))
     | OpCreate k lid cap_h revoke_h bun sg until now slot_cap \<Rightarrow>
         apfst OutCreate (spec_create ttl k lid cap_h revoke_h bun sg until now slot_cap B)
     | OpRedeem k now th verify \<Rightarrow> apfst OutRedeem (spec_redeem k now th verify B)
     | OpRevoke k verify \<Rightarrow> apfst OutRevoke (spec_revoke k verify B)
     | OpEnqueue k lid mid b now max_depth max_routes ticket \<Rightarrow>
         apfst OutEnqueue (spec_enqueue k mid b now max_depth max_routes ticket B)
     | OpPull k mx max_bytes now mode \<Rightarrow>
         apfst OutPull (spec_pull ttl lease_secs k mx max_bytes now mode B)
     | OpAck k ids now \<Rightarrow> apfst OutAck (spec_ack ttl k ids now B))"

text \<open>The answer without its sweep statistics, which the relay only logs.\<close>

definition answer :: "store_out \<Rightarrow> store_out" where
  "answer out =
    (case out of
       OutSweep s \<Rightarrow> OutSweep SweepStats_default
     | OutStatus s \<Rightarrow> OutStatus (s\<lparr>status_sweep := SweepStats_default\<rparr>)
     | OutPull p \<Rightarrow> OutPull (p\<lparr>pull_sweep := SweepStats_default\<rparr>)
     | OutAck a \<Rightarrow> OutAck (a\<lparr>ack_sweep := SweepStats_default\<rparr>)
     | _ \<Rightarrow> out)"

subsection \<open>Tables and queues\<close>

lemma boxes_relay_of [simp]: "boxes (relay_of d) k = map entry_of (queue d k)"
  by (simp add: relay_of_def)

lemma slots_relay_of [simp]: "slots (relay_of d) k = find_invite k d"
  by (simp add: relay_of_def)

lemma relay_eqI:
  fixes A B :: relay
  shows "(\<And>k. boxes A k = boxes B k) \<Longrightarrow> (\<And>k. slots A k = slots B k) \<Longrightarrow> A = B"
  by (rule relay.equality) auto

lemma available_entry_of [simp]: "e_available now (entry_of m) = available now m"
  by (simp add: e_available_def available_def entry_of_def)

lemma expired_entry_of [simp]: "e_expired ttl now (entry_of m) = expired ttl now m"
  by (simp add: e_expired_def expired_def entry_of_def)

lemma entry_of_simps [simp]:
  "e_id (entry_of m) = msg_id m" "e_body (entry_of m) = body m" "e_time (entry_of m) = enqueued_at m"
  "e_lease (entry_of m) = leased_until m"
  by (simp_all add: entry_of_def)

lemma lease_entry_of [simp]:
  "entry_of (m\<lparr>leased_until := x\<rparr>) = (entry_of m)\<lparr>e_lease := x\<rparr>"
  by (simp add: entry_of_def)

lemma queue_drop_expired_invites [simp]: "queue (drop_expired_invites now d) k = queue d k"
  by (simp add: queue_def drop_expired_invites_def)

lemma find_invite_keep [simp]: "find_invite k (keep q d) = find_invite k d"
  by (simp add: find_invite_def)

lemma find_filter:
  "distinct (map f xs) \<Longrightarrow>
   List.find (\<lambda>x. f x = k) (filter q xs) =
   (case List.find (\<lambda>x. f x = k) xs of None \<Rightarrow> None | Some x \<Rightarrow> if q x then Some x else None)"
proof (induction xs)
  case (Cons x xs)
  have "List.find (\<lambda>x. f x = k) (filter q xs) = None" if "f x = k"
    using Cons.prems that by (auto simp: find_None_iff image_iff)
  with Cons show ?case by auto
qed simp

lemma find_invite_drop_expired:
  "slots_ok d \<Longrightarrow> find_invite k (drop_expired_invites now d) =
   (case find_invite k d of None \<Rightarrow> None | Some i \<Rightarrow> if expiry i \<le> now then None else Some i)"
  by (simp add: find_invite_def drop_expired_invites_def slots_ok_def find_filter
      split: option.split)

lemma relay_of_swept:
  assumes "db_ok d"
  shows "relay_of (swept ttl now d) = spec_sweep ttl now (relay_of d)"
  using assms
  by (intro relay_eqI)
     (simp_all add: db_ok_def swept_keep spec_sweep_def filter_map o_def find_invite_drop_expired
       cong: option.case_cong)

lemma live_boxes_relay_of:
  assumes "mail_ok d"
  shows "live_boxes (relay_of d) = length (routes d)"
proof -
  have "{k. boxes (relay_of d) k \<noteq> []} = set (map rt_key (routes d))"
    using mail_ok_has_route [OF assms] by (auto simp: has_route_def)
  moreover have "distinct (map rt_key (routes d))" using assms by (simp add: mail_ok_def)
  ultimately show ?thesis
    unfolding live_boxes_def by (metis distinct_card length_map)
qed

lemma live_slots_relay_of:
  assumes "slots_ok d"
  shows "live_slots (relay_of d) = length (invites d)"
proof -
  have "dom (slots (relay_of d)) = set (map slot_key (invites d))"
    using find_invite_None_iff [of _ d] by (auto simp: dom_def)
  moreover have "distinct (map slot_key (invites d))" using assms by (simp add: slots_ok_def)
  ultimately show ?thesis
    unfolding live_slots_def by (metis distinct_card length_map)
qed

lemma find_invite_map:
  assumes "\<And>i. slot_key (f i) = slot_key i"
  shows "find_invite j (map_invites (\<lambda>i. slot_key i = k \<and> p i) f d) =
    (if j = k then map_option (\<lambda>i. if p i then f i else i) (find_invite k d) else find_invite j d)"
proof -
  have "List.find (\<lambda>i. slot_key i = j) (map (\<lambda>i. if slot_key i = k \<and> p i then f i else i) is) =
    (if j = k then map_option (\<lambda>i. if p i then f i else i) (List.find (\<lambda>i. slot_key i = k) is)
     else List.find (\<lambda>i. slot_key i = j) is)" for "is"
    by (induction "is") (auto simp: assms)
  then show ?thesis by (simp add: find_invite_def map_invites_def)
qed

lemma queue_map_invites [simp]: "queue (map_invites p f d) k = queue d k"
  by (simp add: queue_def map_invites_def)

lemma find_invite_touch [simp]: "find_invite j (touch k now d) = find_invite j d"
  by (simp add: find_invite_def)

lemma find_invite_lease [simp]: "find_invite j (lease_seqs seqs t d) = find_invite j d"
  by (simp add: find_invite_def lease_seqs_def)

lemma find_invite_accepted:
  "find_invite j (accepted k lid mid b now d) =
   (if j = k then map_option burn (find_invite k d) else find_invite j d)"
proof -
  have "find_invite j (accepted k lid mid b now d) = find_invite j (burn_ticket k d)"
    by (simp add: find_invite_def invites_accepted)
  then show ?thesis
    using find_invite_map [of burn j k "\<lambda>_. True" d]
    by (simp add: burn_ticket_def)
qed

subsection \<open>A pull on tables and on queues\<close>

lemma pulled_take:
  assumes "mail_ok d" and "mx < 2 ^ 63" and "max_bytes < usize_max"
  shows "pulled now k mx max_bytes d =
    take (spec_count now mx max_bytes (map entry_of (queue d k)))
      (take mx (filter (available now) (queue d k)))"
proof -
  have "sorted (map seq (filter (available now) (queue d k)))"
    using queue_distinct(2) [OF assms(1)] by (simp add: sorted_wrt_map_filter)
  then have "sort_key seq (filter (available now) (queue d k)) = filter (available now) (queue d k)"
    by (rule sort_key_id_if_sorted)
  moreover have "map (\<lambda>e. length (e_body e)) (candidates now mx (map entry_of xs)) =
      map (\<lambda>m. length (body m)) (take mx (filter (available now) xs))" for xs
    by (simp add: candidates_def filter_map o_def take_map)
  ultimately show ?thesis
    by (simp only: pulled_def usize_as_i64_small [OF assms(2)] sql_limit_def
        pull_loop_count [OF assms(3)] spec_count_def) simp
qed

lemma take_take_count:
  "take (spec_count now mx max_bytes (map entry_of xs)) (take mx (filter (available now) xs)) =
   take (spec_count now mx max_bytes (map entry_of xs)) (filter (available now) xs)"
proof -
  have "spec_count now mx max_bytes (map entry_of xs) \<le> mx"
    unfolding spec_count_def candidates_def
    by (rule le_trans [OF pull_count_le]) simp
  then show ?thesis by (simp add: min_absorb1)
qed

lemma drop_available_filter:
  "distinct xs \<Longrightarrow>
   map entry_of (filter (\<lambda>m. m \<notin> set (take n (filter (available now) xs))) xs) =
   drop_available now n (map entry_of xs)"
proof (induction xs arbitrary: n)
  case Nil
  then show ?case by (cases n) simp_all
next
  case (Cons x xs)
  have fresh: "x \<notin> set (take j (filter (available now) xs))" for j
    using Cons.prems by (auto dest: in_set_takeD)
  show ?case
  proof (cases n)
    case (Suc j)
    have "filter (\<lambda>m. m \<noteq> x \<and> m \<notin> set (take j (filter (available now) xs))) xs =
        filter (\<lambda>m. m \<notin> set (take j (filter (available now) xs))) xs"
      using Cons.prems by (intro filter_cong) auto
    with Suc Cons fresh show ?thesis by simp
  qed simp
qed

lemma lease_available_map:
  "distinct xs \<Longrightarrow>
   map entry_of (map (\<lambda>m. if m \<in> set (take n (filter (available now) xs))
                        then m\<lparr>leased_until := Some dl\<rparr> else m) xs) =
   lease_available now dl n (map entry_of xs)"
proof (induction xs arbitrary: n)
  case Nil
  then show ?case by (cases n) simp_all
next
  case (Cons x xs)
  have fresh: "x \<notin> set (take j (filter (available now) xs))" for j
    using Cons.prems by (auto dest: in_set_takeD)
  show ?case
  proof (cases n)
    case (Suc j)
    have "map (\<lambda>m. if m = x \<or> m \<in> set (take j (filter (available now) xs))
           then m\<lparr>leased_until := Some dl\<rparr> else m) xs =
        map (\<lambda>m. if m \<in> set (take j (filter (available now) xs))
           then m\<lparr>leased_until := Some dl\<rparr> else m) xs"
      using Cons.prems by (intro map_cong) auto
    with Suc Cons fresh show ?thesis by (simp del: map_map map_eq_conv)
  qed simp
qed

subsection \<open>Refinement\<close>

lemma relay_of_legacy:
  assumes "mail_ok d" and "mx < 2 ^ 63" and "max_bytes < usize_max"
  shows "relay_of (legacy_delivered k now (pulled now k mx max_bytes d) d) =
    (relay_of d)\<lparr>boxes := (boxes (relay_of d))(k := drop_available now
       (spec_count now mx max_bytes (boxes (relay_of d) k)) (boxes (relay_of d) k))\<rparr>"
proof -
  let ?ms = "pulled now k mx max_bytes d"
  let ?n = "spec_count now mx max_bytes (map entry_of (queue d k))"
  have ms: "?ms = take ?n (filter (available now) (queue d k))"
    using pulled_take [OF assms] take_take_count by metis
  then have sub: "set ?ms \<subseteq> set (queue d k)" by (auto dest: in_set_takeD)
  have others: "filter (\<lambda>m. m \<notin> set ?ms) (queue d j) = queue d j" if "j \<noteq> k" for j
    using sub that by (intro filter_True) (auto simp: queue_def)
  have "map entry_of (filter (\<lambda>m. m \<notin> set ?ms) (queue d k)) =
      drop_available now ?n (map entry_of (queue d k))"
    unfolding ms by (rule drop_available_filter [OF queue_distinct(1) [OF assms(1)]])
  then show ?thesis
    by (cases "filter (\<lambda>m. m \<notin> set ?ms) (queue d k) = []"; intro relay_eqI)
       (simp_all add: legacy_delivered_keep [OF assms(1) sub] Let_def others)
qed

lemma queue_drop_seqs:
  assumes "mail_ok d" and "set ms \<subseteq> set (queue d k)"
  shows "queue (drop_seqs (map seq ms) d) k = queue (legacy_delivered k now ms d) k"
proof -
  have "filter (\<lambda>m. msg_route m = k \<and> seq m \<notin> set (map seq ms)) (messages d) =
      filter (\<lambda>m. msg_route m = k \<and> m \<notin> set ms) (messages d)"
    using seq_in_pulled [OF assms] by (intro filter_cong) simp_all
  then have "queue (drop_seqs (map seq ms) d) k = filter (\<lambda>m. m \<notin> set ms) (queue d k)"
    by (simp add: queue_def drop_seqs_def conj_commute)
  then show ?thesis by (simp add: legacy_delivered_keep [OF assms] Let_def)
qed

lemma relay_of_lease:
  assumes "mail_ok d" and "mx < 2 ^ 63" and "max_bytes < usize_max"
  shows "relay_of (lease_delivered k now dl (pulled now k mx max_bytes d) d) =
    (relay_of d)\<lparr>boxes := (boxes (relay_of d))(k := lease_available now dl
       (spec_count now mx max_bytes (boxes (relay_of d) k)) (boxes (relay_of d) k))\<rparr>"
proof -
  let ?ms = "pulled now k mx max_bytes d"
  let ?n = "spec_count now mx max_bytes (map entry_of (queue d k))"
  let ?f = "\<lambda>m. if seq m \<in> set (map seq ?ms) then m\<lparr>leased_until := Some dl\<rparr> else m"
  have ms: "?ms = take ?n (filter (available now) (queue d k))"
    using pulled_take [OF assms] take_take_count by metis
  then have sub: "set ?ms \<subseteq> set (queue d k)" by (auto dest: in_set_takeD)
  have hit: "seq m \<in> set (map seq ?ms) \<longleftrightarrow> m \<in> set ?ms" if "m \<in> set (queue d j)" for m j
    using seq_in_pulled [OF assms(1) sub, of m] that by (simp add: queue_def)
  have self: "map entry_of (map ?f (queue d k)) = lease_available now dl ?n (map entry_of (queue d k))"
  proof -
    have "map ?f (queue d k) =
        map (\<lambda>m. if m \<in> set ?ms then m\<lparr>leased_until := Some dl\<rparr> else m) (queue d k)"
      using hit by (intro map_cong) simp_all
    then show ?thesis
      using lease_available_map [OF queue_distinct(1) [OF assms(1)], of ?n now k dl]
      unfolding ms [symmetric] by (simp only:)
  qed
  have others: "map ?f (queue d j) = queue d j" if "j \<noteq> k" for j
  proof (rule map_idI)
    fix m assume m: "m \<in> set (queue d j)"
    with that sub have "m \<notin> set ?ms" by (auto simp: queue_def)
    with hit [OF m] show "?f m = m" by simp
  qed
  show ?thesis
  proof (cases "?ms = []")
    case True
    then have "map ?f (queue d k) = queue d k" by (simp add: map_idI)
    with self True show ?thesis by (intro relay_eqI) (simp_all add: lease_delivered_def)
  next
    case False
    then show ?thesis
      using self others
      by (intro relay_eqI) (simp_all add: lease_delivered_def queue_lease_seqs del: map_map)
  qed
qed

lemma relay_of_acknowledged:
  assumes "mail_ok d"
  shows "relay_of (acknowledged k ids d) =
    (relay_of d)\<lparr>boxes := (boxes (relay_of d))(k := filter
       (\<lambda>e. \<not> (e_lease e \<noteq> None \<and> e_id e \<in> set ids)) (boxes (relay_of d) k))\<rparr>"
proof -
  have "filter (\<lambda>m. \<not> acked_by k ids m) (queue d j) =
      (if j = k then filter (\<lambda>m. \<not> (leased_until m \<noteq> None \<and> msg_id m \<in> set ids)) (queue d k)
       else queue d j)" for j
    by (auto simp: acked_by_def queue_def intro!: filter_cong)
  then show ?thesis
    by (intro relay_eqI)
       (simp_all add: acknowledged_keep [OF assms] filter_map o_def entry_of_def)
qed

text \<open>The arguments of a pull are machine numbers: the handler passes at most the queue cap and
  the byte budget.\<close>

definition pull_bounds :: "store_op \<Rightarrow> bool" where
  "pull_bounds op =
    (case op of
       OpPull k mx max_bytes now mode \<Rightarrow> mx < 2 ^ 63 \<and> max_bytes < usize_max | _ \<Rightarrow> True)"

lemma refine_create:
  assumes "db_ok d"
  shows "spec_create ttl k lid cap_h revoke_h bun sg until now slot_cap (relay_of d) =
    (let r = run_tx (invite_create_tx ttl k lid cap_h revoke_h bun sg until now slot_cap) [] d in
     (projr (fst r), relay_of (snd r)))"
proof -
  have ok: "slots_ok (swept ttl now d)"
    using db_ok_swept [OF assms, of ttl now] by (simp add: db_ok_def)
  have new: "find_invite j (add_invite (new_invite k lid cap_h revoke_h bun sg until now) s) =
      (if j = k then Some (new_invite k lid cap_h revoke_h bun sg until now) else find_invite j s)"
    if "find_invite k s = None" for j s
    using that by (auto simp: find_invite_add new_invite_def split: option.split)
  have boxes: "boxes (relay_of (add_invite i s)) = boxes (relay_of s)" for i s
    by (simp add: fun_eq_iff add_invite_def queue_def)
  show ?thesis
    using new [of "swept ttl now d"]
    by (auto simp: spec_create_def invite_create_run Let_def relay_of_swept [OF assms, symmetric]
        live_slots_relay_of [OF ok] boxes intro!: relay_eqI)
qed

lemma refine_redeem:
  assumes "db_ok d"
  shows "spec_redeem k now th verify (relay_of d) =
    (let r = run_tx (invite_redeem_tx k now th verify) [] d in
     (projr (fst r), relay_of (snd r)))"
proof -
  have dist: "distinct (map slot_key (invites d))" and states: "\<forall>i \<in> set (invites d). invite_ok i"
    using assms by (simp_all add: db_ok_def slots_ok_def)
  have three: "inv_state i \<in> {INVITE_ACTIVE, INVITE_CONSUMED, INVITE_REVOKED}"
    if "find_invite k d = Some i" for i
    using states find_invite_in [OF that] by (auto simp: invite_ok_def)
  have new: "find_invite j (consume_slot k now th d) =
      (if j = k then map_option (\<lambda>i. if inv_state i = INVITE_ACTIVE then consume now th i else i)
         (find_invite k d) else find_invite j d)" for j
    unfolding consume_slot_def by (rule find_invite_map) (simp add: consume_def)
  have boxes: "boxes (relay_of (consume_slot k now th d)) = boxes (relay_of d)"
    by (simp add: fun_eq_iff consume_slot_def)
  show ?thesis
  proof (cases "find_invite k d")
    case (Some i)
    then show ?thesis
      using three [OF Some]
      by (auto simp: spec_redeem_def invite_redeem_run [OF dist] redeem_refusal_def new boxes
          intro!: relay_eqI)
  qed (simp add: spec_redeem_def invite_redeem_run [OF dist] redeem_refusal_def)
qed

lemma refine_revoke:
  "spec_revoke k verify (relay_of d) =
    (let r = run_tx (invite_revoke_tx k verify) [] d in (projr (fst r), relay_of (snd r)))"
proof -
  have new: "find_invite j (revoke_slot k d) =
      (if j = k then map_option revoke (find_invite k d) else find_invite j d)" for j
    using find_invite_map [of revoke j k "\<lambda>_. True" d] by (simp add: revoke_slot_def)
  have boxes: "boxes (relay_of (revoke_slot k d)) = boxes (relay_of d)"
    by (simp add: fun_eq_iff revoke_slot_def)
  show ?thesis
    by (cases "find_invite k d")
       (auto simp: spec_revoke_def invite_revoke_run revoke_refusal_def new boxes
         intro!: relay_eqI)
qed

lemma refine_enqueue:
  assumes "db_ok d" and "last_seq d < 2 ^ 63 - 1"
  shows "spec_enqueue k mid b now max_depth max_routes ticket (relay_of d) =
    (let r = run_tx (enqueue_tx k lid mid b now max_depth max_routes ticket) [] d in
     (projr (fst r), relay_of (snd r)))"
proof -
  have mail: "mail_ok d" using assms(1) by (simp add: db_ok_def)
  have new: "relay_of (accepted k lid mid b now d) =
    \<lparr>boxes = (boxes (relay_of d))(k := boxes (relay_of d) k @
       [\<lparr>e_id = mid, e_body = b, e_time = now, e_lease = None\<rparr>]),
     slots = (slots (relay_of d))(k := map_option burn (slots (relay_of d) k))\<rparr>"
    by (rule relay_eqI) (simp_all add: queue_accepted find_invite_accepted new_message_def entry_of_def)
  show ?thesis
    using assms(2) mail_ok_has_route [OF mail, of k]
    by (cases "find_invite k d")
       (auto simp: spec_enqueue_def enqueue_run slot_refusal_def capacity_refusal_def Let_def new
         live_boxes_relay_of [OF mail])
qed

lemma refine_op_pull:
  assumes "db_ok d" and "pull_bounds op" and "op = OpPull k mx max_bytes now mode"
  shows "\<exists>out. run_op ttl lease_secs op d = (Inr out, op_effect ttl lease_secs op d) \<and>
    spec_op ttl lease_secs op (relay_of d) = (answer out, relay_of (op_effect ttl lease_secs op d))"
proof -
  note swept = relay_of_swept [OF assms(1), symmetric]
  have mail: "mail_ok (swept ttl now d)" for now
    using db_ok_swept [OF assms(1)] by (simp add: db_ok_def)
  note route = mail_ok_has_route [OF mail]
  note unfold = run_op_def op_effect_def out_as_def spec_op_def answer_def
  have bounds: "mx < 2 ^ 63" "max_bytes < usize_max"
    using assms(2,3) by (simp_all add: pull_bounds_def)
  let ?s = "swept ttl now d"
  have items: "map (\<lambda>m. (msg_id m, body m)) (pulled now k mx max_bytes ?s) =
      spec_items now mx max_bytes (boxes (relay_of ?s) k)"
    by (simp add: pulled_take [OF mail bounds] spec_items_def candidates_def filter_map o_def
        take_map)
  show ?thesis
  proof (cases mode)
    case Legacy
    have "set (pulled now k mx max_bytes ?s) \<subseteq> set (queue ?s k)"
      using pulled_subset by blast
    then have "queue (drop_seqs (map seq (pulled now k mx max_bytes ?s)) ?s) k = [] \<longleftrightarrow>
        boxes (relay_of (legacy_delivered k now (pulled now k mx max_bytes ?s) ?s)) k = []"
      by (simp add: queue_drop_seqs [OF mail, of _ _ _ now])
    then show ?thesis
      using assms(3) Legacy
      by (simp add: unfold pull_legacy_run Let_def spec_pull_def swept items
          relay_of_legacy [OF mail bounds] route)
  next
    case Lease
    then show ?thesis
      using assms(3)
      by (simp add: unfold pull_lease_run Let_def spec_pull_def swept items
          relay_of_lease [OF mail bounds])
  qed
qed

lemma refine_op_ack:
  assumes "db_ok d" and "op = OpAck k ids now"
  shows "\<exists>out. run_op ttl lease_secs op d = (Inr out, op_effect ttl lease_secs op d) \<and>
    spec_op ttl lease_secs op (relay_of d) = (answer out, relay_of (op_effect ttl lease_secs op d))"
proof -
  note swept = relay_of_swept [OF assms(1), symmetric]
  have mail: "mail_ok (swept ttl now d)" for now
    using db_ok_swept [OF assms(1)] by (simp add: db_ok_def)
  note route = mail_ok_has_route [OF mail]
  note unfold = run_op_def op_effect_def out_as_def spec_op_def answer_def
  let ?s = "swept ttl now d" and ?hit = "\<lambda>m. leased_until m \<noteq> None \<and> msg_id m \<in> set ids"
  have hit: "filter (acked_by k ids) (messages ?s) = filter ?hit (queue ?s k)"
    by (auto simp: queue_def acked_by_def intro!: filter_cong)
  have rest: "queue (drop_acked k ids ?s) k = filter (\<lambda>m. \<not> ?hit m) (queue ?s k)"
    by (auto simp: queue_def drop_acked_def acked_by_def intro!: filter_cong)
  have some: "filter ?hit (queue ?s k) \<noteq> []"
    if "queue ?s k \<noteq> []" "filter (\<lambda>m. \<not> ?hit m) (queue ?s k) = []"
    using that by (auto simp: filter_empty_conv)
  show ?thesis
    using assms(2) some
    by (auto simp: unfold ack_run Let_def spec_ack_def swept relay_of_acknowledged [OF mail]
        route hit rest filter_map o_def)
qed

lemma refine_op:
  assumes "db_ok d" and "last_seq d < 2 ^ 63 - 1" and "pull_bounds op"
  shows "\<exists>out. run_op ttl lease_secs op d = (Inr out, op_effect ttl lease_secs op d) \<and>
    spec_op ttl lease_secs op (relay_of d) = (answer out, relay_of (op_effect ttl lease_secs op d))"
proof -
  note swept = relay_of_swept [OF assms(1), symmetric]
  have mail: "mail_ok (swept ttl now d)" for now
    using db_ok_swept [OF assms(1)] by (simp add: db_ok_def)
  note route = mail_ok_has_route [OF mail]
  note unfold = run_op_def op_effect_def out_as_def spec_op_def answer_def
  show ?thesis
  proof (cases op)
    case (OpSweep now)
    then show ?thesis by (simp add: unfold retention_sweep_run swept)
  next
    case (OpStatus k now)
    then show ?thesis
      by (simp add: unfold route_status_run swept Let_def live_boxes_relay_of [OF mail] route)
  next
    case (OpCreate k lid cap_h revoke_h bun sg until now slot_cap)
    have "\<exists>v. fst (run_tx (invite_create_tx ttl k lid cap_h revoke_h bun sg until now slot_cap) [] d) = Inr v"
      by (simp add: invite_create_run Let_def)
    with OpCreate show ?thesis by (auto simp: unfold refine_create [OF assms(1)] Let_def)
  next
    case (OpRedeem k now th verify)
    have "\<exists>v. fst (run_tx (invite_redeem_tx k now th verify) [] d) = Inr v"
      using assms(1)
      by (simp add: invite_redeem_run db_ok_def slots_ok_def split: option.split)
    with OpRedeem show ?thesis by (auto simp: unfold refine_redeem [OF assms(1)] Let_def)
  next
    case (OpRevoke k verify)
    have "\<exists>v. fst (run_tx (invite_revoke_tx k verify) [] d) = Inr v"
      by (simp add: invite_revoke_run split: option.split)
    with OpRevoke show ?thesis by (auto simp: unfold refine_revoke Let_def)
  next
    case (OpEnqueue k lid mid b now max_depth max_routes ticket)
    have "\<exists>v. fst (run_tx (enqueue_tx k lid mid b now max_depth max_routes ticket) [] d) = Inr v"
      using assms(2) by (simp add: enqueue_run split: option.split)
    with OpEnqueue show ?thesis
      by (auto simp: unfold refine_enqueue [OF assms(1,2), of _ _ _ _ _ _ _ lid] Let_def)
  next
    case (OpPull k mx max_bytes now mode)
    then show ?thesis by (rule refine_op_pull [OF assms(1,3)])
  next
    case (OpAck k ids now)
    then show ?thesis by (rule refine_op_ack [OF assms(1)])
  qed
qed

lemma refines_relay:
  assumes "reachable allowed st" and "last_seq (tables st) < 2 ^ 63 - 1" and "pull_bounds op"
    and "exec op fs st = (r, st')"
  shows "(fs \<noteq> [] \<and> st' = st \<and> (\<exists>e. r = Inl e)) \<or>
    (\<exists>out. r = Inr out \<and>
       spec_op (st_retention_ttl_secs st) (st_pull_lease_secs st) op (relay_of (tables st))
       = (answer out, relay_of (tables st')))"
proof -
  have ok: "alive st" "db_ok (tables st)" using reachable_ok [OF assms(1)] by simp_all
  obtain out where out: "run_op (st_retention_ttl_secs st) (st_pull_lease_secs st) op (tables st) =
      (Inr out, op_effect (st_retention_ttl_secs st) (st_pull_lease_secs st) op (tables st))"
    "spec_op (st_retention_ttl_secs st) (st_pull_lease_secs st) op (relay_of (tables st)) =
      (answer out, relay_of (op_effect (st_retention_ttl_secs st) (st_pull_lease_secs st) op
        (tables st)))"
    using refine_op [OF ok(2) assms(2,3)] by blast
  show ?thesis
    using exec_cases [OF ok(1), of op fs] exec_no_fault [OF ok(1), of op] assms(4) out
    by (cases "fs = []") auto
qed

text \<open>
  C1: The store refines the abstract relay. In every reachable state whose row counter is not
  exhausted, each operation either fails under an injected SQLite error and changes nothing,
  or it answers as the specification over plain queues and slots does and leaves tables that
  represent the specification's next state. Without injected errors it never fails.
\<close>

theorem store_refines_relay:
  assumes "reachable allowed st" and "last_seq (tables st) < 2 ^ 63 - 1" and "pull_bounds op"
    and "exec op fs st = (r, st')"
  shows "(fs \<noteq> [] \<and> st' = st \<and> (\<exists>e. r = Inl e)) \<or>
    (\<exists>out. r = Inr out \<and>
       spec_op (st_retention_ttl_secs st) (st_pull_lease_secs st) op (relay_of (tables st))
       = (answer out, relay_of (tables st')))"
  using assms by (rule refines_relay)

theorem store_refines_relay_witness:
  "\<exists>out st'. exec (OpPull ''r'' 8 100 101 Legacy) [] (snd (exec sample_push [] sample_store)) =
      (Inr out, st') \<and>
    spec_op 60 5 (OpPull ''r'' 8 100 101 Legacy)
      (relay_of (tables (snd (exec sample_push [] sample_store))))
    = (answer out, relay_of (tables st')) \<and>
    (\<exists>p. answer out = OutPull p \<and> pull_items p = [(''m'', [1])])"
proof -
  let ?st = "snd (exec sample_push [] sample_store)" and ?op = "OpPull ''r'' 8 100 101 Legacy"
  have q: "queue (tables ?st) ''r'' = [new_message empty_db ''m'' ''r'' [1] 100]"
    by (simp add: sample_push_exec queue_accepted) (simp add: queue_def empty_db_def)
  have "last_seq (tables ?st) < 2 ^ 63 - 1"
    by (simp add: sample_push_exec accepted_def append_message_def empty_db_def)
  moreover have "st_retention_ttl_secs ?st = 60" "st_pull_lease_secs ?st = 5"
    unfolding sample_push_exec by (simp_all add: sample_store_def)
  moreover have "pull_bounds ?op" by (simp add: pull_bounds_def usize_max_def)
  ultimately obtain out where out: "fst (exec ?op [] ?st) = Inr out"
    "spec_op 60 5 ?op (relay_of (tables ?st)) =
      (answer out, relay_of (tables (snd (exec ?op [] ?st))))"
    using store_refines_relay [OF sample_reachable, of ?op "[]" "fst (exec ?op [] ?st)"
        "snd (exec ?op [] ?st)"] by auto
  have "\<exists>p. answer out = OutPull p \<and> pull_items p = [(''m'', [1])]"
    using arg_cong [OF out(2), of fst]
    by (simp add: spec_op_def spec_pull_def Let_def spec_sweep_def q spec_items_def spec_count_def
        candidates_def e_available_def e_expired_def new_message_def)
       (metis PullOutcome.select_convs(1))
  then show ?thesis using out by (metis prod.collapse)
qed

end
