(* ===== verification/Slot_Machine.thy ===== *)
theory Slot_Machine imports Slots Mailbox begin

text \<open>
  The state machine of one slot. \<open>slot_move\<close> lists the moves a slot may make, with their
  guards; every operation of the store, on every branch and under every failure, moves every
  slot along it. The phases of a slot are ordered, and no move goes back except to a slot that
  is swept at its expiry and then created anew.
\<close>

subsection \<open>Phases\<close>

datatype slot_phase = Active | Ticketed | Spent | Withdrawn

instantiation slot_phase :: linorder
begin

definition phase_rank :: "slot_phase \<Rightarrow> nat" where
  "phase_rank p = (case p of Active \<Rightarrow> 0 | Ticketed \<Rightarrow> 1 | Spent \<Rightarrow> 2 | Withdrawn \<Rightarrow> 3)"

definition less_eq_slot_phase :: "slot_phase \<Rightarrow> slot_phase \<Rightarrow> bool" where
  "less_eq_slot_phase p q \<longleftrightarrow> phase_rank p \<le> phase_rank q"

definition less_slot_phase :: "slot_phase \<Rightarrow> slot_phase \<Rightarrow> bool" where
  "less_slot_phase p q \<longleftrightarrow> phase_rank p < phase_rank q"

instance
  by standard
     (auto simp: less_eq_slot_phase_def less_slot_phase_def phase_rank_def split: slot_phase.splits)

end

definition phase :: "invite_row \<Rightarrow> slot_phase" where
  "phase i =
     (if inv_state i = INVITE_REVOKED then Withdrawn
      else if inv_state i = INVITE_ACTIVE then Active
      else if ticket_hash i = None then Spent else Ticketed)"

subsection \<open>Moves\<close>

text \<open>The time an operation is given (a revocation has none: it does not look at the clock).\<close>

definition op_time :: "store_op \<Rightarrow> int" where
  "op_time op =
    (case op of
       OpSweep now \<Rightarrow> now
     | OpStatus k now \<Rightarrow> now
     | OpCreate k lid cap_h revoke_h bun sg until now slot_cap \<Rightarrow> now
     | OpRedeem k now th verify \<Rightarrow> now
     | OpRevoke k verify \<Rightarrow> 0
     | OpEnqueue k lid mid b now max_depth max_routes ticket \<Rightarrow> now
     | OpPull k mx max_bytes now mode \<Rightarrow> now
     | OpAck k ids now \<Rightarrow> now)"

inductive slot_move :: "int \<Rightarrow> invite_row option \<Rightarrow> invite_row option \<Rightarrow> bool" for now where
  stay: "slot_move now s s"
| appear: "slot_move now None (Some (new_invite k lid cap_h revoke_h bun sg until now))"
| lapse: "expiry i \<le> now \<Longrightarrow> slot_move now (Some i) None"
| renew: "expiry i \<le> now \<Longrightarrow>
    slot_move now (Some i) (Some (new_invite k lid cap_h revoke_h bun sg until now))"
| redeem: "phase i = Active \<Longrightarrow> now < expiry i \<Longrightarrow> slot_move now (Some i) (Some (consume now th i))"
| spend: "phase i = Ticketed \<Longrightarrow> now < expiry i \<Longrightarrow> slot_move now (Some i) (Some (burn i))"
| withdraw: "phase i \<noteq> Withdrawn \<Longrightarrow> slot_move now (Some i) (Some (revoke i))"

inductive_cases slot_move_SomeE: "slot_move now (Some i) (Some j)"

lemma slot_swept:
  assumes "db_ok d"
  shows "find_invite k (swept ttl now d) = find_invite k d \<or>
    find_invite k (swept ttl now d) = None \<and> (\<exists>i. find_invite k d = Some i \<and> expiry i \<le> now)"
  using assms find_invite_drop_expired [of "keep (\<lambda>m. \<not> expired ttl now m) d" k now]
  by (auto simp: db_ok_def swept_keep split: option.splits if_splits)

lemma slot_move_swept:
  assumes "db_ok d"
  shows "slot_move now (find_invite k d) (find_invite k (swept ttl now d))"
  using slot_swept [OF assms, of k ttl now] by (auto intro: slot_move.intros)

lemma find_invite_deliveries:
  assumes "mail_ok d"
  shows "find_invite j (legacy_delivered k now (pulled t k mx mb d) d) = find_invite j d"
    and "find_invite j (lease_delivered k now dl ms d) = find_invite j d"
    and "find_invite j (acknowledged k ids d) = find_invite j d"
proof -
  have sub: "set (pulled t k mx mb d) \<subseteq> set (queue d k)" using pulled_subset by blast
  show "find_invite j (legacy_delivered k now (pulled t k mx mb d) d) = find_invite j d"
    unfolding legacy_delivered_keep [OF assms sub] by (simp add: Let_def)
  show "find_invite j (lease_delivered k now dl ms d) = find_invite j d"
    by (simp add: lease_delivered_def)
  show "find_invite j (acknowledged k ids d) = find_invite j d"
    by (simp add: acknowledged_keep [OF assms])
qed

lemma slot_move_create:
  assumes "db_ok d" and "op = OpCreate j lid cap_h revoke_h bun sg until now slot_cap"
  shows "slot_move (op_time op) (find_invite k d) (find_invite k (op_effect ttl lease_secs op d))"
proof -
  note sw = slot_move_swept [OF assms(1), where k = k and ttl = ttl]
  note unfold = op_effect_def run_op_def out_as_def op_time_def
  let ?s = "swept ttl now d" and ?i = "new_invite j lid cap_h revoke_h bun sg until now"
  have "find_invite k (add_invite ?i ?s) = (if k = j then Some ?i else find_invite k ?s)"
    if "find_invite j ?s = None"
    using that by (auto simp: find_invite_add split: option.split)
  moreover have "slot_move now (find_invite j d) (Some ?i)" if "find_invite j ?s = None"
    using slot_swept [OF assms(1), of j ttl now] that by (auto intro: slot_move.intros)
  ultimately show ?thesis
    using assms(2) sw [where now = now] by (auto simp: unfold invite_create_run Let_def intro: stay)
qed

lemma slot_move_redeem:
  assumes "db_ok d" and "op = OpRedeem j now th verify"
  shows "slot_move (op_time op) (find_invite k d) (find_invite k (op_effect ttl lease_secs op d))"
proof -
  have dist: "distinct (map slot_key (invites d))" using assms(1) by (simp add: db_ok_def slots_ok_def)
  note unfold = op_effect_def run_op_def out_as_def op_time_def
  have "find_invite k (consume_slot j now th d) =
      (if k = j then map_option (\<lambda>i. if inv_state i = INVITE_ACTIVE then consume now th i else i)
         (find_invite j d) else find_invite k d)"
    unfolding consume_slot_def by (rule find_invite_map) simp
  moreover have "phase i = Active" if "inv_state i = INVITE_ACTIVE" for i
    using that by (simp add: phase_def)
  ultimately show ?thesis
    using assms(2)
    by (auto simp: unfold invite_redeem_run [OF dist] redeem_refusal_def not_le
        split: option.splits if_splits intro: slot_move.intros)
qed

lemma slot_move_revoke:
  assumes "db_ok d" and "op = OpRevoke j verify"
  shows "slot_move (op_time op) (find_invite k d) (find_invite k (op_effect ttl lease_secs op d))"
proof -
  note unfold = op_effect_def run_op_def out_as_def op_time_def
  have "find_invite k (revoke_slot j d) =
      (if k = j then map_option revoke (find_invite j d) else find_invite k d)"
    using find_invite_map [of revoke k j "\<lambda>_. True" d] by (simp add: revoke_slot_def)
  moreover have "phase i \<noteq> Withdrawn" if "inv_state i \<noteq> INVITE_REVOKED" for i
    using that by (simp add: phase_def)
  ultimately show ?thesis
    using assms(2)
    by (auto simp: unfold invite_revoke_run revoke_refusal_def
        split: option.splits if_splits intro: slot_move.intros)
qed

lemma slot_move_op:
  assumes "db_ok d"
  shows "slot_move (op_time op) (find_invite k d) (find_invite k (op_effect ttl lease_secs op d))"
proof -
  have rows: "\<forall>i \<in> set (invites d). invite_ok i"
    using assms by (simp_all add: db_ok_def slots_ok_def)
  note sw = slot_move_swept [OF assms, where k = k and ttl = ttl]
  have mails: "mail_ok (swept ttl now d)" for now
    using db_ok_swept [OF assms] by (simp add: db_ok_def)
  note unfold = op_effect_def run_op_def out_as_def op_time_def
  show ?thesis
  proof (cases op)
    case (OpSweep now)
    then show ?thesis by (simp add: unfold retention_sweep_run sw)
  next
    case (OpStatus j now)
    then show ?thesis by (simp add: unfold route_status_run sw)
  next
    case (OpCreate j lid cap_h revoke_h bun sg until now slot_cap)
    then show ?thesis by (rule slot_move_create [OF assms])
  next
    case (OpRedeem j now th verify)
    then show ?thesis by (rule slot_move_redeem [OF assms])
  next
    case (OpRevoke j verify)
    then show ?thesis by (rule slot_move_revoke [OF assms])
  next
    case (OpEnqueue j lid mid b now max_depth max_routes ticket)
    have "phase i = Ticketed \<and> now < expiry i"
      if "find_invite j d = Some i" "slot_admission i now ticket = None" for i
      using that rows find_invite_in [OF that(1)]
      by (auto simp: slot_admission_def phase_def Let_def invite_ok_def
          split: option.splits if_splits)
    then show ?thesis
      using OpEnqueue
      by (auto simp: unfold enqueue_run slot_refusal_def find_invite_accepted
          split: option.splits if_splits intro: slot_move.intros)
  next
    case (OpPull j mx max_bytes now mode)
    then show ?thesis
      using sw [where now = now]
      by (cases mode) (simp_all add: unfold pull_legacy_run pull_lease_run Let_def
          find_invite_deliveries [OF mails])
  next
    case (OpAck j ids now)
    then show ?thesis
      using sw [where now = now] by (simp add: unfold ack_run Let_def find_invite_deliveries [OF mails])
  qed
qed

lemma slot_moves:
  assumes "reachable allowed st"
  shows "slot_move (op_time op) (find_invite k (tables st)) (find_invite k (tables (snd (exec op fs st))))"
proof -
  have ok: "alive st" "db_ok (tables st)" using reachable_ok [OF assms] by simp_all
  show ?thesis
    using exec_step [OF ok(1), of op fs "fst (exec op fs st)" "snd (exec op fs st)"]
      slot_move_op [OF ok(2)] by (auto intro: stay)
qed

text \<open>
  C19: Every operation moves every slot along the slot machine. From any reachable store, with
  any failures, one operation leaves a slot alone, creates it where there was none or where
  the old one had expired, removes it at its expiry, redeems it out of its active phase before
  its expiry, burns an outstanding ticket before its expiry, or revokes it.
\<close>

theorem slot_machine:
  assumes "reachable allowed st"
  shows "slot_move (op_time op) (find_invite k (tables st)) (find_invite k (tables (snd (exec op fs st))))"
  using assms by (rule slot_moves)

text \<open>
  A slot's phase only moves forward: from active to ticketed to spent, or to withdrawn.
  If a slot is still there after an operation, then either its phase did not decrease and its
  capability, its revocation secret and its expiry are unchanged, or the old slot had expired
  and was replaced by a fresh one.
\<close>

lemma phase_forward:
  assumes "reachable allowed st" and "find_invite k (tables st) = Some i"
    and "find_invite k (tables (snd (exec op fs st))) = Some j"
  shows "(phase i \<le> phase j \<and> cap_hash j = cap_hash i \<and> revoke_hash j = revoke_hash i \<and>
      expiry j = expiry i) \<or> (expiry i \<le> op_time op \<and> phase j = Active \<and> inv_created_at j = op_time op)"
proof -
  have "slot_move (op_time op) (Some i) (Some j)"
    using slot_moves [OF assms(1), of op k fs] by (simp only: assms(2,3))
  then show ?thesis
    by (cases rule: slot_move_SomeE)
       (auto simp: phase_def less_eq_slot_phase_def phase_rank_def new_invite_def consume_def
         burn_def revoke_def split: if_splits)
qed

subsection \<open>One slot from creation to its handshake\<close>

text \<open>
  An operation spares a slot row when it is not the one that moves it: a redemption with its
  capability while it is active, a push with its ticket while one is outstanding, a revocation
  with its secret, or an operation that sweeps at or after its expiry. Whatever else happens in
  between, the row is kept as it is.
\<close>

definition spares :: "string \<Rightarrow> invite_row \<Rightarrow> store_op \<Rightarrow> bool" where
  "spares k i op =
    (case op of
       OpRedeem j now th verify \<Rightarrow>
         \<not> (j = k \<and> inv_state i = INVITE_ACTIVE \<and> verify (cap_hash i))
     | OpRevoke j verify \<Rightarrow> \<not> (j = k \<and> verify (revoke_hash i))
     | OpEnqueue j lid mid b now max_depth max_routes ticket \<Rightarrow>
         (case (ticket_hash i, ticket) of
            (Some expected, Some check) \<Rightarrow> \<not> (j = k \<and> check expected)
          | _ \<Rightarrow> True)
     | _ \<Rightarrow> op_time op < expiry i)"

lemma find_invite_swept_before:
  assumes "db_ok d" and "find_invite k d = Some i" and "now < expiry i"
  shows "find_invite k (swept ttl now d) = Some i"
  using slot_swept [OF assms(1), of k ttl now] assms(2,3) by auto

lemma spared:
  assumes "db_ok d" and "find_invite k d = Some i" and "spares k i op"
  shows "find_invite k (op_effect ttl lease_secs op d) = Some i"
proof -
  note unfold = op_effect_def run_op_def out_as_def op_time_def spares_def
  note kept = find_invite_swept_before [OF assms(1,2), where ttl = ttl]
  have dist: "distinct (map slot_key (invites d))" using assms(1) by (simp add: db_ok_def slots_ok_def)
  have mails: "mail_ok (swept ttl now d)" for now
    using db_ok_swept [OF assms(1)] by (simp add: db_ok_def)
  show ?thesis
  proof (cases op)
    case (OpCreate j lid cap_h revoke_h bun sg until now slot_cap)
    then show ?thesis
      using assms(2,3) kept [of now]
      by (auto simp: unfold invite_create_run Let_def find_invite_add split: option.splits)
  next
    case (OpRedeem j now th verify)
    have "find_invite k (consume_slot j now th d) = Some i"
      if "\<not> (j = k \<and> inv_state i = INVITE_ACTIVE)"
      unfolding consume_slot_def using assms(2) that
        find_invite_map [of "consume now th" k j "\<lambda>i. inv_state i = INVITE_ACTIVE" d] by auto
    then show ?thesis
      using OpRedeem assms(2,3)
      by (cases "j = k")
         (auto simp: unfold invite_redeem_run [OF dist] redeem_refusal_def split: option.splits if_splits)
  next
    case (OpRevoke j verify)
    then show ?thesis
      using assms(2,3) find_invite_map [of revoke k j "\<lambda>_. True" d]
      by (auto simp: unfold invite_revoke_run revoke_refusal_def revoke_slot_def split: option.splits if_splits)
  next
    case (OpEnqueue j lid mid b now max_depth max_routes ticket)
    then show ?thesis
      using assms(2,3)
      by (auto simp: unfold enqueue_run slot_refusal_def slot_admission_def find_invite_accepted Let_def
          split: option.splits if_splits)
  next
    case (OpPull j mx max_bytes now mode)
    then show ?thesis
      using assms(3) kept [of now]
      by (cases mode) (simp_all add: unfold pull_legacy_run pull_lease_run Let_def
          find_invite_deliveries [OF mails])
  next
    case (OpAck j ids now)
    then show ?thesis
      using assms(3) kept [of now] by (simp add: unfold ack_run Let_def find_invite_deliveries [OF mails])
  qed (use assms(3) kept in \<open>simp_all add: unfold retention_sweep_run route_status_run\<close>)
qed

text \<open>A slot row in a sound store, and its survival of any operations that spare it.\<close>

definition holds_slot :: "string \<Rightarrow> invite_row \<Rightarrow> Store \<Rightarrow> bool" where
  "holds_slot k i st \<longleftrightarrow> alive st \<and> db_ok (tables st) \<and> find_invite k (tables st) = Some i"

lemma spared_run:
  assumes "holds_slot k i st" and "\<forall>s \<in> set ss. spares k i (fst s)"
  shows "holds_slot k i (run_steps perform ss st)"
  using assms
proof (induction ss arbitrary: st)
  case (Cons s ss)
  have ok: "alive st" "db_ok (tables st)" and i: "find_invite k (tables st) = Some i"
    using Cons.prems(1) by (simp_all add: holds_slot_def)
  have "find_invite k (tables (perform s st)) = Some i"
    using exec_step [OF ok(1), of "fst s" "snd s" "outcome s st" "perform s st"] i
      spared [OF ok(2) i] Cons.prems(2) by (auto simp: perform_def outcome_def)
  then have "holds_slot k i (perform s st)"
    using exec_preserves [OF ok] by (simp add: holds_slot_def perform_def)
  then show ?case using Cons by simp
qed simp

text \<open>An operation is answered when it gives the answer it gives without failures; failures of
  its statements may turn that into an error.\<close>

definition comes_out :: "faults \<Rightarrow> string + store_out \<Rightarrow> store_out \<Rightarrow> bool" where
  "comes_out fs r x \<longleftrightarrow> r = Inr x \<or> fs \<noteq> [] \<and> (\<exists>e. r = Inl e)"

lemma exec_comes_out:
  assumes "alive st" and "fst (run_op (st_retention_ttl_secs st) (st_pull_lease_secs st) op (tables st)) = Inr x"
  shows "comes_out fs (fst (exec op fs st)) x"
  using exec_cases [OF assms(1), of op fs] exec_no_fault [OF assms(1), of op] assms(2)
  by (auto simp: comes_out_def)

lemma created_slot:
  assumes "alive st" and "db_ok (tables st)"
    and "exec (OpCreate k lid ch rh bun sg until now cap) fs st = (Inr (OutCreate Created), st')"
  shows "holds_slot k (new_invite k lid ch rh bun sg until now) st'"
proof -
  let ?s = "swept (st_retention_ttl_secs st) now (tables st)"
  have "find_invite k (add_invite i ?s) = Some i" if "find_invite k ?s = None" "slot_key i = k" for i
    using that by (simp add: find_invite_add)
  then have "find_invite k (tables st') = Some (new_invite k lid ch rh bun sg until now)"
    using exec_effect [OF assms(1,3)]
    by (auto simp: run_op_def op_effect_def out_as_def invite_create_run Let_def split: if_splits)
  then show ?thesis using exec_preserves [OF assms(1,2)] assms(3) by (metis holds_slot_def snd_conv)
qed

lemma redeem_active:
  assumes "holds_slot k i st" and "inv_state i = INVITE_ACTIVE" and "now < expiry i" and "verify (cap_hash i)"
  shows "comes_out fs (fst (exec (OpRedeem k now th verify) fs st)) (OutRedeem (Redeemed (inv_bundle i) (inv_sig i)))"
    and "exec (OpRedeem k now th verify) fs st = (Inr r, st') \<Longrightarrow> holds_slot k (consume now th i) st'"
proof -
  have ok: "alive st" "db_ok (tables st)" and i: "find_invite k (tables st) = Some i"
    using assms(1) by (simp_all add: holds_slot_def)
  have dist: "distinct (map slot_key (invites (tables st)))"
    using ok(2) by (simp add: db_ok_def slots_ok_def)
  have found: "find_invite k (consume_slot k now th (tables st)) = Some (consume now th i)"
    using find_invite_map [of "consume now th" k k "\<lambda>i. inv_state i = INVITE_ACTIVE" "tables st"]
      assms(2) i by (simp add: consume_slot_def)
  have early: "\<not> expiry i \<le> now" using assms(3) by simp
  note unfold = run_op_def op_effect_def out_as_def invite_redeem_run [OF dist] redeem_refusal_def
  show "comes_out fs (fst (exec (OpRedeem k now th verify) fs st)) (OutRedeem (Redeemed (inv_bundle i) (inv_sig i)))"
    by (rule exec_comes_out [OF ok(1)]) (simp add: unfold i assms(2,4) early)
  assume ex: "exec (OpRedeem k now th verify) fs st = (Inr r, st')"
  have "find_invite k (tables st') = Some (consume now th i)"
    using exec_effect(2) [OF ok(1) ex] found by (simp add: unfold i assms(2,4) early)
  then show "holds_slot k (consume now th i) st'"
    using exec_preserves [OF ok] ex by (metis holds_slot_def snd_conv)
qed

lemma redeem_used:
  assumes "holds_slot k i st" and "inv_state i = INVITE_CONSUMED" and "now < expiry i"
  shows "comes_out fs (fst (exec (OpRedeem k now th verify) fs st)) (OutRedeem AlreadyUsed)"
proof -
  have dist: "distinct (map slot_key (invites (tables st)))" and "alive st"
    and i: "find_invite k (tables st) = Some i"
    using assms(1) by (simp_all add: holds_slot_def db_ok_def slots_ok_def)
  then show ?thesis
    by (intro exec_comes_out)
       (simp_all add: run_op_def out_as_def invite_redeem_run [OF dist] redeem_refusal_def assms(2,3) not_le)
qed

lemma push_with_ticket:
  assumes "holds_slot k i st" and "inv_state i = INVITE_CONSUMED" and "now < expiry i"
    and "ticket_hash i = Some th" and "check th"
    and "exec (OpEnqueue k lid mid b now D R (Some check)) fs st = (q, st')"
  shows "q \<noteq> Inr (OutEnqueue (SlotRejected reason))"
    and "q = Inr (OutEnqueue Accepted) \<Longrightarrow> holds_slot k (burn i) st'"
proof -
  have ok: "alive st" "db_ok (tables st)" and i: "find_invite k (tables st) = Some i"
    using assms(1) by (simp_all add: holds_slot_def)
  have admit: "slot_refusal k now (Some check) (tables st) = None"
    using i assms(2-5) by (simp add: slot_refusal_def slot_admission_def)
  have capacity: "c \<noteq> SlotRejected reason \<and> c \<noteq> Accepted" if "capacity_refusal k D R d = Some c" for c d
    using that by (auto simp: capacity_refusal_def split: if_splits)
  note unfold = run_op_def op_effect_def out_as_def enqueue_run
  show "q \<noteq> Inr (OutEnqueue (SlotRejected reason))"
  proof
    assume "q = Inr (OutEnqueue (SlotRejected reason))"
    with exec_effect(1) [OF ok(1)] assms(6) admit capacity show False
      by (fastforce simp: unfold split: option.splits if_splits)
  qed
  assume q: "q = Inr (OutEnqueue Accepted)"
  have "tables st' = accepted k lid mid b now (tables st)"
    using exec_effect [OF ok(1) assms(6) [unfolded q]] admit capacity
    by (fastforce simp: unfold split: option.splits if_splits)
  then have "find_invite k (tables st') = Some (burn i)" using i by (simp add: find_invite_accepted)
  then show "holds_slot k (burn i) st'"
    using exec_preserves [OF ok] assms(6) by (metis holds_slot_def snd_conv)
qed

lemma push_without_ticket:
  assumes "holds_slot k i st" and "inv_state i = INVITE_CONSUMED" and "now < expiry i" and "ticket_hash i = None"
  shows "comes_out fs (fst (exec (OpEnqueue k lid mid b now D R ticket) fs st))
    (OutEnqueue (SlotRejected TicketInvalid))"
proof -
  have "alive st" and i: "find_invite k (tables st) = Some i" using assms(1) by (simp_all add: holds_slot_def)
  then show ?thesis
    by (intro exec_comes_out)
       (simp_all add: run_op_def out_as_def enqueue_run slot_refusal_def slot_admission_def assms(2-4) not_le)
qed

text \<open>
  C20: The life of one slot until its expiry, with any other operations and any failures in
  between. After a successful create, and any operations that spare the slot, a redemption
  with a matching capability returns exactly the published bundle and signature. Once it is
  answered, and after any operations that spare the slot, a redemption before the expiry
  answers that the slot was used, and the push that presents the issued ticket is not refused
  by the slot. Once that push is accepted, and after any operations that spare the slot, every
  redemption before the expiry answers that the slot was used and every push before the expiry
  is refused for its ticket, whatever they present. An operation spares the slot unless it is
  the redemption, the ticketed push or the revocation of it, or sweeps at or after its expiry.
\<close>

theorem slot_lifecycle:
  fixes k lid ch rh bun sg until t0 t1 th
  defines "published \<equiv> new_invite k lid ch rh bun sg until t0"
  defines "redeemed \<equiv> consume t1 th published"
  assumes reach: "reachable allowed st"
    and create: "exec (OpCreate k lid ch rh bun sg until t0 cap) fs0 st = (Inr (OutCreate Created), st1)"
    and spare1: "\<forall>s \<in> set ss1. spares k published (fst s)" and st1': "st1' = run_steps perform ss1 st1"
    and redemption: "exec (OpRedeem k t1 th verify) fs1 st1' = (Inr r, st2)" "t1 < until" "verify ch"
    and spare2: "\<forall>s \<in> set ss2. spares k redeemed (fst s)" and st2': "st2' = run_steps perform ss2 st2"
    and push: "exec (OpEnqueue k lid' mid b t2 D R (Some check)) fs2 st2' = (q, st3)" "t2 < until" "check th"
    and spare3: "\<forall>s \<in> set ss3. spares k (burn redeemed) (fst s)" and st3': "st3' = run_steps perform ss3 st3"
    and later: "t < until"
  shows "comes_out fs (fst (exec (OpRedeem k t1 th verify) fs st1')) (OutRedeem (Redeemed bun sg)) \<and>
    comes_out fs (fst (exec (OpRedeem k t th' verify') fs st2')) (OutRedeem AlreadyUsed) \<and>
    q \<noteq> Inr (OutEnqueue (SlotRejected reason)) \<and>
    (q = Inr (OutEnqueue Accepted) \<longrightarrow>
      comes_out fs (fst (exec (OpRedeem k t th' verify') fs st3')) (OutRedeem AlreadyUsed) \<and>
      comes_out fs (fst (exec (OpEnqueue k lid' mid' b' t D' R' ticket) fs st3'))
        (OutEnqueue (SlotRejected TicketInvalid)))"
proof -
  note fields = published_def redeemed_def new_invite_def consume_def burn_def
  have ok: "alive st" "db_ok (tables st)" using reachable_ok [OF reach] by simp_all
  have 1: "holds_slot k published st1'"
    unfolding st1' published_def
    by (rule spared_run [OF created_slot [OF ok create]]) (use spare1 in \<open>simp add: published_def\<close>)
  have pub: "inv_state published = INVITE_ACTIVE" "t1 < expiry published" "verify (cap_hash published)"
    "inv_bundle published = bun" "inv_sig published = sg"
    using redemption(2,3) by (simp_all add: fields)
  have 2: "holds_slot k redeemed st2'"
    unfolding st2' using spared_run [OF redeem_active(2) [OF 1 pub(1,2) _ redemption(1)]] spare2 pub(3)
    by (simp add: redeemed_def)
  have red: "inv_state redeemed = INVITE_CONSUMED" "t2 < expiry redeemed" "t < expiry redeemed"
    "ticket_hash redeemed = Some th"
    using push(2) later by (simp_all add: fields)
  have 3: "holds_slot k (burn redeemed) st3'" if "q = Inr (OutEnqueue Accepted)"
    unfolding st3'
    by (rule spared_run [OF push_with_ticket(2) [OF 2 red(1,2,4) push(3,1) that] spare3])
  have bur: "inv_state (burn redeemed) = INVITE_CONSUMED" "t < expiry (burn redeemed)"
    "ticket_hash (burn redeemed) = None"
    using red by (simp_all add: burn_def)
  show ?thesis
    using redeem_active(1) [OF 1 pub(1,2), where verify = verify, OF pub(3), of fs th] redeem_used [OF 2 red(1,3)]
      push_with_ticket(1) [OF 2 red(1,2,4) push(3,1)] redeem_used [OF 3 bur(1,2)]
      push_without_ticket [OF 3 bur]
    by (simp add: pub(4,5))
qed

subsection \<open>A concrete slot\<close>

text \<open>Created at 100 until 200, tried with a wrong capability, redeemed at 110, swept, pushed to
  at 120, asked for the status at 125.\<close>

definition slot_store1 :: Store where
  "slot_store1 = snd (exec (OpCreate ''s'' ''l'' ''cap'' ''rev'' [1, 2] [3] 200 100 8) [] sample_store)"

definition slot_tried :: Store where
  "slot_tried = run_steps perform [(OpRedeem ''s'' 105 ''x'' (\<lambda>h. False), [])] slot_store1"

definition slot_store2 :: Store where
  "slot_store2 = snd (exec (OpRedeem ''s'' 110 ''th'' (\<lambda>h. h = ''cap'')) [] slot_tried)"

definition slot_waiting :: Store where
  "slot_waiting = run_steps perform [(OpSweep 115, [])] slot_store2"

definition slot_store3 :: Store where
  "slot_store3 = snd (exec (OpEnqueue ''s'' ''l'' ''m1'' [7] 120 8 8 (Some (\<lambda>h. h = ''th''))) [] slot_waiting)"

definition slot_used :: Store where
  "slot_used = run_steps perform [(OpStatus ''s'' 125, [])] slot_store3"

lemma sample_store_reachable: "reachable allowed sample_store"
  unfolding sample_store_def by (rule reach_init)

abbreviation slot_row :: invite_row where
  "slot_row \<equiv> new_invite ''s'' ''l'' ''cap'' ''rev'' [1, 2] [3] 200 100"

lemma slot_created:
  "exec (OpCreate ''s'' ''l'' ''cap'' ''rev'' [1, 2] [3] 200 100 8) [] sample_store =
    (Inr (OutCreate Created), slot_store1)"
proof -
  have "fst (exec (OpCreate ''s'' ''l'' ''cap'' ''rev'' [1, 2] [3] 200 100 8) [] sample_store) =
      Inr (OutCreate Created)"
    by (simp add: sample_store_def exec_no_fault run_op_def out_as_def invite_create_run Let_def
        swept_def empty_db_def drop_expired_invites_def drop_expired_def find_invite_def)
  then show ?thesis by (simp add: slot_store1_def prod_eq_iff)
qed

lemma slot_store1_rows:
  "conn slot_store1 = Mutex False (empty_db\<lparr>invites := [slot_row]\<rparr>)"
  by (simp add: slot_store1_def sample_store_def exec_no_fault run_op_def op_effect_def out_as_def
      invite_create_run Let_def swept_def empty_db_def drop_expired_invites_def drop_expired_def
      drop_idle_routes_def find_invite_def add_invite_def)

lemma slot_tried_rows: "conn slot_tried = Mutex False (empty_db\<lparr>invites := [slot_row]\<rparr>)"
  by (simp add: slot_tried_def perform_def slot_store1_rows exec_no_fault run_op_def op_effect_def
      out_as_def invite_redeem_run redeem_refusal_def find_invite_def new_invite_def)

lemma slot_store2_rows:
  "fst (exec (OpRedeem ''s'' 110 ''th'' (\<lambda>h. h = ''cap'')) [] slot_tried) = Inr (OutRedeem (Redeemed [1, 2] [3]))"
  "conn slot_store2 = Mutex False (empty_db\<lparr>invites := [consume 110 ''th'' slot_row]\<rparr>)"
  by (simp_all add: slot_store2_def slot_tried_rows exec_no_fault run_op_def op_effect_def
      out_as_def invite_redeem_run redeem_refusal_def find_invite_def new_invite_def consume_slot_def
      map_invites_def empty_db_def)

lemma slot_waiting_rows:
  "conn slot_waiting = Mutex False (empty_db\<lparr>invites := [consume 110 ''th'' slot_row]\<rparr>)"
  by (simp add: slot_waiting_def perform_def slot_store2_rows exec_no_fault run_op_def op_effect_def
      out_as_def retention_sweep_run swept_def empty_db_def drop_expired_invites_def drop_expired_def
      drop_idle_routes_def consume_def new_invite_def)

lemma slot_pushed:
  "fst (exec (OpEnqueue ''s'' ''l'' ''m1'' [7] 120 8 8 (Some (\<lambda>h. h = ''th''))) [] slot_waiting) =
    Inr (OutEnqueue Accepted)"
  by (simp add: slot_waiting_rows exec_no_fault run_op_def out_as_def enqueue_run slot_refusal_def
      slot_admission_def capacity_refusal_def find_invite_def new_invite_def consume_def empty_db_def
      has_route_def)

theorem slot_machine_witness:
  "slot_move 100 (find_invite ''s'' (tables sample_store)) (find_invite ''s'' (tables slot_store1)) \<and>
   find_invite ''s'' (tables slot_store1) \<noteq> None"
  using slot_machine [OF sample_store_reachable,
      of "OpCreate ''s'' ''l'' ''cap'' ''rev'' [1, 2] [3] 200 100 8" "''s''" "[]"]
  by (simp add: slot_created op_time_def) (simp add: slot_store1_rows find_invite_def new_invite_def)

theorem slot_lifecycle_witness:
  "fst (exec (OpRedeem ''s'' 110 ''th'' (\<lambda>h. h = ''cap'')) [] slot_tried) =
     Inr (OutRedeem (Redeemed [1, 2] [3])) \<and>
   fst (exec (OpRedeem ''s'' 130 ''tk'' (\<lambda>h. True)) [] slot_waiting) = Inr (OutRedeem AlreadyUsed) \<and>
   fst (exec (OpEnqueue ''s'' ''l'' ''m1'' [7] 120 8 8 (Some (\<lambda>h. h = ''th''))) [] slot_waiting) =
     Inr (OutEnqueue Accepted) \<and>
   fst (exec (OpRedeem ''s'' 130 ''tk'' (\<lambda>h. True)) [] slot_used) = Inr (OutRedeem AlreadyUsed) \<and>
   fst (exec (OpEnqueue ''s'' ''l'' ''m2'' [8] 130 8 8 (Some (\<lambda>h. True))) [] slot_used) =
     Inr (OutEnqueue (SlotRejected TicketInvalid))"
proof -
  have redeemed: "exec (OpRedeem ''s'' 110 ''th'' (\<lambda>h. h = ''cap'')) [] slot_tried =
      (Inr (OutRedeem (Redeemed [1, 2] [3])), slot_store2)"
    using slot_store2_rows(1) by (simp add: slot_store2_def prod_eq_iff)
  have pushed: "exec (OpEnqueue ''s'' ''l'' ''m1'' [7] 120 8 8 (Some (\<lambda>h. h = ''th''))) [] slot_waiting =
      (Inr (OutEnqueue Accepted), slot_store3)"
    using slot_pushed by (simp add: slot_store3_def prod_eq_iff)
  show ?thesis
    using slot_lifecycle [OF sample_store_reachable slot_created _ slot_tried_def redeemed _ _ _
        slot_waiting_def pushed _ _ _ slot_used_def, of 130 "[]" "''tk''" "\<lambda>h. True" TicketInvalid
        "''m2''" "[8]" 8 8 "Some (\<lambda>h. True)"] slot_pushed
    by (simp add: comes_out_def spares_def op_time_def new_invite_def consume_def burn_def)
qed

end
