(* ===== verification/Delivery.thy ===== *)
theory Delivery imports Mailbox Conservation begin

text \<open>
  What readers of a route see: how much one pull takes, in which order, what a lease hides and
  for how long, and what an acknowledgement removes.
\<close>

subsection \<open>The byte budget\<close>

text \<open>
  The loop of a pull takes a prefix of the selected rows: at least one row if there is
  any; more than one only within the byte budget; and it stops only at a row that would
  exceed the budget.
\<close>

lemma pull_loop_spec:
  assumes "max_bytes < usize_max"
  shows "\<exists>n \<le> length rows. pull_loop max_bytes 0 [] rows = take n rows \<and>
    (rows \<noteq> [] \<longrightarrow> 0 < n) \<and>
    (1 < n \<longrightarrow> sum_list (map (\<lambda>m. length (body m)) (take n rows)) \<le> max_bytes) \<and>
    (n < length rows \<longrightarrow> max_bytes < sum_list (map (\<lambda>m. length (body m)) (take (Suc n) rows)))"
proof (cases rows)
  case (Cons m ms)
  let ?sizes = "map (\<lambda>m. length (body m)) ms" and ?b = "length (body m)"
  let ?n = "budget max_bytes ?b ?sizes"
  have "sum_list (map (\<lambda>m. length (body m)) (take (Suc j) rows)) = ?b + sum_list (take j ?sizes)" for j
    by (simp add: Cons take_map)
  moreover have "?n \<le> length ms" using budget_le [of max_bytes ?b ?sizes] by simp
  ultimately show ?thesis
    using budget_fits [of max_bytes ?b ?sizes] budget_maximal [of max_bytes ?b ?sizes]
      pull_loop_count [OF assms, of rows]
    by (intro exI [of _ "Suc ?n"]) (simp add: Cons)
qed simp

lemma budget_all: "t + sum_list ns \<le> max_bytes \<Longrightarrow> budget max_bytes t ns = length ns"
  by (induction max_bytes t ns rule: budget.induct) auto

lemma sum_list_bound: "(\<And>x. x \<in> set xs \<Longrightarrow> f x \<le> (c::nat)) \<Longrightarrow> sum_list (map f xs) \<le> length xs * c"
  by (induction xs) fastforce+

text \<open>
  The client coupling behind the budget: at any legal body limit, a batch of at most
  \<open>FINISH_SCAN_BATCH\<close> rows is never cut short by the byte budget, so a short batch means an
  exhausted mailbox.
\<close>

lemma finish_scan_never_cut:
  assumes "length rows \<le> FINISH_SCAN_BATCH"
    and "\<forall>m \<in> set rows. length (body m) \<le> max_body_bytes limits" and "limits_wf limits"
  shows "pull_loop (max PULL_BUDGET_BYTES (max_body_bytes limits)) 0 [] rows = rows"
proof -
  have small: "length (body m) \<le> MAX_BODY_BYTES_CEILING" if "m \<in> set rows" for m
    using assms(2,3) that unfolding limits_wf_def by (meson le_trans)
  have "sum_list (map (\<lambda>m. length (body m)) rows) \<le> length rows * MAX_BODY_BYTES_CEILING"
    by (rule sum_list_bound) (rule small)
  also have "\<dots> \<le> PULL_BUDGET_BYTES"
    using assms(1) by (simp add: PULL_BUDGET_BYTES_def)
  finally have "sum_list (map (\<lambda>m. length (body m)) rows) \<le> max PULL_BUDGET_BYTES (max_body_bytes limits)"
    by simp
  then have "pull_count (max PULL_BUDGET_BYTES (max_body_bytes limits))
      (map (\<lambda>m. length (body m)) rows) = length rows"
    by (cases rows) (simp_all add: budget_all)
  moreover have "max PULL_BUDGET_BYTES (max_body_bytes limits) < usize_max"
    using assms(3)
    by (simp add: PULL_BUDGET_BYTES_def FINISH_SCAN_BATCH_def limits_wf_def ceiling_defs usize_max_def)
  ultimately show ?thesis by (simp add: pull_loop_count)
qed

subsection \<open>Leases\<close>

definition entry_item :: "entry \<Rightarrow> StoredMsg" where
  "entry_item e = (e_id e, e_body e)"

lemma entry_item_eta: "(\<lambda>e. (e_id e, e_body e)) = entry_item"
  by (simp add: entry_item_def fun_eq_iff)

lemma entry_item_lease [simp]: "entry_item (e\<lparr>e_lease := l\<rparr>) = entry_item e"
  by (simp add: entry_item_def)

lemma entry_item_of [simp]: "entry_item (entry_of m) = stored m"
  by (simp add: entry_item_def stored_def)

lemma mailbox_boxes: "mailbox k st = mset (map entry_item (boxes (relay_of (tables st)) k))"
  by (simp add: mailbox_def held_def o_def)

text \<open>The entries a pull takes, as a prefix of the available ones.\<close>

lemma spec_items_take:
  "spec_items now mx max_bytes es =
   map entry_item (take (spec_count now mx max_bytes es) (filter (e_available now) es))"
proof -
  have "spec_count now mx max_bytes es \<le> mx"
    unfolding spec_count_def candidates_def by (rule le_trans [OF pull_count_le]) simp
  then show ?thesis by (simp add: spec_items_def candidates_def entry_item_eta min_absorb1)
qed

lemma subseteq_add_right: "A \<subseteq># B \<Longrightarrow> A \<subseteq># add_mset x B"
  by (metis add_mset_add_single mset_subset_eq_add_left subset_mset.trans)

text \<open>What a lease takes is hidden before its deadline.\<close>

lemma leased_hidden:
  assumes "t' < deadline"
  shows "mset (map entry_item (take n (filter (e_available t) es))) +
      mset (map entry_item (filter (e_available t') (lease_available t deadline n es)))
    \<subseteq># mset (map entry_item es)"
proof (induction es arbitrary: n)
  case Nil
  then show ?case by (cases n) simp_all
next
  case (Cons e es)
  show ?case
  proof (cases n)
    case 0
    then show ?thesis by (simp add: image_mset_subseteq_mono subseteq_add_right)
  next
    case (Suc m)
    have "\<not> e_available t' (e\<lparr>e_lease := Some deadline\<rparr>)" using assms by (simp add: e_available_def)
    then show ?thesis
      using Suc Cons.IH [of m] Cons.IH [of "Suc m"] by (simp add: subseteq_add_right)
  qed
qed

lemma mset_take_sub: "mset (map f (take n xs)) \<subseteq># mset (map f xs)"
  by (metis append_take_drop_id map_append mset_append mset_subset_eq_add_left)

lemma mset_filter_sub: "mset (map f (filter q xs)) \<subseteq># mset (map f xs)"
  by (simp add: image_mset_subseteq_mono)

text \<open>One pull in terms of the queue it finds.\<close>

definition found :: "string \<Rightarrow> int \<Rightarrow> Store \<Rightarrow> entry list" where
  "found k now st =
     filter (\<lambda>e. \<not> e_expired (st_retention_ttl_secs st) now e) (boxes (relay_of (tables st)) k)"

lemma pull_answer:
  assumes "reachable allowed st" and "last_seq (tables st) < 2 ^ 63 - 1"
    and "mx < 2 ^ 63" and "max_bytes < usize_max"
    and "exec (OpPull k mx max_bytes now mode) [] st = (Inr (OutPull p), st')"
  shows "pull_items p = spec_items now mx max_bytes (found k now st)"
    and "boxes (relay_of (tables st')) k =
      (let n = spec_count now mx max_bytes (found k now st) in
       case mode of
         Legacy \<Rightarrow> drop_available now n (found k now st)
       | Lease \<Rightarrow> lease_available now (i64_add now (st_pull_lease_secs st)) n (found k now st))"
proof -
  have "pull_bounds (OpPull k mx max_bytes now mode)"
    using assms(3,4) by (simp add: pull_bounds_def)
  from refines_relay [OF assms(1,2) this assms(5)]
  have sp: "spec_pull (st_retention_ttl_secs st) (st_pull_lease_secs st) k mx max_bytes now mode
      (relay_of (tables st)) = (p\<lparr>pull_sweep := SweepStats_default\<rparr>, relay_of (tables st'))"
    by (auto simp: spec_op_def answer_def apfst_def map_prod_def split: prod.splits)
  show "pull_items p = spec_items now mx max_bytes (found k now st)"
    using arg_cong [OF sp, of "\<lambda>x. pull_items (fst x)"]
    by (simp add: spec_pull_def Let_def spec_sweep_def found_def)
  show "boxes (relay_of (tables st')) k =
      (let n = spec_count now mx max_bytes (found k now st) in
       case mode of
         Legacy \<Rightarrow> drop_available now n (found k now st)
       | Lease \<Rightarrow> lease_available now (i64_add now (st_pull_lease_secs st)) n (found k now st))"
    using arg_cong [OF sp, of "\<lambda>x. boxes (snd x) k"]
    by (cases mode) (simp_all add: spec_pull_def Let_def spec_sweep_def found_def)
qed

lemma perform_exec: "perform (op, fs) st = snd (exec op fs st)"
  by (simp add: perform_def)

lemma reachable_exec:
  assumes "reachable (\<lambda>_. True) st"
  shows "reachable (\<lambda>_. True) (snd (exec op fs st))"
  by (rule reach_step [OF assms]) (rule store_stepI [of _ op fs, OF TrueI prod.collapse [symmetric]])

lemma exec_pull_frame:
  assumes "alive st" and "exec (OpPull k mx max_bytes now mode) [] st = (r, st')"
  shows "last_seq (tables st') = last_seq (tables st)"
    and "st_pull_lease_secs st' = st_pull_lease_secs st"
    and "st_retention_ttl_secs st' = st_retention_ttl_secs st"
proof -
  have [simp]: "last_seq (swept ttl now d) = last_seq d" for ttl d
    by (simp add: swept_def drop_expired_invites_def drop_idle_routes_def drop_expired_def)
  have [simp]: "last_seq (legacy_delivered k now ms d) = last_seq d"
    "last_seq (lease_delivered k now dl ms d) = last_seq d" for ms dl d
    by (simp_all add: legacy_delivered_def lease_delivered_def Let_def drop_route_def drop_seqs_def
        lease_seqs_def)
  show "last_seq (tables st') = last_seq (tables st)"
    and "st_pull_lease_secs st' = st_pull_lease_secs st"
    and "st_retention_ttl_secs st' = st_retention_ttl_secs st"
    using assms(2)
    by (cases mode; auto simp: exec_no_fault [OF assms(1)] run_op_def op_effect_def out_as_def
        pull_legacy_run pull_lease_run Let_def)+
qed

text \<open>
  A lease is exclusive. After a lease pull, a second pull on the route before the
  deadline, in either mode and with any size, delivers none of the leased copies: the two
  answers together deliver each queued copy at most once.
\<close>

lemma lease_exclusive:
  assumes "reachable (\<lambda>_. True) st" and "last_seq (tables st) < 2 ^ 63 - 1"
    and "mx < 2 ^ 63" "max_bytes < usize_max" "mx' < 2 ^ 63" "max_bytes' < usize_max"
    and "exec (OpPull k mx max_bytes t Lease) [] st = (Inr (OutPull p), st1)"
    and "exec (OpPull k mx' max_bytes' t' mode) [] st1 = (Inr (OutPull p'), st2)"
    and "t' < i64_add t (st_pull_lease_secs st)"
  shows "mset (pull_items p) + mset (pull_items p') \<subseteq># mailbox k st"
proof -
  let ?q = "found k t st" and ?n = "spec_count t mx max_bytes (found k t st)"
  let ?dl = "i64_add t (st_pull_lease_secs st)"
  have live: "alive st" using reachable_ok [OF assms(1)] by simp
  have r1: "reachable (\<lambda>_. True) st1"
    using reachable_exec [OF assms(1), of "OpPull k mx max_bytes t Lease" "[]"] assms(7) by simp
  have s1: "last_seq (tables st1) < 2 ^ 63 - 1"
    using exec_pull_frame(1) [OF live assms(7)] assms(2) by simp
  note a1 = pull_answer [OF assms(1,2,3,4,7)] and a2 = pull_answer(1) [OF r1 s1 assms(5,6,8)]
  have "mset (pull_items p') \<subseteq># mset (map entry_item (filter (e_available t') (found k t' st1)))"
    unfolding a2 spec_items_take by (rule mset_take_sub)
  also have "\<dots> \<subseteq># mset (map entry_item (filter (e_available t') (lease_available t ?dl ?n ?q)))"
  proof -
    have "found k t' st1 =
        filter (\<lambda>e. \<not> e_expired (st_retention_ttl_secs st1) t' e) (lease_available t ?dl ?n ?q)"
      using a1(2) by (simp only: found_def Let_def PullMode.case)
    then have "filter (e_available t') (found k t' st1) =
        filter (\<lambda>e. \<not> e_expired (st_retention_ttl_secs st1) t' e)
          (filter (e_available t') (lease_available t ?dl ?n ?q))"
      by (simp add: conj_commute)
    then show ?thesis by (simp only: mset_filter_sub)
  qed
  finally have "mset (pull_items p) + mset (pull_items p') \<subseteq>#
      mset (map entry_item (take ?n (filter (e_available t) ?q))) +
      mset (map entry_item (filter (e_available t') (lease_available t ?dl ?n ?q)))"
    unfolding a1(1) spec_items_take by simp
  also have "\<dots> \<subseteq># mset (map entry_item ?q)" by (rule leased_hidden [OF assms(9)])
  also have "\<dots> \<subseteq># mailbox k st" unfolding mailbox_boxes found_def by (rule mset_filter_sub)
  finally show ?thesis .
qed

lemma queue_swept:
  "mail_ok d \<Longrightarrow> queue (swept ttl now d) k = filter (\<lambda>m. \<not> expired ttl now m) (queue d k)"
  by (simp add: swept_keep)

lemma queue_legacy:
  assumes "mail_ok d"
  shows "queue (legacy_delivered k now (pulled t k mx mb d) d) j =
    (if j = k then filter (\<lambda>m. m \<notin> set (pulled t k mx mb d)) (queue d k) else queue d j)"
proof -
  have sub: "set (pulled t k mx mb d) \<subseteq> set (queue d k)" using pulled_subset by blast
  have "filter (\<lambda>m. m \<notin> set (pulled t k mx mb d)) (queue d j) = queue d j" if "j \<noteq> k"
    using sub that by (intro filter_True) (auto simp: queue_def)
  then show ?thesis
    unfolding legacy_delivered_keep [OF assms sub] by (simp add: Let_def)
qed

lemma queue_lease_other:
  assumes "mail_ok d" and "j \<noteq> k"
  shows "queue (lease_delivered k now dl (pulled t k mx mb d) d) j = queue d j"
proof -
  have sub: "set (pulled t k mx mb d) \<subseteq> set (queue d k)" using pulled_subset by blast
  have "seq m \<notin> set (map seq (pulled t k mx mb d))" if "m \<in> set (queue d j)" for m
    using seq_in_pulled [OF assms(1) sub, of m] sub that assms(2) by (auto simp: queue_def)
  then have "queue (lease_seqs (map seq (pulled t k mx mb d)) dl d) j = queue d j"
    unfolding queue_lease_seqs by (intro map_idI) auto
  then show ?thesis by (simp add: lease_delivered_def)
qed









subsection \<open>Order\<close>

text \<open>A route on which no lease is outstanding; steps that keep it so and expire nothing there.\<close>

definition unleased :: "string \<Rightarrow> Store \<Rightarrow> bool" where
  "unleased k st \<longleftrightarrow> store_wf st \<and> list_all (\<lambda>m. leased_until m = None) (queue (tables st) k)"

definition letters :: "string \<Rightarrow> Store \<Rightarrow> StoredMsg list" where
  "letters k st = map stored (queue (tables st) k)"

fun leases_on :: "string \<Rightarrow> store_op \<Rightarrow> bool" where
  "leases_on k (OpPull j mx max_bytes now Lease) = (j = k)"
| "leases_on k _ = False"

definition calm_on :: "string \<Rightarrow> step \<Rightarrow> Store \<Rightarrow> bool" where
  "calm_on k s st \<longleftrightarrow> \<not> leases_on k (fst s) \<and> expired_mail k s st = {#}"

fun pushed_in :: "string \<Rightarrow> store_op \<Rightarrow> string + store_out \<Rightarrow> StoredMsg list" where
  "pushed_in k (OpEnqueue j lid mid b now max_depth max_routes ticket) (Inr (OutEnqueue Accepted)) =
     (if j = k then [(mid, b)] else [])"
| "pushed_in k _ _ = []"

fun popped_in :: "string \<Rightarrow> store_op \<Rightarrow> string + store_out \<Rightarrow> StoredMsg list" where
  "popped_in k (OpPull j mx max_bytes now mode) (Inr (OutPull p)) = (if j = k then pull_items p else [])"
| "popped_in k _ _ = []"

definition pushes :: "string \<Rightarrow> step \<Rightarrow> Store \<Rightarrow> StoredMsg list" where
  "pushes k s st = pushed_in k (fst s) (outcome s st)"

definition pulls :: "string \<Rightarrow> step \<Rightarrow> Store \<Rightarrow> StoredMsg list" where
  "pulls k s st = popped_in k (fst s) (outcome s st)"

lemma queue_swept_calm:
  assumes "mail_ok d" and "sweep_time op r = Some now" and "expired_in ttl k op r d = {#}"
  shows "queue (swept ttl now d) k = queue d k"
  using assms by (simp add: queue_swept expired_in_def filter_empty_conv filter_id_conv)

lemma pulled_prefix:
  assumes "mail_ok d" and "list_all (\<lambda>m. leased_until m = None) (queue d k)"
  shows "\<exists>n. pulled now k mx max_bytes d = take n (queue d k)"
proof -
  have "filter (available now) (queue d k) = queue d k"
    using assms(2) by (auto simp: filter_id_conv list_all_iff available_def)
  then have "sql_limit (usize_as_i64 mx) (sort_key seq (filter (available now) (queue d k))) =
      take (if usize_as_i64 mx < 0 then length (queue d k) else nat (usize_as_i64 mx)) (queue d k)"
    using sort_key_id_if_sorted [OF queue_distinct(2) [OF assms(1)]] by (simp add: sql_limit_def)
  then show ?thesis
    unfolding pulled_def using pull_loop_prefix [of max_bytes 0 "[]"] by (metis append_Nil take_take)
qed

lemma filter_not_taken: "distinct xs \<Longrightarrow> filter (\<lambda>x. x \<notin> set (take n xs)) xs = drop n xs"
proof (induction xs arbitrary: n)
  case (Cons x xs)
  show ?case
  proof (cases n)
    case (Suc j)
    have "filter (\<lambda>y. y \<noteq> x \<and> y \<notin> set (take j xs)) xs = filter (\<lambda>y. y \<notin> set (take j xs)) xs"
      using Cons.prems by (intro filter_cong) auto
    with Suc Cons show ?thesis by simp
  qed simp
qed simp

lemma queue_ack_unleased:
  assumes "mail_ok d" and "list_all (\<lambda>m. leased_until m = None) (queue d k)"
  shows "queue (acknowledged j ids d) k = queue d k"
  using assms(2)
  by (auto simp: acknowledged_keep [OF assms(1)] filter_id_conv acked_by_def list_all_iff)

lemma order_pull:
  assumes "mail_ok d" and "run_op ttl lease_secs op d = (r, d')"
    and "list_all (\<lambda>m. leased_until m = None) (queue d k)" and "\<not> leases_on k op"
    and "expired_in ttl k op r d = {#}" and "op = OpPull j mx max_bytes now mode"
  shows "map stored (queue d k) @ pushed_in k op r = popped_in k op r @ map stored (queue d' k) \<and>
    list_all (\<lambda>m. leased_until m = None) (queue d' k)"
proof -
  note calm = queue_swept_calm [OF assms(1)]
  have mails: "mail_ok (swept ttl now d)" for now by (rule mail_ok_swept [OF assms(1)])
  note unfold = run_op_def out_as_def
  let ?s = "swept ttl now d"
  have same: "queue ?s k = queue d k"
    using assms(6) assms(2,5) calm [of op r now ttl k]
    by (cases mode) (auto simp: unfold pull_legacy_run pull_lease_run Let_def)
  show ?thesis
  proof (cases "j = k")
    case True
    then have legacy: "mode = Legacy" using assms(4) assms(6) by (cases mode) simp_all
    obtain n where n: "pulled now k mx max_bytes ?s = take n (queue ?s k)"
      using pulled_prefix [OF mails] assms(3) same by metis
    have "list_all (\<lambda>m. leased_until m = None) (drop n (queue d k))"
      using assms(3) by (auto simp: list_all_iff dest: in_set_dropD)
    moreover have "queue (legacy_delivered k now (pulled now k mx max_bytes ?s) ?s) k = drop n (queue d k)"
    proof -
      have "queue (legacy_delivered k now (pulled now k mx max_bytes ?s) ?s) k =
          filter (\<lambda>m. m \<notin> set (take n (queue ?s k))) (queue ?s k)"
        using queue_legacy [OF mails [of now], of k now now mx max_bytes k] n by simp
      also have "\<dots> = drop n (queue ?s k)"
        by (rule filter_not_taken [OF queue_distinct(1) [OF mails]])
      finally show ?thesis by (simp only: same)
    qed
    moreover have "map (\<lambda>m. (msg_id m, body m)) (pulled now k mx max_bytes ?s) @
        map stored (drop n (queue d k)) = map stored (queue d k)"
      unfolding n same stored_eta by (simp flip: map_append)
    ultimately show ?thesis
      using assms(2) assms(6) True legacy
      by (auto simp: unfold pull_legacy_run Let_def)
  next
    case False
    then show ?thesis
      using assms(2,3) assms(6) same
      by (cases mode) (auto simp: unfold pull_legacy_run pull_lease_run Let_def
          queue_legacy [OF mails] queue_lease_other [OF mails])
  qed
qed

lemma order_op:
  assumes "db_ok d" and "run_op ttl lease_secs op d = (r, d')"
    and "list_all (\<lambda>m. leased_until m = None) (queue d k)" and "\<not> leases_on k op"
    and "expired_in ttl k op r d = {#}"
  shows "map stored (queue d k) @ pushed_in k op r = popped_in k op r @ map stored (queue d' k) \<and>
    list_all (\<lambda>m. leased_until m = None) (queue d' k)"
proof -
  have mail: "mail_ok d" and dist: "distinct (map slot_key (invites d))"
    using assms(1) by (simp_all add: db_ok_def slots_ok_def)
  note calm = queue_swept_calm [OF mail]
  have mails: "mail_ok (swept ttl now d)" for now by (rule mail_ok_swept [OF mail])
  note unfold = run_op_def out_as_def
  show ?thesis
  proof (cases op)
    case (OpSweep now)
    then show ?thesis
      using assms(2,3,5) calm [of op r now ttl k] by (auto simp: unfold retention_sweep_run)
  next
    case (OpStatus j now)
    then show ?thesis
      using assms(2,3,5) calm [of op r now ttl k] by (auto simp: unfold route_status_run)
  next
    case (OpCreate j lid cap_h revoke_h bun sg until now slot_cap)
    have "queue (add_invite i e) k = queue e k" for i e by (simp add: add_invite_def queue_def)
    then show ?thesis
      using OpCreate assms(2,3,5) calm [of op r now ttl k]
      by (auto simp: unfold invite_create_run Let_def split: if_splits)
  next
    case (OpRedeem j now th verify)
    then show ?thesis
      using assms(2,3)
      by (auto simp: unfold invite_redeem_run [OF dist] consume_slot_def split: option.splits)
  next
    case (OpRevoke j verify)
    then show ?thesis
      using assms(2,3) by (auto simp: unfold invite_revoke_run revoke_slot_def split: option.splits)
  next
    case (OpEnqueue j lid mid b now max_depth max_routes ticket)
    have refused: "c \<noteq> Accepted" if "capacity_refusal j max_depth max_routes d = Some c" for c
      using that by (auto simp: capacity_refusal_def split: if_splits)
    have quiet: "pushed_in k op (Inr (OutEnqueue c)) = []" if "c \<noteq> Accepted" for c
      using that OpEnqueue by (cases c) simp_all
    show ?thesis
      using OpEnqueue assms(2,3) refused quiet
      by (auto simp: unfold enqueue_run queue_accepted stored_def new_message_def
          split: option.splits if_splits)
  next
    case (OpPull j mx max_bytes now mode)
    then show ?thesis using order_pull [OF mail assms(2-5)] by blast
  next
    case (OpAck j ids now)
    then show ?thesis
      using assms(2,3,5) calm [of op r now ttl k] queue_ack_unleased [OF mails]
      by (auto simp: unfold ack_run Let_def)
  qed
qed

interpretation fifo: fifo_queue "unleased k" perform "calm_on k" "letters k" "pushes k" "pulls k" for k
proof unfold_locales
  fix s st
  assume wf: "unleased k st" and calm: "calm_on k s st"
  from wf have live: "alive st" and ok: "db_ok (tables st)" and store: "store_wf st"
    and free: "list_all (\<lambda>m. leased_until m = None) (queue (tables st) k)"
    by (simp_all add: unleased_def store_wf_def)
  have "letters k st @ pushes k s st = pulls k s st @ letters k (perform s st) \<and>
      list_all (\<lambda>m. leased_until m = None) (queue (tables (perform s st)) k)"
    using live
  proof (cases rule: perform_cases [of st s])
    case (1 e)
    have "pushed_in k op (Inl e) = []" "popped_in k op (Inl e) = []" for op by (cases op; simp)+
    then show ?thesis using 1 free by (simp add: letters_def pushes_def pulls_def)
  next
    case (2 d')
    then show ?thesis
      using order_op [OF ok 2(1) free] calm
      by (simp add: letters_def pushes_def pulls_def calm_on_def expired_mail_def)
  qed
  then show "unleased k (perform s st)"
    "letters k st @ pushes k s st = pulls k s st @ letters k (perform s st)"
    using perform_wf [OF store] by (simp_all add: unleased_def)
qed

text \<open>
  C21: A route is a first-in first-out queue. Over any run in which no lease pull touches the
  route and none of its messages expires, whatever else the run does and whatever fails, the
  messages that were queued followed by those accepted during the run, in order, are those
  delivered, in order, followed by those still queued.
\<close>

theorem route_fifo:
  assumes "reachable allowed st" and "list_all (\<lambda>m. leased_until m = None) (queue (tables st) k)"
    and "calm_run perform (calm_on k) ss st"
  shows "letters k st @ stream perform (pushes k) ss st =
    stream perform (pulls k) ss st @ letters k (run_steps perform ss st)"
proof (rule fifo.in_order [OF _ assms(3)])
  show "unleased k st"
    using reachable_ok [OF assms(1)] assms(2) by (simp add: unleased_def store_wf_def)
qed

subsection \<open>Acknowledgements\<close>

text \<open>
  C10: An acknowledgement removes exactly the leased copies of the named messages of its own
  route (beside what the retention removes everywhere), and reports their number: a copy that
  was never delivered under a lease survives an acknowledgement of its identifier.
\<close>

theorem ack_exact:
  assumes "reachable allowed st" and "exec (OpAck k ids now) [] st = (Inr (OutAck a), st')"
  shows "acked a = length (filter (\<lambda>m. \<not> expired (st_retention_ttl_secs st) now m \<and>
        leased_until m \<noteq> None \<and> msg_id m \<in> set ids) (queue (tables st) k)) \<and>
    queue (tables st') j = filter (\<lambda>m. \<not> expired (st_retention_ttl_secs st) now m \<and>
        \<not> (j = k \<and> leased_until m \<noteq> None \<and> msg_id m \<in> set ids)) (queue (tables st) j)"
proof -
  have live: "alive st" and mail: "mail_ok (tables st)"
    using reachable_ok [OF assms(1)] by (simp_all add: db_ok_def)
  let ?s = "swept (st_retention_ttl_secs st) now (tables st)"
  have hit: "filter (acked_by k ids) (messages ?s) = filter (\<lambda>m. leased_until m \<noteq> None \<and> msg_id m \<in> set ids) (queue ?s k)"
    by (auto simp: queue_def acked_by_def intro!: filter_cong)
  have "acked a = length (filter (acked_by k ids) (messages ?s))"
    and st': "tables st' = acknowledged k ids ?s"
    using assms(2)
    by (auto simp: exec_no_fault [OF live] run_op_def op_effect_def out_as_def ack_run Let_def)
  moreover have "queue (acknowledged k ids ?s) j = filter (\<lambda>m. \<not> acked_by k ids m) (queue ?s j)"
    by (simp add: acknowledged_keep [OF mail_ok_swept [OF mail]])
  moreover have "filter (\<lambda>m. \<not> acked_by k ids m) (queue ?s j) =
      filter (\<lambda>m. \<not> (j = k \<and> leased_until m \<noteq> None \<and> msg_id m \<in> set ids)) (queue ?s j)"
    by (auto simp: acked_by_def queue_def intro!: filter_cong)
  ultimately show ?thesis
    unfolding hit by (simp add: queue_swept [OF mail])
qed

subsection \<open>A concrete delivery\<close>

definition sample_row :: msg_row where
  "sample_row = new_message empty_db ''m'' ''r'' [1] 100"

definition pushed_store :: Store where
  "pushed_store = snd (exec sample_push [] sample_store)"

definition leased_store :: Store where
  "leased_store = snd (exec (OpPull ''r'' 8 100 101 Lease) [] pushed_store)"

lemma sample_store_reaches: "reachable (\<lambda>_. True) sample_store"
  unfolding sample_store_def by (rule reach_init)

lemma pushed_store_reachable: "reachable (\<lambda>_. True) pushed_store"
  unfolding pushed_store_def by (rule reachable_exec [OF sample_store_reaches])

lemma leased_store_reachable: "reachable (\<lambda>_. True) leased_store"
  unfolding leased_store_def by (rule reachable_exec [OF pushed_store_reachable])

lemma pushed_store_simps:
  "alive pushed_store" "st_retention_ttl_secs pushed_store = 60" "st_pull_lease_secs pushed_store = 5"
  "messages (tables pushed_store) = [sample_row]" "last_seq (tables pushed_store) = 1"
  unfolding pushed_store_def sample_push_exec
  by (simp_all add: sample_store_def accepted_def append_message_def sample_row_def new_message_def
      empty_db_def)

lemma queue_pushed_store: "queue (tables pushed_store) ''r'' = [sample_row]"
  by (simp add: queue_def pushed_store_simps) (simp add: sample_row_def new_message_def)

lemma sample_row_simps [simp]:
  "seq sample_row = 1" "msg_id sample_row = ''m''" "body sample_row = [1]"
  "msg_route sample_row = ''r''" "enqueued_at sample_row = 100" "leased_until sample_row = None"
  by (simp_all add: sample_row_def new_message_def empty_db_def)

lemma messages_swept:
  "mail_ok d \<Longrightarrow> messages (swept ttl now d) = filter (\<lambda>m. \<not> expired ttl now m) (messages d)"
  by (simp add: swept_keep drop_expired_invites_def)

lemma pushed_mail_ok: "mail_ok (tables pushed_store)"
  using reachable_ok [OF pushed_store_reachable] by (simp add: db_ok_def)

lemma pull_pushed_store:
  assumes "mx < 2 ^ 63" "0 < mx" "now < 160"
  shows "pulled now ''r'' mx 100 (swept 60 now (tables pushed_store)) = [sample_row]"
proof -
  have "queue (swept 60 now (tables pushed_store)) ''r'' = [sample_row]"
    using assms(3) by (simp add: queue_swept [OF pushed_mail_ok] queue_pushed_store expired_def)
  then show ?thesis
    using assms(1,2)
    by (simp add: pulled_def available_def usize_as_i64_small sql_limit_def take_Cons')
qed

lemma lease_pushed_store:
  "\<exists>p. exec (OpPull ''r'' 8 100 101 Lease) [] pushed_store = (Inr (OutPull p), leased_store) \<and>
    pull_items p = [(''m'', [1])]"
  "messages (tables leased_store) = [sample_row\<lparr>leased_until := Some 106\<rparr>]"
  "last_seq (tables leased_store) = 1" "st_retention_ttl_secs leased_store = 60"
  "st_pull_lease_secs leased_store = 5"
proof -
  note run = exec_no_fault [OF pushed_store_simps(1)] run_op_def op_effect_def out_as_def
    pull_lease_run Let_def pushed_store_simps pull_pushed_store
  have dl: "i64_add 101 5 = 106" by (simp add: i64_add_def)
  show "\<exists>p. exec (OpPull ''r'' 8 100 101 Lease) [] pushed_store = (Inr (OutPull p), leased_store) \<and>
    pull_items p = [(''m'', [1])]"
    unfolding leased_store_def by (simp add: run)
  show "messages (tables leased_store) = [sample_row\<lparr>leased_until := Some 106\<rparr>]"
    unfolding leased_store_def
    by (simp add: run lease_delivered_def lease_seqs_def messages_swept [OF pushed_mail_ok]
        expired_def dl)
  show "last_seq (tables leased_store) = 1" "st_retention_ttl_secs leased_store = 60"
    "st_pull_lease_secs leased_store = 5"
    using exec_pull_frame [OF pushed_store_simps(1), of "''r''" 8 100 101 Lease
        "fst (exec (OpPull ''r'' 8 100 101 Lease) [] pushed_store)" leased_store]
    by (simp_all add: leased_store_def pushed_store_simps)
qed

lemma leased_mail_ok: "mail_ok (tables leased_store)" "alive leased_store"
  using reachable_ok [OF leased_store_reachable] by (simp_all add: db_ok_def)

lemma queue_leased_store: "queue (tables leased_store) ''r'' = [sample_row\<lparr>leased_until := Some 106\<rparr>]"
  by (simp add: queue_def lease_pushed_store)





theorem route_fifo_witness:
  "letters ''r'' pushed_store @
     stream perform (pushes ''r'') [(OpPull ''r'' 8 100 101 Legacy, [])] pushed_store =
   stream perform (pulls ''r'') [(OpPull ''r'' 8 100 101 Legacy, [])] pushed_store @
     letters ''r'' (run_steps perform [(OpPull ''r'' 8 100 101 Legacy, [])] pushed_store) \<and>
   letters ''r'' pushed_store = [(''m'', [1])]"
proof -
  have "calm_run perform (calm_on ''r'') [(OpPull ''r'' 8 100 101 Legacy, [])] pushed_store"
    by (simp add: calm_on_def expired_mail_def expired_in_def pushed_store_simps queue_pushed_store
        expired_def split: option.split) (auto simp: sweep_time.simps elim: sweep_time.elims)
  moreover have "list_all (\<lambda>m. leased_until m = None) (queue (tables pushed_store) ''r'')"
    by (simp add: queue_pushed_store)
  moreover have "letters ''r'' pushed_store = [(''m'', [1])]"
    by (simp add: queue_pushed_store letters_def stored_def)
  ultimately show ?thesis
    using route_fifo [OF pushed_store_reachable] by blast
qed

theorem ack_exact_witness:
  "\<exists>a st'. exec (OpAck ''r'' [''m''] 102) [] leased_store = (Inr (OutAck a), st') \<and>
    acked a = 1 \<and> queue (tables st') ''r'' = []"
proof -
  obtain a st' where a: "exec (OpAck ''r'' [''m''] 102) [] leased_store = (Inr (OutAck a), st')"
    by (simp add: exec_no_fault [OF leased_mail_ok(2)] run_op_def out_as_def ack_run Let_def)
  from ack_exact [OF leased_store_reachable this, of "''r''"] a show ?thesis
    by (auto simp: queue_leased_store lease_pushed_store expired_def)
qed

end
