(* ===== verification/Relay.thy ===== *)
theory Relay imports Handlers Slot_Machine Delivery begin

text \<open>
  The relay as a whole. Every handler is a chain of atomic steps on the shared state: a store
  operation under the connection's mutex, a rate gate or a pruning under the buckets' mutex.
  Concurrent requests interleave these steps, so an invariant of the steps holds for every
  schedule. The theorems are about what a client sees at the HTTP surface.
\<close>

subsection \<open>Atomic steps and the invariant\<close>

definition app_within :: "AppState \<Rightarrow> store_op \<Rightarrow> bool" where
  "app_within st = within (max_queue_depth (app_limits st)) (max_route_count (app_controls st))
     (max_slots (invite_limits st))"

inductive app_step :: "AppState \<Rightarrow> AppState \<Rightarrow> bool" where
  step_store: "app_within st op \<Longrightarrow> snd (exec op fs (store st)) = s \<Longrightarrow> app_step st (st\<lparr>store := s\<rparr>)"
| step_gate: "lock (push_rates st) = Some b \<Longrightarrow>
    snd (try_consume (app_controls st) t (unwrap_or (b key) (bucket_new t (app_controls st)))) = bkt \<Longrightarrow>
    app_step st (st\<lparr>push_rates := Mutex False (b(key \<mapsto> bkt))\<rparr>)"
| step_create_gate: "lock (invite_create_rate st) = Some b \<Longrightarrow>
    snd (try_consume (invite_bucket_controls (invite_limits st)) t b) = bkt \<Longrightarrow>
    app_step st (st\<lparr>invite_create_rate := Mutex False bkt\<rparr>)"
| step_prune: "lock (push_rates st) = Some b \<Longrightarrow> (\<And>k. b' k = None \<or> b' k = b k) \<Longrightarrow>
    app_step st (st\<lparr>push_rates := Mutex False b'\<rparr>)"

definition app_ok :: "AppState \<Rightarrow> bool" where
  "app_ok st \<longleftrightarrow>
     store_wf (store st) \<and>
     capped (max_queue_depth (app_limits st)) (max_route_count (app_controls st))
       (max_slots (invite_limits st)) (tables (store st)) \<and>
     0 < max_queue_depth (app_limits st) \<and>
     \<not> poisoned (push_rates st) \<and> \<not> poisoned (invite_create_rate st) \<and>
     (\<forall>k b. inner (push_rates st) k = Some b \<longrightarrow> bucket_ok (app_controls st) b) \<and>
     bucket_ok (invite_bucket_controls (invite_limits st)) (inner (invite_create_rate st))"

text \<open>The configuration of the relay and of its store, which no request changes.\<close>

definition config_of :: "AppState \<Rightarrow> Limits \<times> ResourceControls \<times> string option \<times> nat \<times> ServerInfoCfg
    \<times> InviteLimits \<times> int \<times> int" where
  "config_of st = (app_limits st, app_controls st, relay_token st, app_retention_ttl_secs st,
     server_info st, invite_limits st, st_retention_ttl_secs (store st), st_pull_lease_secs (store st))"

lemma lock_Some [simp]: "lock m = Some x \<longleftrightarrow> m = Mutex False x"
  by (cases m) (auto simp: lock_def)

lemma exec_settings [simp]:
  "st_retention_ttl_secs (snd (exec op fs st)) = st_retention_ttl_secs st"
  "st_pull_lease_secs (snd (exec op fs st)) = st_pull_lease_secs st"
  by (cases op; simp add: exec_def out_as_def store_op_defs store_tx_def split: option.split prod.split)+

lemma app_step_config: "app_step st st' \<Longrightarrow> config_of st' = config_of st"
  by (induction rule: app_step.induct) (auto simp: config_of_def)

lemma store_wf_exec: "store_wf st \<Longrightarrow> store_wf (snd (exec op fs st))"
  using perform_wf [of st "(op, fs)"] by (simp add: perform_def)

lemma capped_exec:
  assumes "store_wf st" and "capped D R S (tables st)" and "within D R S op" and "0 < D"
  shows "capped D R S (tables (snd (exec op fs st)))"
proof -
  have "alive st" "db_ok (tables st)" using assms(1) by (simp_all add: store_wf_def)
  then show ?thesis
    using exec_step [of st op fs "fst (exec op fs st)" "snd (exec op fs st)"] assms(2)
      capped_op_effect [OF _ assms(2,3,4)] by auto
qed

lemma app_step_ok: "app_step st st' \<Longrightarrow> app_ok st \<Longrightarrow> app_ok st'"
proof (induction rule: app_step.induct)
  case (step_store st op fs s)
  then show ?case
    using store_wf_exec [of "store st" op fs] capped_exec [of "store st" _ _ _ op fs]
    by (auto simp: app_ok_def app_within_def)
next
  case (step_gate st b t key bkt)
  have "bucket_ok (app_controls st) (unwrap_or (b key) (bucket_new t (app_controls st)))"
    using step_gate by (cases "b key") (auto simp: app_ok_def unwrap_or_def)
  then have "bucket_ok (app_controls st) bkt"
    using step_gate(2) try_consume_ok by blast
  then show ?case using step_gate by (auto simp: app_ok_def)
next
  case (step_create_gate st b t bkt)
  then have "bucket_ok (invite_bucket_controls (invite_limits st)) bkt"
    using try_consume_ok by (auto simp: app_ok_def)
  then show ?case using step_create_gate by (auto simp: app_ok_def)
next
  case (step_prune st b b')
  have "bucket_ok (app_controls st) x" if "b' k = Some x" for k x
    using that step_prune.hyps(2) [of k] step_prune.hyps(1) step_prune.prems by (auto simp: app_ok_def)
  then show ?case using step_prune by (auto simp: app_ok_def)
qed

subsection \<open>Handlers are chains of steps\<close>

definition sound :: "AppState \<Rightarrow> 'a handler \<Rightarrow> bool" where
  "sound c m \<longleftrightarrow>
     (\<forall>st. config_of st = config_of c \<longrightarrow> app_step\<^sup>*\<^sup>* st (snd (snd (m st))))"

named_theorems sound_rules

lemma steps_config: "app_step\<^sup>*\<^sup>* st st' \<Longrightarrow> config_of st' = config_of st"
  by (induction rule: rtranclp.induct) (simp_all add: app_step_config)

lemma sound_bind [sound_rules]:
  assumes "sound c m" and "\<And>x. sound c (f x)"
  shows "sound c (h_bind m f)"
  unfolding sound_def
proof (intro allI impI)
  fix st assume c: "config_of st = config_of c"
  obtain r l st1 where m: "m st = (r, l, st1)" by (cases "m st")
  have s1: "app_step\<^sup>*\<^sup>* st st1" using assms(1) c m unfolding sound_def by (metis snd_conv)
  show "app_step\<^sup>*\<^sup>* st (snd (snd (h_bind m f st)))"
  proof (cases r)
    case (Inl a)
    then show ?thesis using m s1 by (simp add: h_bind_def)
  next
    case (Inr x)
    have "app_step\<^sup>*\<^sup>* st1 (snd (snd (f x st1)))"
      using assms(2) c steps_config [OF s1] unfolding sound_def by metis
    then show ?thesis
      using m s1 Inr by (cases "f x st1") (simp add: h_bind_def)
  qed
qed

lemma sound_basic [sound_rules]:
  "sound c (h_return x)" "sound c (h_reply n p)" "sound c (h_info e)" "sound c (h_guard b n code)"
  "sound c (pull_answer_items lid items)" "sound c (server_info_handler sha headers)"
  by (auto simp: sound_def h_run h_guard_def pull_answer_items_def server_info_handler_def)

lemma sound_get [sound_rules]:
  "sound c (f (app_limits c)) \<Longrightarrow> sound c (h_bind (h_get app_limits) f)"
  "sound c (g (app_controls c)) \<Longrightarrow> sound c (h_bind (h_get app_controls) g)"
  "sound c (h (relay_token c)) \<Longrightarrow> sound c (h_bind (h_get relay_token) h)"
  "sound c (i (invite_limits c)) \<Longrightarrow> sound c (h_bind (h_get invite_limits) i)"
  by (auto simp: sound_def h_bind_def h_get_def config_of_def split: prod.split)

lemma sound_h_store:
  assumes "app_within c op" and "\<And>s. snd (f s) = snd (exec op fs s)"
  shows "sound c (h_store f)"
  unfolding sound_def
proof (intro allI impI)
  fix st assume c: "config_of st = config_of c"
  have "snd (snd (h_store f st)) = st\<lparr>store := snd (f (store st))\<rparr>"
    by (simp add: h_store_def run_store_def split: prod.split sum.split)
  moreover have "app_within st op" using assms(1) c by (simp add: app_within_def config_of_def)
  ultimately show "app_step\<^sup>*\<^sup>* st (snd (snd (h_store f st)))"
    using assms(2) step_store by (metis r_into_rtranclp)
qed

lemma snd_exec:
  "snd (store_retention_sweep now fs s) = snd (exec (OpSweep now) fs s)"
  "snd (store_route_status k now fs s) = snd (exec (OpStatus k now) fs s)"
  "snd (store_invite_create k lid ch rh bun sg until now cap fs s) =
     snd (exec (OpCreate k lid ch rh bun sg until now cap) fs s)"
  "snd (store_invite_redeem k now th verify fs s) = snd (exec (OpRedeem k now th verify) fs s)"
  "snd (store_invite_revoke k verify fs s) = snd (exec (OpRevoke k verify) fs s)"
  "snd (store_enqueue k lid mid b now D R ticket fs s) = snd (exec (OpEnqueue k lid mid b now D R ticket) fs s)"
  "snd (store_pull k mx mb now mode fs s) = snd (exec (OpPull k mx mb now mode) fs s)"
  "snd (store_ack k ids now fs s) = snd (exec (OpAck k ids now) fs s)"
  by (simp_all add: exec_def out_as_def)

lemma sound_stores [sound_rules]:
  "sound c (h_store (store_route_status k now fs))"
  "sound c (h_store (store_invite_create k lid ch rh bun sg until now (max_slots (invite_limits c)) fs))"
  "sound c (h_store (store_invite_redeem k now th verify fs))"
  "sound c (h_store (store_invite_revoke k verify fs))"
  "sound c (h_store (store_enqueue k lid mid b now (max_queue_depth (app_limits c))
     (max_route_count (app_controls c)) ticket fs))"
  "sound c (h_store (store_pull k mx mb now mode fs))"
  "sound c (h_store (store_ack k ids now fs))"
  by (rule sound_h_store [OF _ snd_exec(2)], simp add: app_within_def within_def,
      rule sound_h_store [OF _ snd_exec(3)], simp add: app_within_def within_def,
      rule sound_h_store [OF _ snd_exec(4)], simp add: app_within_def within_def,
      rule sound_h_store [OF _ snd_exec(5)], simp add: app_within_def within_def,
      rule sound_h_store [OF _ snd_exec(6)], simp add: app_within_def within_def,
      rule sound_h_store [OF _ snd_exec(7)], simp add: app_within_def within_def,
      rule sound_h_store [OF _ snd_exec(8)], simp add: app_within_def within_def)

lemma update_buckets_step:
  assumes "\<And>b k. f b k = None \<or> f b k = b k"
  shows "app_step\<^sup>*\<^sup>* st (update_buckets f st)"
proof (cases "lock (push_rates st)")
  case (Some b)
  then show ?thesis
    using step_prune [OF Some, of "f b"] assms by (simp add: update_buckets_def r_into_rtranclp)
qed (simp add: update_buckets_def)

lemma foldl_remove: "foldl (\<lambda>b key. b(key := None)) b ks k = (if k \<in> set ks then None else b k)"
  by (induction ks arbitrary: b) auto

lemma sound_buckets [sound_rules]:
  "sound c (h_prune stats)" "sound c (h_drop_bucket key)"
  using update_buckets_step [of "\<lambda>b. foldl (\<lambda>b key. b(key := None)) b (removed_route_keys stats)"]
    update_buckets_step [of "\<lambda>b. b(key := None)"]
  by (auto simp: sound_def h_prune_def h_drop_bucket_def drop_rate_bucket_def
      log_and_prune_sweep_def foldl_remove)

lemma sound_gates [sound_rules]: "sound c (push_gate amb key lid)" "sound c (create_gate amb)"
proof -
  show "sound c (push_gate amb key lid)"
    unfolding sound_def
  proof (intro allI impI)
    fix st
    show "app_step\<^sup>*\<^sup>* st (snd (snd (push_gate amb key lid st)))"
    proof (cases "lock (push_rates st)")
      case (Some b)
      then show ?thesis
        using step_gate [OF Some refl, where t = "mono_ns amb" and key = key]
        by (auto simp: push_gate_def Let_def split: prod.split intro!: r_into_rtranclp)
    qed (simp add: push_gate_def)
  qed
  show "sound c (create_gate amb)"
    unfolding sound_def
  proof (intro allI impI)
    fix st
    show "app_step\<^sup>*\<^sup>* st (snd (snd (create_gate amb st)))"
    proof (cases "lock (invite_create_rate st)")
      case (Some b)
      then show ?thesis
        using step_create_gate [OF Some refl, where t = "mono_ns amb"]
        by (auto simp: create_gate_def Let_def split: prod.split intro!: r_into_rtranclp)
    qed (simp add: create_gate_def)
  qed
qed

lemma sound_case_option [sound_rules]:
  "(\<And>x. sound c (f x)) \<Longrightarrow> sound c m \<Longrightarrow> sound c (case o' of None \<Rightarrow> m | Some x \<Rightarrow> f x)"
  by (cases o') simp_all

lemma sound_if [sound_rules]:
  "sound c m \<Longrightarrow> sound c m' \<Longrightarrow> sound c (if b then m else m')"
  by simp

lemma sound_parts [sound_rules]:
  "sound c (h_auth sha headers)" "sound c (h_route_token headers)" "sound c (h_json parse data code)"
proof -
  show "sound c (h_auth sha headers)" unfolding h_auth_def by (intro sound_rules)
  show "sound c (h_route_token headers)"
    unfolding h_route_token_def by (cases "resolve_route_token headers") (auto intro: sound_rules)
  show "sound c (h_json parse data code)"
    unfolding h_json_def by (cases "parse data") (auto intro: sound_rules)
qed

lemma sound_push: "sound c (push_message sha amb headers data)"
proof -
  have answer: "sound c (push_answer key lid mid n out)" for key lid mid n out
    unfolding push_answer_def by (cases out) (auto intro!: sound_rules)
  show ?thesis
    unfolding push_message_def push_admit_def push_status_def push_enqueue_def Let_def
    by (intro sound_rules answer)
qed

lemma sound_pull: "sound c (pull_message sha amb headers q)"
proof -
  have "sound c (pull_admit sha headers q)"
    unfolding pull_admit_def Let_def by (intro sound_rules)
  moreover have "sound c (pull_store amb key mx mode)" for key mx mode
    unfolding pull_store_def Let_def by (intro sound_rules)
  ultimately show ?thesis
    unfolding pull_message_def Let_def by (auto intro!: sound_rules split: prod.split)
qed

lemma sound_ack: "sound c (ack_messages sha parse amb headers data)"
  unfolding ack_messages_def Let_def by (intro sound_rules)

lemma sound_create: "sound c (invite_create sha parse amb headers data)"
proof -
  have "sound c (create_validate amb req)" for req
    unfolding create_validate_def Let_def
    by (cases "b64_decode (create_bundle_b64 req)"; cases "b64_decode (create_sig_b64 req)")
       (auto intro!: sound_rules)
  moreover have "sound c (create_answer lid until token m out)" for out lid until token m
    unfolding create_answer_def by (cases out) (auto intro!: sound_rules)
  ultimately show ?thesis
    unfolding invite_create_def Let_def by (auto intro!: sound_rules split: prod.split)
qed

lemma sound_redeem: "sound c (invite_redeem sha parse amb headers data)"
proof -
  have "sound c (case out of Redeemed bun sg \<Rightarrow> h_info (InviteRedeemed lid) | _ \<Rightarrow> h_return ())" for out lid
    by (cases out) (auto intro!: sound_rules)
  then show ?thesis unfolding invite_redeem_def Let_def by (intro sound_rules)
qed

lemma sound_revoke: "sound c (invite_revoke sha parse amb headers data)"
  unfolding invite_revoke_def Let_def by (intro sound_rules)

lemma serve_steps: "app_step\<^sup>*\<^sup>* st (snd (snd (serve sha p amb req st)))"
proof -
  have "sound st (app sha p amb req)"
    by (cases req) (simp_all add: app_def sound_push sound_pull sound_ack sound_create sound_redeem
        sound_revoke sound_basic)
  then show ?thesis
    by (auto simp: sound_def serve_def split: prod.split sum.split)
qed

lemma sweep_steps: "app_step\<^sup>*\<^sup>* st (snd (snd (run_retention_sweep amb st)))"
proof -
  obtain r s where rs: "store_retention_sweep (now_unix_secs amb) (faults1 amb) (store st) = (r, s)"
    by (cases "store_retention_sweep (now_unix_secs amb) (faults1 amb) (store st)")
  have "app_within st (OpSweep (now_unix_secs amb))" by (simp add: app_within_def within_def)
  then have first: "app_step st (st\<lparr>store := s\<rparr>)"
    by (rule step_store [where fs = "faults1 amb"]) (metis rs snd_conv snd_exec(1))
  show ?thesis
  proof (cases r)
    case (Inr stats)
    have "app_step\<^sup>*\<^sup>* (st\<lparr>store := s\<rparr>) (snd (log_and_prune_sweep stats (st\<lparr>store := s\<rparr>)))"
      using update_buckets_step [of "\<lambda>b. foldl (\<lambda>b key. b(key := None)) b (removed_route_keys stats)"]
      by (simp add: log_and_prune_sweep_def foldl_remove)
    with first show ?thesis
      by (auto simp: run_retention_sweep_def rs Inr split: prod.split)
  qed (use first in \<open>simp add: run_retention_sweep_def rs\<close>)
qed

end
