(* ===== verification/Service.thy ===== *)
theory Service imports Relay begin

text \<open>
  What clients and operators may rely on at the HTTP surface: the bearer gate, the caps under
  any interleaving, replies that report errors and change nothing, the delivery of pushed
  messages, the publication and redemption of invites, and what the logs can reveal.
\<close>

subsection \<open>Reachable relays\<close>

inductive app_reachable :: "AppState \<Rightarrow> bool" where
  started: "AppState_new_full lim ctl token cfg info il (Some f) fs t = Inr st \<Longrightarrow>
    limits_wf lim \<Longrightarrow> controls_wf ctl \<Longrightarrow> invite_limits_wf il \<Longrightarrow> db_ok (rows f) \<Longrightarrow>
    capped (max_queue_depth lim) (max_route_count ctl) (max_slots il) (rows f) \<Longrightarrow> app_reachable st"
| stepped: "app_reachable st \<Longrightarrow> app_step st st' \<Longrightarrow> app_reachable st'"

lemma data_same:
  assumes "data_of g = data_of f"
  shows "db_ok (rows g) = db_ok (rows f)" and "capped D R S (rows g) = capped D R S (rows f)"
  using assms by (simp_all add: data_of_def db_ok_def mail_ok_def slots_ok_def capped_def queue_def)

lemma new_full_ok:
  assumes "AppState_new_full lim ctl token cfg info il (Some f) fs t = Inr st"
    and "limits_wf lim" and "db_ok (rows f)"
    and "capped (max_queue_depth lim) (max_route_count ctl) (max_slots il) (rows f)"
  shows "app_ok st" and "app_limits st = lim" "app_controls st = ctl" "invite_limits st = il"
    and "int (app_retention_ttl_secs st) = st_retention_ttl_secs (store st)"
proof -
  obtain r f' where ro: "Store_open cfg (Some f) fs = (r, f')" by (cases "Store_open cfg (Some f) fs")
  with assms(1) obtain s ttl where s: "r = Inr s" "retention_ttl_or_error (cfg_retention_ttl_secs cfg) = Inr ttl"
    and st: "st = \<lparr>store = s, push_rates = Mutex False (\<lambda>_. None), app_limits = lim,
      app_controls = ctl, relay_token = token, app_retention_ttl_secs = ttl, server_info = info,
      invite_limits = il,
      invite_create_rate = Mutex False (bucket_new t (invite_bucket_controls il))\<rparr>"
    by (auto simp: AppState_new_full_def ro res_bind_def split: sum.splits)
  show "app_limits st = lim" "app_controls st = ctl" "invite_limits st = il" by (simp_all add: st)
  from ro obtain g where g: "data_of g = data_of f" "s = \<lparr>conn = Mutex False (rows g),
      st_retention_ttl_secs = usize_as_i64 (min (cfg_retention_ttl_secs cfg) MAX_RETENTION_TTL_SECS_CEILING),
      st_pull_lease_secs = usize_as_i64 (min (cfg_pull_lease_secs cfg) MAX_PULL_LEASE_SECS_CEILING)\<rparr>"
    by (cases rule: open_cases) (simp_all add: s)
  have "ttl = min (cfg_retention_ttl_secs cfg) MAX_RETENTION_TTL_SECS_CEILING"
    using s(2) by (simp add: retention_ttl_or_error_def split: if_splits)
  then show "int (app_retention_ttl_secs st) = st_retention_ttl_secs (store st)"
    by (simp add: st g(2) usize_as_i64_small ceiling_defs min_less_iff_disj)
  show "app_ok st"
    using assms(2-4) data_same [OF g(1)]
    by (simp add: app_ok_def st g(2) store_wf_def limits_wf_def)
qed

lemma app_reachable_ok: "app_reachable st \<Longrightarrow> app_ok st"
  by (induction rule: app_reachable.induct) (simp_all add: new_full_ok app_step_ok)

lemma app_reachable_wf:
  "app_reachable st \<Longrightarrow> limits_wf (app_limits st) \<and> controls_wf (app_controls st) \<and>
   invite_limits_wf (invite_limits st) \<and> int (app_retention_ttl_secs st) = st_retention_ttl_secs (store st)"
proof (induction rule: app_reachable.induct)
  case (started lim ctl token cfg info il f fs t st)
  then show ?case using new_full_ok(2-5) [OF started(1,2,5,6)] by simp
next
  case (stepped st st')
  then show ?case using app_step_config [OF stepped(2)] by (simp add: config_of_def)
qed

lemma app_reachable_steps: "app_step\<^sup>*\<^sup>* st st' \<Longrightarrow> app_reachable st \<Longrightarrow> app_reachable st'"
  by (induction rule: rtranclp.induct) (auto intro: stepped)

text \<open>
  C11: The relay's limits hold under every schedule. In any state reached from a start-up on a
  legal configuration, and on a file whose rows are within its caps, by any interleaving of the atomic steps of any requests and sweeps, with
  any failures, every queue is within the queue cap, the live routes within the route cap, the
  slots within the slot cap, no mutex is poisoned and no rate bucket exceeds its burst.
\<close>

theorem relay_limits:
  assumes "app_reachable st"
  shows "length (queue (tables (store st)) k) \<le> max_queue_depth (app_limits st) \<and>
    length (routes (tables (store st))) \<le> max_route_count (app_controls st) \<and>
    length (invites (tables (store st))) \<le> max_slots (invite_limits st) \<and>
    \<not> poisoned (conn (store st)) \<and> \<not> poisoned (push_rates st) \<and> \<not> poisoned (invite_create_rate st) \<and>
    (case inner (push_rates st) k of None \<Rightarrow> True | Some b \<Rightarrow> tokens b \<le> push_rate_burst (app_controls st))"
  using app_reachable_ok [OF assms]
  by (auto simp: app_ok_def capped_def store_wf_def bucket_ok_def split: option.split)

lemma serve_reachable:
  assumes "app_reachable st" and "serve sha p amb req st = (r, l, st')"
  shows "app_reachable st'" and "config_of st' = config_of st"
  using app_reachable_steps [OF serve_steps assms(1), of sha p amb req]
    steps_config [OF serve_steps, of sha p amb req st] assms(2) by simp_all

subsection \<open>The bearer gate\<close>

definition request_headers :: "request \<Rightarrow> headers" where
  "request_headers req =
    (case req of
       PushReq h b \<Rightarrow> h | PullReq h q \<Rightarrow> h | AckReq h b \<Rightarrow> h | CreateReq h b \<Rightarrow> h
     | RedeemReq h b \<Rightarrow> h | RevokeReq h b \<Rightarrow> h | InfoReq h \<Rightarrow> h)"

lemma h_auth_refused:
  "\<not> auth_ok sha h (relay_token st) \<Longrightarrow> h_auth sha h st = (Inl (Reply 401 (Code ''ERR_UNAUTHORIZED'')), [], st)"
  by (simp add: h_auth_def h_bind_def h_get_def h_guard_def h_reply_def)

lemma h_bind_auth_refused:
  "\<not> auth_ok sha h (relay_token st) \<Longrightarrow>
   h_bind (h_auth sha h) f st = (Inl (Reply 401 (Code ''ERR_UNAUTHORIZED'')), [], st)"
  by (simp add: h_bind_def h_auth_refused)

text \<open>
  C18: Nothing passes the bearer gate. On every route a request without the right token is
  answered 401, changes nothing at all (no queue, no slot, no rate bucket) and logs nothing;
  the answer is the same for a missing and for a wrong token, also on the capability document.
\<close>

theorem unauthorized_is_inert:
  assumes "\<not> auth_ok sha (request_headers req) (relay_token st)"
  shows "serve sha p amb req st =
    (Reply 401 (case req of InfoReq h \<Rightarrow> InfoProbe | _ \<Rightarrow> Code ''ERR_UNAUTHORIZED''), [], st)"
  using assms
  by (cases req)
     (simp_all add: serve_def app_def push_message_def push_admit_def pull_message_def pull_admit_def
       ack_messages_def invite_create_def invite_redeem_def invite_revoke_def
       server_info_handler_def request_headers_def h_run(5) h_bind_auth_refused)

subsection \<open>Replies that report an error\<close>

definition final :: "response + response \<Rightarrow> response" where
  "final r = (case r of Inl x \<Rightarrow> x | Inr x \<Rightarrow> x)"

lemma final_simps [simp]: "final (Inl x) = x" "final (Inr x) = x"
  by (simp_all add: final_def)

definition keeps_store :: "'a handler \<Rightarrow> bool" where
  "keeps_store m \<longleftrightarrow> (\<forall>st. store (snd (snd (m st))) = store st)"

definition succeeds :: "response handler \<Rightarrow> bool" where
  "succeeds m \<longleftrightarrow> (\<forall>st. reply_status (final (fst (m st))) < 400)"

definition error_inert :: "response handler \<Rightarrow> bool" where
  "error_inert m \<longleftrightarrow>
     (\<forall>st. store_wf (store st) \<longrightarrow> 400 \<le> reply_status (final (fst (m st))) \<longrightarrow>
        store (snd (snd (m st))) = store st)"

named_theorems keep_rules

lemma keeps_store_bind [keep_rules]:
  assumes "keeps_store m" and "\<And>x. keeps_store (f x)"
  shows "keeps_store (h_bind m f)"
  unfolding keeps_store_def
proof
  fix st
  obtain r l st1 where m: "m st = (r, l, st1)" by (cases "m st")
  then have s1: "store st1 = store st" using assms(1) unfolding keeps_store_def by (metis snd_conv)
  show "store (snd (snd (h_bind m f st))) = store st"
  proof (cases r)
    case (Inr x)
    have "store (snd (snd (f x st1))) = store st1" using assms(2) unfolding keeps_store_def by blast
    then show ?thesis using m s1 Inr by (cases "f x st1") (simp add: h_bind_def)
  qed (use m s1 in \<open>simp add: h_bind_def\<close>)
qed

lemma store_update_buckets [simp]: "store (update_buckets f st) = store st"
  by (simp add: update_buckets_def split: option.split)

lemma keeps_store_basic [keep_rules]:
  "keeps_store (h_return x)" "keeps_store (h_reply n p)" "keeps_store (h_info e)"
  "keeps_store (h_guard b n code)" "keeps_store (h_get g)" "keeps_store (create_gate amb)"
  "keeps_store (h_prune stats)" "keeps_store (h_drop_bucket key)"
  "keeps_store (push_gate amb key lid)"
  by (auto simp: keeps_store_def h_run h_guard_def create_gate_def Let_def h_prune_def
      h_drop_bucket_def drop_rate_bucket_def log_and_prune_sweep_def push_gate_def
      split: option.split prod.split)

lemma keeps_store_parts [keep_rules]:
  "keeps_store (h_auth sha headers)" "keeps_store (h_route_token headers)"
  "keeps_store (h_json parse data code)" "keeps_store (create_validate amb req)"
  "keeps_store (pull_admit sha headers q)"
proof -
  show auth: "keeps_store (h_auth sha headers)" unfolding h_auth_def by (intro keep_rules)
  show token: "keeps_store (h_route_token headers)"
    unfolding h_route_token_def by (cases "resolve_route_token headers") (auto intro: keep_rules)
  show "keeps_store (h_json parse data code)"
    unfolding h_json_def by (cases "parse data") (auto intro: keep_rules)
  show "keeps_store (create_validate amb req)"
    unfolding create_validate_def Let_def
    by (cases "b64_decode (create_bundle_b64 req)"; cases "b64_decode (create_sig_b64 req)")
       (auto intro!: keep_rules)
  have "keeps_store (case o' of None \<Rightarrow> h_return (c, m, Legacy) | Some a \<Rightarrow>
      if a = ''lease'' then h_return (c, m, Lease) else h_reply 400 (Code ''ERR_BAD_ACK_MODE''))"
    for o' :: "string option" and c :: string and m :: nat
    by (cases o') (auto intro: keep_rules)
  then show "keeps_store (pull_admit sha headers q)"
    unfolding pull_admit_def Let_def by (intro keep_rules auth token)
qed

lemma error_inert_bind [keep_rules]:
  assumes "keeps_store m" and "\<And>x. error_inert (f x)"
  shows "error_inert (h_bind m f)"
  unfolding error_inert_def
proof (intro allI impI)
  fix st
  assume wf: "store_wf (store st)" and err: "400 \<le> reply_status (final (fst (h_bind m f st)))"
  obtain r l st1 where m: "m st = (r, l, st1)" by (cases "m st")
  then have s1: "store st1 = store st" using assms(1) unfolding keeps_store_def by (metis snd_conv)
  show "store (snd (snd (h_bind m f st))) = store st"
  proof (cases r)
    case (Inr x)
    have "fst (h_bind m f st) = fst (f x st1)" "snd (snd (h_bind m f st)) = snd (snd (f x st1))"
      using m Inr by (cases "f x st1"; simp add: h_bind_def)+
    then show ?thesis using assms(2) wf err s1 unfolding error_inert_def by metis
  qed (use m s1 in \<open>simp add: h_bind_def\<close>)
qed

lemma keeps_inert [keep_rules]: "keeps_store m \<Longrightarrow> error_inert m"
  by (simp add: keeps_store_def error_inert_def)

text \<open>A store call: its error leaves the store alone; an outcome either left it alone or is
  answered with success.\<close>

lemma error_inert_store:
  assumes "\<And>s e s'. store_wf s \<Longrightarrow> F s = (Inl e, s') \<Longrightarrow> s' = s"
    and "\<And>s out s'. store_wf s \<Longrightarrow> F s = (Inr out, s') \<Longrightarrow>
      (s' = s \<and> keeps_store (G out)) \<or> succeeds (G out)"
  shows "error_inert (h_bind (h_store F) G)"
  unfolding error_inert_def
proof (intro allI impI)
  fix st
  assume wf: "store_wf (store st)"
    and err: "400 \<le> reply_status (final (fst (h_bind (h_store F) G st)))"
  obtain r s where F: "F (store st) = (r, s)" by (cases "F (store st)")
  show "store (snd (snd (h_bind (h_store F) G st))) = store st"
  proof (cases r)
    case (Inl e)
    then show ?thesis using assms(1) [OF wf] F by (simp add: h_bind_def h_store_def run_store_def)
  next
    case (Inr out)
    have run: "h_bind (h_store F) G st = (case G out (st\<lparr>store := s\<rparr>) of (r, l, st') \<Rightarrow> (r, l, st'))"
      using F Inr by (simp add: h_bind_def h_store_def run_store_def)
    have "\<not> succeeds (G out)"
      using err run unfolding succeeds_def by (metis (no_types, lifting) case_prod_beta fst_conv not_le prod.collapse)
    then have "s = store st" "keeps_store (G out)" using assms(2) [OF wf] F Inr by auto
    then show ?thesis
      using run unfolding keeps_store_def by (simp split: prod.split)
  qed
qed

lemma store_same: "store_wf s \<Longrightarrow> s\<lparr>conn := Mutex False (tables s)\<rparr> = s"
  by (cases s; cases "conn s") (simp add: store_wf_def)

lemma store_tx_outcome:
  assumes "faithful b" and "store_wf s" and "store_tx b fs s = (r, s')"
  shows "s' = s \<and> (\<exists>e. r = Inl e) \<or>
    (\<exists>out. r = Inr out) \<and> s' = s\<lparr>conn := Mutex False (snd (run_tx b [] (tables s)))\<rparr> \<and>
      r = fst (run_tx b [] (tables s))"
proof -
  obtain d where d: "conn s = Mutex False d" "s\<lparr>conn := Mutex False d\<rparr> = s"
    using assms(2) by (cases s; cases "conn s") (simp add: store_wf_def)
  obtain q d' where q: "run_tx b [] d = (q, d')" by (cases "run_tx b [] d")
  from run_tx_faults [OF assms(1), of fs d] q
  consider "run_tx b fs d = (q, d')" | e where "run_tx b fs d = (Inl e, d)" by auto
  then show ?thesis
  proof cases
    case 1
    then have s': "r = q" "s' = s\<lparr>conn := Mutex False d'\<rparr>"
      using assms(3) d by (simp_all add: store_tx_def)
    show ?thesis
    proof (cases q)
      case (Inl e)
      then have "d' = d" using q by (auto simp: run_tx_def split: sum.splits tx_end.splits)
      with Inl s' d show ?thesis by simp
    qed (use s' q d in simp)
  qed (use assms(3) d in \<open>auto simp: store_tx_def\<close>)
qed

lemma h_bind_assoc: "h_bind (h_bind m f) g = h_bind m (\<lambda>x. h_bind (f x) g)"
  by (rule ext) (simp add: h_bind_def split: prod.split sum.split)

text \<open>Store calls whose every outcome is a success, and calls that roll back what they refuse.\<close>

lemma error_inert_committing:
  assumes "\<And>s. F s = store_tx (b s) fs s" and "\<And>s. faithful (b s)" and "\<And>out. succeeds (G out)"
  shows "error_inert (h_bind (h_store F) G)"
proof (rule error_inert_store)
  fix s e s' assume "store_wf s" "F s = (Inl e, s')"
  then show "s' = s" using store_tx_outcome [OF assms(2) \<open>store_wf s\<close>, of s fs] by (simp add: assms(1))
qed (use assms(3) in blast)

lemma error_inert_refusing:
  assumes "\<And>s. F s = store_tx (b s) fs s" and "\<And>s. faithful (b s)"
    and "\<And>s out. store_wf s \<Longrightarrow> fst (run_tx (b s) [] (tables s)) = Inr out \<Longrightarrow>
      (snd (run_tx (b s) [] (tables s)) = tables s \<and> keeps_store (G out)) \<or> succeeds (G out)"
  shows "error_inert (h_bind (h_store F) G)"
proof (rule error_inert_store)
  fix s e s' assume "store_wf s" "F s = (Inl e, s')"
  then show "s' = s" using store_tx_outcome [OF assms(2) \<open>store_wf s\<close>, of s fs] by (simp add: assms(1))
next
  fix s out s' assume wf: "store_wf s" and F: "F s = (Inr out, s')"
  have "fst (run_tx (b s) [] (tables s)) = Inr out"
    "s' = s\<lparr>conn := Mutex False (snd (run_tx (b s) [] (tables s)))\<rparr>"
    using store_tx_outcome [OF assms(2) wf, of s fs "Inr out" s'] F by (auto simp: assms(1))
  then show "(s' = s \<and> keeps_store (G out)) \<or> succeeds (G out)"
    using assms(3) [OF wf] store_same [OF wf] by metis
qed

lemma inert_pull: "error_inert (pull_message sha amb headers q)"
proof -
  have ok: "succeeds (h_bind (h_prune (pull_sweep out)) (\<lambda>_.
      h_bind (if pull_drained out then h_drop_bucket key else h_return ()) (\<lambda>_.
      pull_answer_items lid (pull_items out))))" for out key lid
    by (auto simp: succeeds_def h_bind_def h_prune_def h_drop_bucket_def h_return_def
        pull_answer_items_def split: prod.split)
  have "error_inert (h_bind (pull_store amb key mx mode) (\<lambda>out.
      h_bind (h_prune (pull_sweep out)) (\<lambda>_.
      h_bind (if pull_drained out then h_drop_bucket key else h_return ()) (\<lambda>_.
      pull_answer_items lid (pull_items out)))))" for key mx mode lid
    unfolding pull_store_def Let_def h_bind_assoc
    by (intro keep_rules error_inert_committing [OF store_pull_def _ ok] sql_sim)
  then show ?thesis
    unfolding pull_message_def Let_def
    by (intro error_inert_bind [OF keeps_store_parts(5)]) (simp split: prod.split)
qed

lemma inert_ack: "error_inert (ack_messages sha parse amb headers data)"
proof -
  have ok: "succeeds (h_bind (h_prune (ack_sweep out)) (\<lambda>_.
      h_bind (if ack_drained out then h_drop_bucket key else h_return ()) (\<lambda>_.
      h_bind (h_info (Acknowledged lid (acked out))) (\<lambda>_.
      h_return (Reply 200 (AckResp (acked out)))))))" for out key lid
    by (auto simp: succeeds_def h_bind_def h_prune_def h_drop_bucket_def h_return_def h_info_def
        split: prod.split)
  show ?thesis
    unfolding ack_messages_def Let_def
    by ((rule error_inert_bind, rule keep_rules)+)
       (intro error_inert_committing [OF store_ack_def _ ok] sql_sim)
qed

lemma inert_create: "error_inert (invite_create sha parse amb headers data)"
proof -
  have call: "error_inert (h_bind (h_store (store_invite_create slot lid ch rh bun sg until now cap fs))
      (create_answer lid' until' token m))"
    for slot lid ch rh bun sg until now cap fs lid' until' token m
  proof (rule error_inert_refusing [OF store_invite_create_def])
    show "faithful (invite_create_tx (st_retention_ttl_secs s) slot lid ch rh bun sg until now cap)" for s
      by (rule sql_sim)
    fix s out
    assume "fst (run_tx (invite_create_tx (st_retention_ttl_secs s) slot lid ch rh bun sg until now cap) [] (tables s)) = Inr out"
    then show "(snd (run_tx (invite_create_tx (st_retention_ttl_secs s) slot lid ch rh bun sg until now cap) [] (tables s)) = tables s
        \<and> keeps_store (create_answer lid' until' token m out)) \<or> succeeds (create_answer lid' until' token m out)"
      by (auto simp: invite_create_run Let_def create_answer_def succeeds_def h_bind_def h_info_def
          h_return_def keeps_store_def split: if_splits)
  qed
  show ?thesis
    unfolding invite_create_def Let_def
    by ((rule error_inert_bind, rule keep_rules)+) (simp add: call split: prod.split)
qed

lemma inert_redeem: "error_inert (invite_redeem sha parse amb headers data)"
proof -
  define G where "G = (\<lambda>lid ticket out.
     h_bind (case out of Redeemed bun sg \<Rightarrow> h_info (InviteRedeemed lid) | _ \<Rightarrow> h_return ()) (\<lambda>_.
     h_return (redeem_reply ticket out)))"
  have "error_inert (h_bind (h_store (store_invite_redeem slot now th verify fs)) (G lid ticket))"
    for slot now th verify fs lid ticket
  proof (rule error_inert_refusing [OF store_invite_redeem_def])
    show "faithful (invite_redeem_tx slot now th verify)" by (rule sql_sim)
    fix s out
    assume wf: "store_wf s" and out: "fst (run_tx (invite_redeem_tx slot now th verify) [] (tables s)) = Inr out"
    have dist: "distinct (map slot_key (invites (tables s)))"
      using wf by (simp add: store_wf_def db_ok_def slots_ok_def)
    have keep: "keeps_store (G lid ticket out)" if "\<forall>b g. out \<noteq> Redeemed b g"
      using that by (cases out) (auto simp: G_def intro!: keep_rules)
    have succ: "succeeds (G lid ticket (Redeemed b g))" for b g
      by (simp add: G_def succeeds_def h_bind_def h_info_def h_return_def redeem_reply_def)
    show "(snd (run_tx (invite_redeem_tx slot now th verify) [] (tables s)) = tables s
        \<and> keeps_store (G lid ticket out)) \<or> succeeds (G lid ticket out)"
    proof (cases "redeem_refusal slot now verify (tables s)")
      case None
      then show ?thesis using out succ by (auto simp: invite_redeem_run [OF dist])
    next
      case (Some r)
      then have "\<forall>b g. r \<noteq> Redeemed b g"
        by (auto simp: redeem_refusal_def split: option.splits if_splits)
      then show ?thesis using out keep Some by (auto simp: invite_redeem_run [OF dist])
    qed
  qed
  note call = this [unfolded G_def]
  show ?thesis
    unfolding invite_redeem_def Let_def by ((rule error_inert_bind, rule keep_rules)+, rule call)
qed

lemma inert_revoke: "error_inert (invite_revoke sha parse amb headers data)"
proof -
  define G where "G = (\<lambda>lid out.
     h_bind (if out = Revoked \<or> out = AlreadyRevoked then h_info (InviteRevoked lid) else h_return ()) (\<lambda>_.
     h_return (revoke_reply out)))"
  have "error_inert (h_bind (h_store (store_invite_revoke slot verify fs)) (G lid))" for slot verify fs lid
  proof (rule error_inert_refusing [OF store_invite_revoke_def])
    show "faithful (invite_revoke_tx slot verify)" by (rule sql_sim)
    fix s out
    assume out: "fst (run_tx (invite_revoke_tx slot verify) [] (tables s)) = Inr out"
    have keep: "keeps_store (G lid out)" unfolding G_def by (intro keep_rules) (auto intro: keep_rules)
    have succ: "succeeds (G lid Revoked)"
      by (simp add: G_def succeeds_def h_bind_def h_info_def h_return_def revoke_reply_def)
    show "(snd (run_tx (invite_revoke_tx slot verify) [] (tables s)) = tables s
        \<and> keeps_store (G lid out)) \<or> succeeds (G lid out)"
      using out keep succ by (auto simp: invite_revoke_run split: option.splits)
  qed
  note call = this [unfolded G_def]
  show ?thesis
    unfolding invite_revoke_def Let_def by ((rule error_inert_bind, rule keep_rules)+, rule call)
qed

lemma inert_info: "error_inert (server_info_handler sha headers)"
  by (simp add: error_inert_def server_info_handler_def)

text \<open>
  C26: An error reply changes nothing. On every route but the push, whenever a reachable relay
  answers with a client or server error, whatever the error and whatever failed, the store is
  exactly what it was: no message is removed or leased, no slot is created, spent or revoked.
\<close>

theorem error_reply_inert:
  assumes "app_reachable st" and "serve sha p amb req st = (r, l, st')" and "400 \<le> reply_status r"
    and "\<forall>h b. req \<noteq> PushReq h b"
  shows "store st' = store st"
proof -
  have "error_inert (app sha p amb req)"
    using assms(4)
    by (cases req) (simp_all add: app_def inert_pull inert_ack inert_create inert_redeem
        inert_revoke inert_info)
  moreover have "store_wf (store st)" using app_reachable_ok [OF assms(1)] by (simp add: app_ok_def)
  moreover have "r = final (fst (app sha p amb req st))" "st' = snd (snd (app sha p amb req st))"
    using assms(2) by (auto simp: serve_def split: prod.splits sum.splits)
  ultimately show ?thesis using assms(3) unfolding error_inert_def by blast
qed

end
