(* ===== verification/Exchange.thy ===== *)
theory Exchange imports Service begin

text \<open>
  Handlers run backwards: from the reply of a push, a pull, a create or a redeem to what its
  store calls decided and what they left in the tables. The theorems about exchanges between
  clients rest on these lemmas.
\<close>

subsection \<open>Inverting handlers\<close>

lemma serve_final:
  "fst (serve sha p amb req st) = final (fst (app sha p amb req st))"
  by (simp add: serve_def split: prod.split sum.split)

lemma h_bind_InrE:
  assumes "h_bind m f st = (Inr y, l, st')"
  obtains x l1 st1 l2 where "m st = (Inr x, l1, st1)" "f x st1 = (Inr y, l2, st')" "l = l1 @ l2"
  using assms by (auto simp: h_bind_def split: prod.splits sum.splits)

lemma h_bind_InlE:
  assumes "h_bind m f st = (Inl r, l, st')"
  obtains "m st = (Inl r, l, st')"
  | x l1 st1 l2 where "m st = (Inr x, l1, st1)" "f x st1 = (Inl r, l2, st')" "l = l1 @ l2"
  using assms by (auto simp: h_bind_def split: prod.splits sum.splits)

lemma h_bind_Inr:
  "h_bind m f st = (Inr y, l, st') \<longleftrightarrow>
   (\<exists>x l1 st1 l2. m st = (Inr x, l1, st1) \<and> f x st1 = (Inr y, l2, st') \<and> l = l1 @ l2)"
  by (auto simp: h_bind_def split: prod.splits sum.splits)

lemma h_Inr:
  "h_get g st = (Inr x, l, st') \<longleftrightarrow> x = g st \<and> l = [] \<and> st' = st"
  "h_guard b n code st = (Inr u, l, st') \<longleftrightarrow> \<not> b \<and> l = [] \<and> st' = st"
  "h_return y st = (Inr x, l, st') \<longleftrightarrow> x = y \<and> l = [] \<and> st' = st"
  "h_reply n p st = (Inr x, l, st') \<longleftrightarrow> False"
  "h_info e st = (Inr u, l, st') \<longleftrightarrow> l = [e] \<and> st' = st"
  "h_auth sha headers st = (Inr u, l, st') \<longleftrightarrow> auth_ok sha headers (relay_token st) \<and> l = [] \<and> st' = st"
  "h_json parse data code st = (Inr req, l, st') \<longleftrightarrow> parse data = Some req \<and> l = [] \<and> st' = st"
  by (auto simp: h_get_def h_guard_def h_return_def h_reply_def h_info_def h_auth_def h_bind_def
      h_json_def split: option.splits)

text \<open>Handlers whose early replies all satisfy \<open>P\<close>.\<close>

definition early :: "(response \<Rightarrow> bool) \<Rightarrow> 'a handler \<Rightarrow> bool" where
  "early P m \<longleftrightarrow> (\<forall>st. case fst (m st) of Inl r \<Rightarrow> P r | Inr x \<Rightarrow> True)"

named_theorems early_rules

lemma early_bind [early_rules]:
  assumes "early P m" and "\<And>x. early P (f x)"
  shows "early P (h_bind m f)"
  unfolding early_def
proof
  fix st
  show "case fst (h_bind m f st) of Inl r \<Rightarrow> P r | Inr x \<Rightarrow> True"
  proof (cases "fst (h_bind m f st)")
    case (Inl r)
    then obtain l st' where "h_bind m f st = (Inl r, l, st')" by (metis prod.collapse)
    then show ?thesis
    proof (cases rule: h_bind_InlE)
      case 1
      then show ?thesis using assms(1) Inl unfolding early_def by (metis fst_conv sum.case(1))
    next
      case (2 x l1 st1 l2)
      then show ?thesis using assms(2) Inl unfolding early_def by (metis fst_conv sum.case(1))
    qed
  qed simp
qed

definition refusal_ok :: "response \<Rightarrow> bool" where
  "refusal_ok r \<longleftrightarrow> 400 \<le> reply_status r \<and> reply_payload r \<noteq> Code ''ERR_INVITE_EXPIRED''"

lemma early_basic [early_rules]:
  "early P (h_return x)" "early P (h_get g)" "early P (h_info e)" "early P (h_prune stats)"
  "early P (h_drop_bucket key)"
  "P (Reply n p) \<Longrightarrow> early P (h_reply n p)"
  "P (Reply n (Code code)) \<Longrightarrow> early P (h_guard b n code)"
  by (auto simp: early_def h_run h_guard_def h_prune_def h_drop_bucket_def split: prod.split)

lemma early_store [early_rules]: "P (Reply 500 (Code ''ERR_STORE'')) \<Longrightarrow> early P (h_store f)"
  by (auto simp: early_def h_store_def run_store_def split: prod.split sum.split)

lemma early_parts [early_rules]:
  assumes "P (Reply 401 (Code ''ERR_UNAUTHORIZED''))"
    and "P (Reply 400 (Code ''ERR_MISSING_ROUTE_TOKEN''))" "P (Reply 400 (Code ''ERR_BAD_ROUTE_TOKEN''))"
    and "P (Reply 500 (Code ''ERR_LOCK_POISON''))" "P (Reply 429 (Code ''ERR_RATE_LIMITED''))"
  shows "early P (h_auth sha headers)" "early P (h_route_token headers)" "early P (push_gate amb key lid)"
proof -
  show "early P (h_auth sha headers)" unfolding h_auth_def by (intro early_rules assms)
  show "early P (h_route_token headers)"
    using assms(2,3) resolve_route_token_error [of headers] unfolding h_route_token_def
    by (cases "resolve_route_token headers") (auto intro: early_rules)
  show "early P (push_gate amb key lid)"
    using assms(4,5) by (auto simp: early_def push_gate_def Let_def split: option.split prod.split)
qed

lemma early_push_status: "early refusal_ok (push_status amb key lid)"
proof -
  have "early refusal_ok (if a then h_bind (h_info e) (\<lambda>_. h_reply 429 (Code ''ERR_OVERLOADED''))
      else if b then h_bind (h_info e') (\<lambda>_. h_reply 429 (Code ''ERR_ROUTE_CAP'')) else h_return ())"
    for a b e e'
    by (auto intro!: early_rules simp: refusal_ok_def)
  then show ?thesis
    unfolding push_status_def by (intro early_rules) (simp_all add: refusal_ok_def)
qed

lemma early_push:
  "early refusal_ok (push_admit sha headers data)" "early refusal_ok (push_gate amb key lid)"
  "early refusal_ok (push_enqueue sha amb headers data key lid mid)"
  "early refusal_ok (push_answer key lid mid n out)"
proof -
  show "early refusal_ok (push_admit sha headers data)"
    unfolding push_admit_def by (intro early_rules) (simp_all add: refusal_ok_def)
  show "early refusal_ok (push_gate amb key lid)"
    by (intro early_rules) (simp_all add: refusal_ok_def)
  show "early refusal_ok (push_enqueue sha amb headers data key lid mid)"
    unfolding push_enqueue_def by (intro early_rules) (simp_all add: refusal_ok_def)
  show "early refusal_ok (push_answer key lid mid n out)"
    unfolding push_answer_def by (cases out) (auto intro!: early_rules simp: refusal_ok_def)
qed

lemma early_push_message_parts:
  "early refusal_ok (push_message sha amb headers data)"
  unfolding push_message_def Let_def by (intro early_bind early_push early_push_status)

subsection \<open>What a push does to the tables\<close>

lemma store_tx_Inr:
  assumes "faithful b" and "store_wf s" and "store_tx b fs s = (Inr out, s')"
  shows "s' = s\<lparr>conn := Mutex False (snd (run_tx b [] (tables s)))\<rparr>"
    and "fst (run_tx b [] (tables s)) = Inr out"
  using store_tx_outcome [OF assms] by auto

lemma push_admit_Inr:
  assumes "push_admit sha headers data st = (Inr channel, l, st')"
  shows "st' = st" and "l = []" and "resolve_route_token headers = Inr channel"
    and "auth_ok sha headers (relay_token st)" and "data \<noteq> []"
    and "length data \<le> max_body_bytes (app_limits st)"
  using assms
  by (auto simp: push_admit_def h_auth_def h_route_token_def h_bind_def h_get_def h_guard_def
      h_return_def h_reply_def split: if_splits sum.splits)

lemma push_status_Inr:
  assumes "push_status amb key lid st = (Inr x, l, st')" and "store_wf (store st)"
  shows "store st' = (store st)\<lparr>conn := Mutex False
     (swept (st_retention_ttl_secs (store st)) (now_unix_secs amb) (tables (store st)))\<rparr>"
    and "app_limits st' = app_limits st" "app_controls st' = app_controls st"
proof -
  obtain status l1 st1 where call: "h_store (store_route_status key (now_unix_secs amb) (faults1 amb)) st =
      (Inr status, l1, st1)"
    using assms(1) unfolding push_status_def by (elim h_bind_InrE)
  then have "store_route_status key (now_unix_secs amb) (faults1 amb) (store st) = (Inr status, store st1)"
    and frame: "app_limits st1 = app_limits st" "app_controls st1 = app_controls st"
    by (auto simp: h_store_def run_store_def split: prod.splits sum.splits)
  then have s1: "store st1 = (store st)\<lparr>conn := Mutex False
      (swept (st_retention_ttl_secs (store st)) (now_unix_secs amb) (tables (store st)))\<rparr>"
    using store_tx_Inr(1) [OF _ assms(2)] faithful_bodies(2)
    unfolding store_route_status_def by (metis route_status_run snd_conv)
  have prune: "store (snd (snd (h_prune stats s))) = store s"
    "app_limits (snd (snd (h_prune stats s))) = app_limits s"
    "app_controls (snd (snd (h_prune stats s))) = app_controls s" for stats s
    by (simp_all add: h_prune_def log_and_prune_sweep_def update_buckets_def split: option.split)
  have "st' = snd (snd (h_prune (status_sweep status) st1))"
    using assms(1) call
    by (auto simp: push_status_def h_bind_def h_get_def h_info_def h_reply_def h_return_def
        split: prod.splits sum.splits if_splits)
  then show "store st' = (store st)\<lparr>conn := Mutex False
     (swept (st_retention_ttl_secs (store st)) (now_unix_secs amb) (tables (store st)))\<rparr>"
    "app_limits st' = app_limits st" "app_controls st' = app_controls st"
    using s1 frame prune by simp_all
qed

lemma push_gate_Inr:
  assumes "push_gate amb key lid st = (Inr x, l, st')"
  shows "store st' = store st" and "app_limits st' = app_limits st" "app_controls st' = app_controls st"
  using assms by (auto simp: push_gate_def Let_def split: option.splits prod.splits if_splits)

lemma push_enqueue_Inr:
  assumes "push_enqueue sha amb headers data key lid mid st = (Inr out, l, st')" and "store_wf (store st)"
  shows "fst (run_tx (enqueue_tx key lid mid data (now_unix_secs amb) (max_queue_depth (app_limits st))
      (max_route_count (app_controls st)) (push_ticket sha headers)) [] (tables (store st))) = Inr out"
    and "tables (store st') = snd (run_tx (enqueue_tx key lid mid data (now_unix_secs amb)
      (max_queue_depth (app_limits st)) (max_route_count (app_controls st)) (push_ticket sha headers)) []
      (tables (store st)))"
    and "st_retention_ttl_secs (store st') = st_retention_ttl_secs (store st)"
proof -
  have "store_enqueue key lid mid data (now_unix_secs amb) (max_queue_depth (app_limits st))
      (max_route_count (app_controls st)) (push_ticket sha headers) (faults2 amb) (store st) = (Inr out, store st')"
    using assms(1)
    by (auto simp: push_enqueue_def h_bind_def h_get_def h_store_def run_store_def
        split: prod.splits sum.splits)
  from store_tx_Inr [OF _ assms(2) this [unfolded store_enqueue_def]] faithful_bodies(6)
  show "fst (run_tx (enqueue_tx key lid mid data (now_unix_secs amb) (max_queue_depth (app_limits st))
      (max_route_count (app_controls st)) (push_ticket sha headers)) [] (tables (store st))) = Inr out"
    and "tables (store st') = snd (run_tx (enqueue_tx key lid mid data (now_unix_secs amb)
      (max_queue_depth (app_limits st)) (max_route_count (app_controls st)) (push_ticket sha headers)) []
      (tables (store st)))"
    and "st_retention_ttl_secs (store st') = st_retention_ttl_secs (store st)"
    by simp_all
qed

lemma push_answer_Inr:
  assumes "push_answer key lid mid n out st = (Inr r, l, st')"
  obtains "out = Accepted" "r = Reply 200 (PostResp mid)" "st' = st"
  | reason where "out = SlotRejected reason" "r = slot_reply reason" "st' = st"
  using assms
  by (cases out) (auto simp: push_answer_def h_bind_def h_info_def h_return_def h_get_def h_reply_def
      h_drop_bucket_def)

text \<open>The routes that a sweep removes.\<close>

lemma removed_keys:
  assumes "mail_ok d"
  shows "set (removed_route_keys (sweep_stats ttl now d)) =
    {k. has_route k d \<and> \<not> has_route k (swept ttl now d)}"
proof -
  have keys: "has_route k (swept ttl now d) \<longleftrightarrow> (\<exists>m \<in> set (queue d k). \<not> expired ttl now m)" for k
    by (auto simp: mail_ok_has_route [OF mail_ok_swept [OF assms]] queue_swept [OF assms] filter_empty_conv)
  have idle: "route_idle (drop_expired ttl now d) r \<longleftrightarrow> (\<forall>m \<in> set (queue d (rt_key r)). expired ttl now m)" for r
    by (auto simp: route_idle_def drop_expired_def queue_def filter_empty_conv)
  have "\<exists>m \<in> set (queue d k). True" if "has_route k d" for k
    using mail_ok_has_route [OF assms, of k] that by (cases "queue d k") auto
  then have "filter (expired ttl now) (messages d) \<noteq> []"
    if "has_route k d" "\<forall>m \<in> set (queue d k). expired ttl now m" for k
    using that by (fastforce simp: queue_def filter_empty_conv)
  moreover have "k \<in> set (map rt_key (filter (route_idle (drop_expired ttl now d)) (routes d))) \<longleftrightarrow>
      has_route k d \<and> (\<forall>m \<in> set (queue d k). expired ttl now m)" for k
    by (auto simp: idle has_route_def)
  ultimately show ?thesis
    unfolding sweep_stats_def by (auto simp: keys simp del: set_map set_filter)
qed

lemma store_wf_swept:
  assumes "store_wf s"
  shows "store_wf (s\<lparr>conn := Mutex False (swept (st_retention_ttl_secs s) now (tables s))\<rparr>)"
  using assms db_ok_swept by (simp add: store_wf_def)

text \<open>A push that got to its last store call: what it decided and what it left.\<close>

lemma push_message_Inr:
  assumes "push_message sha amb headers data st = (Inr r, l, st')" and "store_wf (store st)"
    and "resolve_route_token headers = Inr channel"
  defines "key \<equiv> route_key_for sha channel" and "lid \<equiv> channel_log_id channel"
    and "mid \<equiv> push_msg_id amb headers" and "now \<equiv> now_unix_secs amb"
    and "d \<equiv> swept (st_retention_ttl_secs (store st)) (now_unix_secs amb) (tables (store st))"
  obtains "r = Reply 200 (PostResp mid)" "slot_refusal key now (push_ticket sha headers) d = None"
      "tables (store st') = accepted key lid mid data now d" "auth_ok sha headers (relay_token st)"
  | reason where "r = slot_reply reason" "slot_refusal key now (push_ticket sha headers) d = Some reason"
proof -
  obtain x1 l1 st1 x2 l2 st2 x3 l3 st3 out l4 st4 l5 where
      s1: "push_admit sha headers data st = (Inr x1, l1, st1)"
    and s2: "push_status amb key lid st1 = (Inr x2, l2, st2)"
    and s3: "push_gate amb key lid st2 = (Inr x3, l3, st3)"
    and s4: "push_enqueue sha amb headers data key lid mid st3 = (Inr out, l4, st4)"
    and s5: "push_answer key lid mid (length data) out st4 = (Inr r, l5, st')"
    using assms(1) push_admit_Inr(3)
    unfolding push_message_def Let_def key_def lid_def mid_def
    by (elim h_bind_InrE) (metis assms(3) sum.inject(2))
  note a = push_admit_Inr [OF s1]
  have b: "store st2 = (store st)\<lparr>conn := Mutex False d\<rparr>"
    using push_status_Inr(1) [OF s2] assms(2) a(1) by (simp add: d_def)
  then have c: "tables (store st3) = d" "store_wf (store st3)"
    using push_gate_Inr(1) [OF s3] store_wf_swept [OF assms(2)] by (simp_all add: d_def)
  note e = push_enqueue_Inr [OF s4 c(2), unfolded c(1) enqueue_run]
  from s5 show thesis
  proof (cases rule: push_answer_Inr)
    case 1
    then show ?thesis
      using that(1) e a(4) by (auto simp: now_def capacity_refusal_def split: option.splits if_splits)
  next
    case (2 reason)
    then show ?thesis
      using that(2) e by (auto simp: now_def capacity_refusal_def split: option.splits if_splits)
  qed
qed

subsection \<open>What a pull answers\<close>

text \<open>An admitted pull without failures, in either mode, answers with the messages that its
  store call selects.\<close>

lemma store_pull_items:
  assumes "conn s = Mutex False d"
  shows "\<exists>out s'. store_pull k mx mb now mode [] s = (Inr out, s') \<and>
    pull_items out = map (\<lambda>m. (msg_id m, body m)) (pulled now k mx mb (swept (st_retention_ttl_secs s) now d))"
  using assms
  by (cases mode) (simp_all add: store_pull_def store_tx_def lock_def pull_legacy_run pull_lease_run Let_def)

lemma pull_message_run:
  assumes "auth_ok sha headers (relay_token st)" and "resolve_route_token headers = Inr channel"
    and "query_max q \<noteq> Some 0" and "query_ack q \<in> {None, Some ''lease''}"
    and "store_wf (store st)" and "faults1 amb = []"
  defines "mx \<equiv> min (unwrap_or (query_max q) 1) (max_queue_depth (app_limits st))"
    and "mb \<equiv> max PULL_BUDGET_BYTES (max_body_bytes (app_limits st))"
    and "d \<equiv> swept (st_retention_ttl_secs (store st)) (now_unix_secs amb) (tables (store st))"
  defines "ms \<equiv> pulled (now_unix_secs amb) (route_key_for sha channel) mx mb d"
  shows "final (fst (pull_message sha amb headers q st)) =
    (if ms = [] then Reply 204 NoBody else Reply 200 (PullResp (map (\<lambda>m. (msg_id m, body m)) ms)))"
proof -
  define mode where "mode = (if query_ack q = None then Legacy else Lease)"
  have pos: "unwrap_or (query_max q) 1 \<noteq> 0" using assms(3) by (cases "query_max q") (auto simp: unwrap_or_def)
  have admit: "pull_admit sha headers q st = (Inr (channel, mx, mode), [], st)"
    using assms(1,2,4) pos
    by (auto simp: pull_admit_def h_auth_def h_route_token_def h_bind_def h_get_def h_guard_def
        h_return_def Let_def mx_def mode_def)
  obtain d0 where conn: "conn (store st) = Mutex False d0"
    using assms(5) by (cases "conn (store st)") (simp add: store_wf_def)
  then have d0: "tables (store st) = d0" by simp
  obtain out s' where call: "store_pull (route_key_for sha channel) mx mb (now_unix_secs amb) mode [] (store st)
      = (Inr out, s')" and items: "pull_items out = map (\<lambda>m. (msg_id m, body m)) ms"
    using store_pull_items [OF conn] unfolding ms_def d_def d0 by blast
  have store: "pull_store amb (route_key_for sha channel) mx mode st = (Inr out, [], st\<lparr>store := s'\<rparr>)"
    using call by (simp add: pull_store_def h_bind_def h_get_def h_store_def run_store_def assms(6) mb_def Let_def)
  show ?thesis
    unfolding pull_message_def h_bind_def admit
    by (simp add: Let_def h_bind_def store h_prune_def h_drop_bucket_def h_return_def pull_answer_items_def
        items split: prod.split)
qed

subsection \<open>What a create leaves and a redeem answers\<close>

abbreviation slot_until :: "AppState \<Rightarrow> ambient \<Rightarrow> InviteCreateReq \<Rightarrow> int" where
  "slot_until st amb req \<equiv> min (create_expiry req)
     (i64_sat_add (now_unix_secs amb) (usize_as_i64 (max_expiry_secs (invite_limits st))))"

lemma early_create:
  "early (\<lambda>r. 400 \<le> reply_status r) (invite_create sha parse amb headers data)"
proof -
  let ?P = "\<lambda>r. 400 \<le> reply_status r"
  have json: "early ?P (h_json parse data ''ERR_INVITE_BAD_BODY'')"
    by (cases "parse data") (auto simp: h_json_def intro: early_rules)
  have gate: "early ?P (create_gate amb)"
    by (auto simp: early_def create_gate_def Let_def split: option.split prod.split)
  have valid: "early ?P (create_validate amb req)" for req
    unfolding create_validate_def Let_def
    by (cases "b64_decode (create_bundle_b64 req)"; cases "b64_decode (create_sig_b64 req)")
       (auto intro!: early_rules)
  have answer: "early ?P (create_answer lid until token m out)" for lid until token m out
    unfolding create_answer_def by (cases out) (auto intro!: early_rules)
  show ?thesis
    unfolding invite_create_def Let_def
    by (auto intro!: early_rules json gate valid answer split: prod.split)
qed

lemma create_gate_Inr:
  assumes "create_gate amb st = (Inr x, l, st')"
  shows "store st' = store st" and "invite_limits st' = invite_limits st"
  using assms by (auto simp: create_gate_def Let_def split: option.splits prod.splits if_splits)

lemma create_validate_Inr:
  assumes "create_validate amb req st = (Inr (bun, sg, until), l, st')"
  shows "b64_decode (create_bundle_b64 req) = Some bun" and "b64_decode (create_sig_b64 req) = Some sg"
    and "until = slot_until st amb req" and "st' = st" and "\<not> blank (create_invite_id req)"
    and "now_unix_secs amb < create_expiry req"
  using assms
  by (auto simp: create_validate_def h_bind_def h_get_def h_guard_def h_return_def h_reply_def Let_def
      split: if_splits option.splits)

lemma invite_create_Inr:
  assumes "invite_create sha parse amb headers data st = (Inr (Reply 200 x), l, st')"
    and "store_wf (store st)"
  obtains req bun sg where "parse data = Some req" "\<not> blank (create_invite_id req)"
    "b64_decode (create_bundle_b64 req) = Some bun" "b64_decode (create_sig_b64 req) = Some sg"
    "find_invite (route_key_for sha (create_invite_id req)) (tables (store st')) = Some
      (new_invite (route_key_for sha (create_invite_id req)) (channel_log_id (create_invite_id req))
        (create_cap_hash req) (sha256_hex sha (random_token_128 (uuid_bytes amb))) bun sg
        (slot_until st amb req) (now_unix_secs amb))"
proof -
  let ?cap = "max_slots (invite_limits st)" and ?token = "random_token_128 (uuid_bytes amb)"
  obtain u1 l1 a1 il l2 a2 u3 l3 a3 u4 l4 st2 req l5 a5 v l6 a6 l7 where
      steps: "h_auth sha headers st = (Inr u1, l1, a1)" "h_get invite_limits a1 = (Inr il, l2, a2)"
      "h_guard (invite_create_body_cap (max_bundle_bytes il) < length data) 413 ''ERR_INVITE_TOO_LARGE'' a2
        = (Inr u3, l3, a3)"
      "h_json parse data ''ERR_INVITE_BAD_BODY'' st2 = (Inr req, l5, a5)"
    and gate': "create_gate amb a3 = (Inr u4, l4, st2)"
    and valid': "create_validate amb req a5 = (Inr v, l6, a6)"
    and tail: "(case v of (bun, sg, until) \<Rightarrow>
        h_bind (h_store (store_invite_create (route_key_for sha (create_invite_id req))
          (channel_log_id (create_invite_id req)) (create_cap_hash req) (sha256_hex sha ?token) bun sg
          until (now_unix_secs amb) (max_slots il) (faults1 amb)))
          (create_answer (channel_log_id (create_invite_id req)) until ?token (max_slots il))) a6
        = (Inr (Reply 200 x), l7, st')"
    using assms(1) unfolding invite_create_def Let_def by (elim h_bind_InrE) blast
  from steps have same': "a3 = st" "a5 = st2" "il = invite_limits st" and parse: "parse data = Some req"
    by (simp_all add: h_Inr)
  obtain bun sg until where v: "v = (bun, sg, until)" by (cases v)
  note gate = gate' [unfolded same'] and valid = valid' [unfolded same' v]
  note until = create_validate_Inr(3) [OF valid] and a6 = create_validate_Inr(4) [OF valid]
  obtain out l8 st3 l9 where call: "h_store (store_invite_create (route_key_for sha (create_invite_id req))
        (channel_log_id (create_invite_id req)) (create_cap_hash req) (sha256_hex sha ?token) bun sg
        (slot_until st2 amb req) (now_unix_secs amb) ?cap (faults1 amb)) st2 = (Inr out, l8, st3)"
    and answer: "create_answer (channel_log_id (create_invite_id req)) until ?token ?cap out st3
        = (Inr (Reply 200 x), l9, st')"
    using tail unfolding v case_prod_conv a6 same' until by (elim h_bind_InrE)
  have created: "out = Created" "st3 = st'"
    using answer by (cases out; simp add: create_answer_def h_bind_Inr h_Inr)+
  note same = create_gate_Inr [OF gate]
  have "store_invite_create (route_key_for sha (create_invite_id req))
        (channel_log_id (create_invite_id req)) (create_cap_hash req) (sha256_hex sha ?token) bun sg
        (slot_until st2 amb req) (now_unix_secs amb) ?cap (faults1 amb) (store st) = (Inr Created, store st')"
    using call same(1) unfolding created
    by (auto simp: h_store_def run_store_def split: prod.splits sum.splits)
  note tx = store_tx_Inr [OF faithful_bodies(3) assms(2) this [unfolded store_invite_create_def]]
  have "find_invite (route_key_for sha (create_invite_id req)) (tables (store st')) = Some
      (new_invite (route_key_for sha (create_invite_id req)) (channel_log_id (create_invite_id req))
        (create_cap_hash req) (sha256_hex sha ?token) bun sg (slot_until st amb req) (now_unix_secs amb))"
    using tx(2) unfolding tx(1)
    by (auto simp: invite_create_run Let_def find_invite_add new_invite_def same(2) split: if_splits)
  then show thesis
    by (rule that [OF parse create_validate_Inr(5,1,2) [OF valid]])
qed

text \<open>A redemption of an active slot with the secret of its capability.\<close>

lemma redeem_message_run:
  assumes "auth_ok sha headers (relay_token st)" and "length data \<le> INVITE_REDEEM_BODY_CAP"
    and "parse data = Some req" and "\<not> blank (redeem_invite_id req)" and "\<not> blank (redeem_cap req)"
    and "store_wf (store st)" and "faults1 amb = []"
    and "find_invite (route_key_for sha (redeem_invite_id req)) (tables (store st)) = Some i"
    and "inv_state i = INVITE_ACTIVE" and "now_unix_secs amb < expiry i"
    and "sha256_hex sha (redeem_cap req) = cap_hash i"
  shows "final (fst (invite_redeem sha parse amb headers data st)) =
    Reply 200 (InviteRedeemResp (b64_encode (inv_bundle i)) (b64_encode (inv_sig i))
      (random_token_128 (uuid_bytes amb)))"
proof -
  let ?k = "route_key_for sha (redeem_invite_id req)" and ?now = "now_unix_secs amb"
  let ?th = "sha256_hex sha (random_token_128 (uuid_bytes amb))"
  let ?verify = "ct_eq_secret sha (sha256_hex sha (redeem_cap req))"
  obtain d where conn: "conn (store st) = Mutex False d"
    using assms(6) by (cases "conn (store st)") (simp add: store_wf_def)
  then have dist: "distinct (map slot_key (invites d))" and find: "find_invite ?k d = Some i"
    using assms(6,8) by (simp_all add: store_wf_def db_ok_def slots_ok_def)
  have "redeem_refusal ?k ?now ?verify d = None"
    using assms(9,10,11) by (simp add: redeem_refusal_def find)
  then have "run_tx (invite_redeem_tx ?k ?now ?th ?verify) [] d =
      (Inr (Redeemed (inv_bundle i) (inv_sig i)), consume_slot ?k ?now ?th d)"
    by (simp add: invite_redeem_run [OF dist] find)
  then have "h_store (store_invite_redeem ?k ?now ?th ?verify (faults1 amb)) st = (Inr (Redeemed (inv_bundle i) (inv_sig i)), [],
      st\<lparr>store := (store st)\<lparr>conn := Mutex False (consume_slot ?k ?now ?th d)\<rparr>\<rparr>)"
    by (simp add: h_store_def run_store_def store_invite_redeem_def store_tx_def conn lock_def assms(7))
  moreover have "h_auth sha headers st = (Inr (), [], st)"
    using assms(1) by (simp add: h_Inr(6))
  ultimately show ?thesis
    using assms(2-5)
    by (simp add: invite_redeem_def h_bind_def h_guard_def h_return_def h_json_def h_info_def Let_def
        redeem_reply_def)
qed

subsection \<open>A push that nothing refuses\<close>

lemma push_admit_run:
  assumes "auth_ok sha headers (relay_token st)" and "resolve_route_token headers = Inr channel"
    and "data \<noteq> []" and "length data \<le> max_body_bytes (app_limits st)"
  shows "push_admit sha headers data st = (Inr channel, [], st)"
  using assms
  by (simp add: push_admit_def h_auth_def h_route_token_def h_bind_def h_get_def h_guard_def h_return_def)

lemma push_status_run:
  assumes "store_wf (store st)" and "faults1 amb = []" and "\<not> poisoned (push_rates st)"
  defines "d \<equiv> swept (st_retention_ttl_secs (store st)) (now_unix_secs amb) (tables (store st))"
  assumes "capacity_refusal key (max_queue_depth (app_limits st)) (max_route_count (app_controls st)) d = None"
  shows "\<exists>l b. push_status amb key lid st = (Inr (), l,
      st\<lparr>store := (store st)\<lparr>conn := Mutex False d\<rparr>, push_rates := Mutex False b\<rparr>) \<and>
    (b key = None \<or> b key = inner (push_rates st) key)"
proof -
  obtain d0 where conn: "conn (store st) = Mutex False d0"
    using assms(1) by (cases "conn (store st)") (simp add: store_wf_def)
  obtain b0 where b0: "push_rates st = Mutex False b0" using assms(3) by (cases "push_rates st") simp
  let ?stats = "sweep_stats (st_retention_ttl_secs (store st)) (now_unix_secs amb) d0"
  let ?st1 = "st\<lparr>store := (store st)\<lparr>conn := Mutex False d\<rparr>\<rparr>"
  have call: "h_store (store_route_status key (now_unix_secs amb) (faults1 amb)) st =
      (Inr \<lparr>route_exists = has_route key d, depth = length (queue d key), live_routes = length (routes d),
        status_sweep = ?stats\<rparr>, [], ?st1)"
    by (simp add: h_store_def run_store_def store_route_status_def store_tx_def conn lock_def assms(2)
        route_status_run d_def)
  let ?b = "foldl (\<lambda>b key. b(key := None)) b0 (removed_route_keys ?stats)"
  have "\<exists>l. h_prune ?stats ?st1 = (Inr (), l, ?st1\<lparr>push_rates := Mutex False ?b\<rparr>)"
    using b0 by (cases st; cases "removed_route_keys ?stats = []")
      (simp_all add: h_prune_def log_and_prune_sweep_def update_buckets_def lock_def)
  moreover have "?b key = None \<or> ?b key = b0 key" by (simp add: foldl_remove)
  ultimately have "\<exists>l b. h_prune ?stats ?st1 = (Inr (), l, ?st1\<lparr>push_rates := Mutex False b\<rparr>) \<and>
      (b key = None \<or> b key = b0 key)" by blast
  with call assms(5) show ?thesis
    by (auto simp: push_status_def h_bind_def h_get_def h_return_def capacity_refusal_def b0
        split: if_splits)
qed

lemma push_gate_run:
  assumes "push_rates st = Mutex False b"
    and "fst (try_consume (app_controls st) (mono_ns amb)
      (unwrap_or (b key) (bucket_new (mono_ns amb) (app_controls st))))"
  shows "\<exists>b'. push_gate amb key lid st = (Inr (), [], st\<lparr>push_rates := Mutex False b'\<rparr>)"
  using assms by (auto simp: push_gate_def lock_def Let_def split: prod.split)

lemma push_enqueue_run:
  assumes "conn (store st) = Mutex False d" and "faults2 amb = []"
    and "slot_refusal key (now_unix_secs amb) (push_ticket sha headers) d = None"
    and "capacity_refusal key (max_queue_depth (app_limits st)) (max_route_count (app_controls st)) d = None"
    and "last_seq d < 2 ^ 63 - 1"
  shows "\<exists>st'. push_enqueue sha amb headers data key lid mid st = (Inr Accepted, [], st')"
  using assms
  by (simp add: push_enqueue_def h_bind_def h_get_def h_store_def run_store_def store_enqueue_def
      store_tx_def lock_def enqueue_run)

subsection \<open>A create that nothing refuses\<close>

lemma create_validate_run:
  assumes "\<not> blank (create_invite_id req)" and "\<not> blank (create_cap_hash req)"
    and "b64_decode (create_bundle_b64 req) = Some bun" and "b64_decode (create_sig_b64 req) = Some sg"
    and "bun \<noteq> []" and "sg \<noteq> []" and "length bun \<le> max_bundle_bytes (invite_limits st)"
    and "length sg \<le> max_bundle_bytes (invite_limits st)" and "now_unix_secs amb < create_expiry req"
  shows "create_validate amb req st = (Inr (bun, sg, slot_until st amb req), [], st)"
  using assms by (simp add: create_validate_def h_bind_def h_get_def h_guard_def h_return_def Let_def)

lemma create_store_run:
  assumes "conn (store st) = Mutex False d" and "faults1 amb = []"
    and "find_invite k (swept (st_retention_ttl_secs (store st)) (now_unix_secs amb) d) = None"
    and "length (invites (swept (st_retention_ttl_secs (store st)) (now_unix_secs amb) d)) < cap"
  shows "\<exists>st'. h_store (store_invite_create k lid ch rh bun sg until (now_unix_secs amb) cap (faults1 amb)) st =
    (Inr Created, [], st')"
  using assms
  by (simp add: h_store_def run_store_def store_invite_create_def store_tx_def lock_def invite_create_run Let_def)

lemma create_gate_run:
  assumes "\<not> poisoned (invite_create_rate st)"
    and "fst (try_consume (invite_bucket_controls (invite_limits st)) (mono_ns amb) (inner (invite_create_rate st)))"
  shows "\<exists>b. create_gate amb st = (Inr (), [], st\<lparr>invite_create_rate := b\<rparr>)"
  using assms
  by (cases "invite_create_rate st") (auto simp: create_gate_def lock_def Let_def split: prod.split)

end
