(* ===== verification/Clients.thy ===== *)
theory Clients imports Exchange begin

text \<open>
  What two clients that talk through the relay may rely on: a push and the pull that receives
  it, the publication of an invite and its redemption, the ticket that guards a slot, and what
  the logs depend on.
\<close>

subsection \<open>Slots seen from a push\<close>

lemma serve_push:
  assumes "serve sha p amb (PushReq headers data) st = (r, l, st')"
  shows "push_message sha amb headers data st = (Inr r, l, st') \<or> refusal_ok r"
proof (cases "push_message sha amb headers data st")
  case (fields q l' st'')
  then show ?thesis
    using assms early_push_message_parts [of sha amb headers data]
    by (cases q) (auto simp: serve_def app_def early_def dest: spec [of _ st])
qed

lemma push_message_route:
  assumes "push_message sha amb headers data st = (Inr r, l, st')"
  obtains channel where "resolve_route_token headers = Inr channel"
    "auth_ok sha headers (relay_token st)"
  using assms push_admit_Inr(3,4) unfolding push_message_def by (elim h_bind_InrE) metis

lemma find_invite_swept:
  assumes "db_ok d"
  shows "find_invite k (swept ttl now d) =
    (case find_invite k d of None \<Rightarrow> None | Some i \<Rightarrow> if expiry i \<le> now then None else Some i)"
proof -
  have "slots_ok (keep q d)" for q using assms by (simp add: db_ok_def slots_ok_def keep_def)
  then show ?thesis
    using assms by (simp add: db_ok_def swept_keep find_invite_drop_expired)
qed

lemma swept_never_expired:
  assumes "db_ok d"
  shows "slot_refusal k now ticket (swept ttl now d) \<noteq> Some SlotExpired"
  by (cases "find_invite k d")
     (auto simp: slot_refusal_def find_invite_swept [OF assms] slot_admission_def)

text \<open>
  Served without overlap, a push is never answered \<open>410 ERR_INVITE_EXPIRED\<close>: it sweeps the expired
  slots at its own time before it asks for the slot, so the route of an expired slot is an
  ordinary route again, open to every holder of its token. \<open>Expiry\<close> has the general case.
\<close>

lemma serve_push_never_expired:
  assumes "app_reachable st" and "serve sha p amb (PushReq headers data) st = (r, l, st')"
  shows "r \<noteq> Reply 410 (Code ''ERR_INVITE_EXPIRED'')"
proof -
  have wf: "store_wf (store st)" using app_reachable_ok [OF assms(1)] by (simp add: app_ok_def)
  then have ok: "db_ok (tables (store st))" by (simp add: store_wf_def)
  from serve_push [OF assms(2)] show ?thesis
  proof
    assume run: "push_message sha amb headers data st = (Inr r, l, st')"
    obtain channel where c: "resolve_route_token headers = Inr channel"
      using run by (rule push_message_route)
    show ?thesis
    proof (cases rule: push_message_Inr [OF run wf c])
      case (2 reason)
      then show ?thesis
        using swept_never_expired [OF ok] by (cases reason) (auto simp: slot_reply_def)
    qed simp
  qed (auto simp: refusal_ok_def)
qed

lemma push_accepted:
  assumes "app_reachable st" and "serve sha p amb (PushReq headers data) st = (Reply 200 x, l, st')"
    and "resolve_route_token headers = Inr channel"
  defines "key \<equiv> route_key_for sha channel" and "mid \<equiv> push_msg_id amb headers"
    and "d \<equiv> swept (st_retention_ttl_secs (store st)) (now_unix_secs amb) (tables (store st))"
  shows "x = PostResp mid" and "slot_refusal key (now_unix_secs amb) (push_ticket sha headers) d = None"
    and "tables (store st') = accepted key (channel_log_id channel) mid data (now_unix_secs amb) d"
    and "auth_ok sha headers (relay_token st)"
proof -
  have wf: "store_wf (store st)" using app_reachable_ok [OF assms(1)] by (simp add: app_ok_def)
  have run: "push_message sha amb headers data st = (Inr (Reply 200 x), l, st')"
    using serve_push [OF assms(2)] by (simp add: refusal_ok_def)
  have "slot_reply reason \<noteq> Reply 200 x" for reason
    by (cases reason) (simp_all add: slot_reply_def)
  then show "x = PostResp mid" "slot_refusal key (now_unix_secs amb) (push_ticket sha headers) d = None"
    "tables (store st') = accepted key (channel_log_id channel) mid data (now_unix_secs amb) d"
    "auth_ok sha headers (relay_token st)"
    unfolding key_def mid_def d_def
    by (cases rule: push_message_Inr [OF run wf assms(3)]; simp; metis)+
qed

text \<open>
  C24: A live slot takes exactly one kind of push. If a slot has not expired at the time of an
  accepted push into its route, the slot was redeemed and not revoked, the push carried the
  handshake ticket of that redemption (their digests agree), and afterwards the ticket is burnt:
  the slot still stands, without a ticket.
\<close>

theorem push_needs_ticket:
  assumes "app_reachable st" and "serve sha p amb (PushReq headers data) st = (Reply 200 x, l, st')"
    and "resolve_route_token headers = Inr channel"
    and "find_invite (route_key_for sha channel) (tables (store st)) = Some i"
    and "now_unix_secs amb < expiry i"
  shows "inv_state i = INVITE_CONSUMED \<and>
    (\<exists>stored verify. ticket_hash i = Some stored \<and> push_ticket sha headers = Some verify \<and> verify stored) \<and>
    find_invite (route_key_for sha channel) (tables (store st')) = Some (i\<lparr>ticket_hash := None\<rparr>)"
proof -
  let ?k = "route_key_for sha channel" and ?now = "now_unix_secs amb"
  let ?d = "swept (st_retention_ttl_secs (store st)) ?now (tables (store st))"
  have wf: "store_wf (store st)" using app_reachable_ok [OF assms(1)] by (simp add: app_ok_def)
  then have ok: "db_ok (tables (store st))" by (simp add: store_wf_def)
  have slot: "find_invite ?k ?d = Some i" using assms(4,5) by (simp add: find_invite_swept [OF ok])
  have "invite_ok i"
    using ok find_invite_in [OF assms(4)] by (auto simp: db_ok_def slots_ok_def)
  note push = push_accepted [OF assms(1-3)]
  have "slot_admission i ?now (push_ticket sha headers) = None"
    using push(2) by (simp add: slot_refusal_def slot)
  then show ?thesis
    using \<open>invite_ok i\<close>
    by (cases "ticket_hash i"; cases "push_ticket sha headers")
       (auto simp: slot_admission_def push(3) find_invite_accepted slot burn_def invite_ok_def split: if_splits)
qed

lemma fresh_bucket_admits:
  "controls_wf ctl \<Longrightarrow> fst (try_consume ctl t (bucket_new t ctl))"
  by (simp add: try_consume_def bucket_refill_def bucket_new_def controls_wf_def)

lemma push_accepts:
  assumes "app_reachable st" and "auth_ok sha headers (relay_token st)"
    and "resolve_route_token headers = Inr channel" and "data \<noteq> []"
    and "length data \<le> max_body_bytes (app_limits st)" and "faults1 amb = []" and "faults2 amb = []"
  defines "key \<equiv> route_key_for sha channel"
    and "d \<equiv> swept (st_retention_ttl_secs (store st)) (now_unix_secs amb) (tables (store st))"
  assumes "slot_refusal key (now_unix_secs amb) (push_ticket sha headers) d = None"
    and "capacity_refusal key (max_queue_depth (app_limits st)) (max_route_count (app_controls st)) d = None"
    and "case inner (push_rates st) key of None \<Rightarrow> True
      | Some b \<Rightarrow> fst (try_consume (app_controls st) (mono_ns amb) b)"
    and "last_seq (tables (store st)) < 2 ^ 63 - 1"
  shows "\<exists>l st'. serve sha p amb (PushReq headers data) st = (Reply 200 (PostResp (push_msg_id amb headers)), l, st')"
proof -
  let ?lid = "channel_log_id channel" and ?mid = "push_msg_id amb headers"
  have ok: "app_ok st" using assms(1) by (rule app_reachable_ok)
  then have wf: "store_wf (store st)" and np: "\<not> poisoned (push_rates st)" by (simp_all add: app_ok_def)
  have ctl: "controls_wf (app_controls st)" using app_reachable_wf [OF assms(1)] by simp
  obtain l1 b where s1: "push_status amb key ?lid st = (Inr (), l1,
      st\<lparr>store := (store st)\<lparr>conn := Mutex False d\<rparr>, push_rates := Mutex False b\<rparr>)"
    and b: "b key = None \<or> b key = inner (push_rates st) key"
    using push_status_run [OF wf assms(6) np assms(11) [unfolded d_def]] unfolding d_def by blast
  let ?st1 = "st\<lparr>store := (store st)\<lparr>conn := Mutex False d\<rparr>, push_rates := Mutex False b\<rparr>"
  have "fst (try_consume (app_controls st) (mono_ns amb)
      (unwrap_or (b key) (bucket_new (mono_ns amb) (app_controls st))))"
    using b assms(12) fresh_bucket_admits [OF ctl, of "mono_ns amb"]
    by (cases "b key") (auto simp: unwrap_or_def split: option.splits)
  then obtain b' where s2: "push_gate amb key ?lid ?st1 = (Inr (), [], ?st1\<lparr>push_rates := Mutex False b'\<rparr>)"
    using push_gate_run [of ?st1 b amb key] by auto
  have seq: "last_seq d < 2 ^ 63 - 1"
    using assms(13) by (simp add: d_def swept_def drop_expired_invites_def drop_idle_routes_def drop_expired_def)
  obtain st' where s3: "push_enqueue sha amb headers data key ?lid ?mid (?st1\<lparr>push_rates := Mutex False b'\<rparr>) =
      (Inr Accepted, [], st')"
    using push_enqueue_run [of "?st1\<lparr>push_rates := Mutex False b'\<rparr>" d amb key sha headers data ?lid ?mid]
      assms(7,10,11) seq by auto
  show ?thesis
    using s1 s2 s3
    by (simp add: serve_def app_def push_message_def h_bind_def push_admit_run [OF assms(2-5)] Let_def
        key_def [symmetric] push_answer_def h_info_def h_return_def)
qed

text \<open>
  C34: A legitimate push is accepted. If the client is admitted, names a route, sends a body
  within the limit, if nothing fails, the slot and the caps do not refuse it at its time, and
  the rate bucket of the route admits it (or there is none yet), the push is answered 200.
\<close>

theorem push_succeeds:
  assumes "app_reachable st" and "auth_ok sha headers (relay_token st)"
    and "resolve_route_token headers = Inr channel" and "data \<noteq> []"
    and "length data \<le> max_body_bytes (app_limits st)" and "faults1 amb = []" and "faults2 amb = []"
  defines "key \<equiv> route_key_for sha channel"
    and "d \<equiv> swept (st_retention_ttl_secs (store st)) (now_unix_secs amb) (tables (store st))"
  assumes "slot_refusal key (now_unix_secs amb) (push_ticket sha headers) d = None"
    and "capacity_refusal key (max_queue_depth (app_limits st)) (max_route_count (app_controls st)) d = None"
    and "case inner (push_rates st) key of None \<Rightarrow> True
      | Some b \<Rightarrow> fst (try_consume (app_controls st) (mono_ns amb) b)"
    and "last_seq (tables (store st)) < 2 ^ 63 - 1"
  shows "\<exists>l st'. serve sha p amb (PushReq headers data) st = (Reply 200 (PostResp (push_msg_id amb headers)), l, st')"
  by (rule push_accepts [OF assms(1-7) assms(10-13) [unfolded key_def d_def]])

lemma create_accepts:
  assumes "app_reachable st" and "auth_ok sha headers (relay_token st)" and "faults1 amb = []"
    and "length data \<le> invite_create_body_cap (max_bundle_bytes (invite_limits st))"
    and "parse_create p data = Some req"
    and "\<not> blank (create_invite_id req)" and "\<not> blank (create_cap_hash req)"
    and "b64_decode (create_bundle_b64 req) = Some bun" and "b64_decode (create_sig_b64 req) = Some sg"
    and "bun \<noteq> []" and "sg \<noteq> []" and "length bun \<le> max_bundle_bytes (invite_limits st)"
    and "length sg \<le> max_bundle_bytes (invite_limits st)" and "now_unix_secs amb < create_expiry req"
    and "fst (try_consume (invite_bucket_controls (invite_limits st)) (mono_ns amb) (inner (invite_create_rate st)))"
  defines "d \<equiv> swept (st_retention_ttl_secs (store st)) (now_unix_secs amb) (tables (store st))"
  assumes "find_invite (route_key_for sha (create_invite_id req)) d = None"
    and "length (invites d) < max_slots (invite_limits st)"
  shows "\<exists>l st'. serve sha p amb (CreateReq headers data) st =
    (Reply 200 (InviteCreateResp (random_token_128 (uuid_bytes amb))), l, st')"
proof -
  let ?k = "route_key_for sha (create_invite_id req)" and ?lid = "channel_log_id (create_invite_id req)"
  have ok: "app_ok st" using assms(1) by (rule app_reachable_ok)
  then obtain d0 where conn: "conn (store st) = Mutex False d0"
    by (cases "conn (store st)") (simp add: app_ok_def store_wf_def)
  obtain b where gate: "create_gate amb st = (Inr (), [], st\<lparr>invite_create_rate := b\<rparr>)"
    using create_gate_run [of st amb] ok assms(15) by (auto simp: app_ok_def)
  let ?st = "st\<lparr>invite_create_rate := b\<rparr>"
  have valid: "create_validate amb req ?st = (Inr (bun, sg, slot_until st amb req), [], ?st)"
    using create_validate_run [of req bun sg ?st amb] assms(6-14) by simp
  obtain st' where call: "h_store (store_invite_create ?k ?lid (create_cap_hash req)
      (sha256_hex sha (random_token_128 (uuid_bytes amb))) bun sg (slot_until st amb req) (now_unix_secs amb)
      (max_slots (invite_limits st)) (faults1 amb)) ?st = (Inr Created, [], st')"
    using create_store_run [of ?st d0 amb ?k "max_slots (invite_limits st)" ?lid "create_cap_hash req"
        "sha256_hex sha (random_token_128 (uuid_bytes amb))" bun sg "slot_until st amb req"] conn assms(3,17,18)
    unfolding d_def by auto
  have "h_auth sha headers st = (Inr (), [], st)"
    using assms(2) by (simp add: h_Inr(6))
  then show ?thesis
    using call assms(4,5)
    by (simp add: serve_def app_def invite_create_def h_bind_def h_get_def h_guard_def h_return_def h_json_def
        gate valid Let_def create_answer_def h_info_def)
qed

text \<open>
  A legitimate publication is accepted. If the client is admitted, its body is within the cap
  and parses to a well-formed invite within the bound that has not expired, if nothing fails,
  the global create bucket admits it, the slot is free and a slot is left at its time, the
  create is answered 200 with a revocation token.
\<close>

lemma create_succeeds:
  assumes "app_reachable st" and "auth_ok sha headers (relay_token st)" and "faults1 amb = []"
    and "length data \<le> invite_create_body_cap (max_bundle_bytes (invite_limits st))"
    and "parse_create p data = Some req"
    and "\<not> blank (create_invite_id req)" and "\<not> blank (create_cap_hash req)"
    and "b64_decode (create_bundle_b64 req) = Some bun" and "b64_decode (create_sig_b64 req) = Some sg"
    and "bun \<noteq> []" and "sg \<noteq> []" and "length bun \<le> max_bundle_bytes (invite_limits st)"
    and "length sg \<le> max_bundle_bytes (invite_limits st)" and "now_unix_secs amb < create_expiry req"
    and "fst (try_consume (invite_bucket_controls (invite_limits st)) (mono_ns amb) (inner (invite_create_rate st)))"
  defines "d \<equiv> swept (st_retention_ttl_secs (store st)) (now_unix_secs amb) (tables (store st))"
  assumes "find_invite (route_key_for sha (create_invite_id req)) d = None"
    and "length (invites d) < max_slots (invite_limits st)"
  shows "\<exists>l st'. serve sha p amb (CreateReq headers data) st =
    (Reply 200 (InviteCreateResp (random_token_128 (uuid_bytes amb))), l, st')"
  by (rule create_accepts [OF assms(1-15) assms(17,18) [unfolded d_def]])

subsection \<open>From one client to another\<close>

lemma pulled_single:
  assumes "queue d k = [m]" and "available now m" and "0 < mx" "mx < 2 ^ 63"
  shows "pulled now k mx mb d = [m]"
  using assms by (simp add: pulled_def usize_as_i64_small sql_limit_def take_Cons')

text \<open>
  C22: What one client pushes another pulls. After a push answered 200 into an empty queue, and
  any interleaving of other steps that leave that queue alone, a pull of the same route by any
  admitted client before the retention has passed, in either mode, with any positive maximum,
  is answered 200 with exactly that message: the identifier the push returned, and the pushed
  bytes.
\<close>

theorem push_then_pull:
  assumes "app_reachable st" and "serve sha p amb (PushReq headers data) st = (Reply 200 x, l, st1)"
    and "resolve_route_token headers = Inr channel"
    and "queue (tables (store st)) (route_key_for sha channel) = []"
    and "app_step\<^sup>*\<^sup>* st1 st2"
    and "queue (tables (store st2)) (route_key_for sha channel) =
      queue (tables (store st1)) (route_key_for sha channel)"
    and "resolve_route_token headers' = Inr channel" and "auth_ok sha headers' (relay_token st)"
    and "query_max q \<noteq> Some 0" and "query_ack q \<in> {None, Some ''lease''}" and "faults1 amb' = []"
    and "now_unix_secs amb' < now_unix_secs amb + int (app_retention_ttl_secs st)"
  shows "\<exists>mid. x = PostResp mid \<and>
    fst (serve sha p amb' (PullReq headers' q) st2) = Reply 200 (PullResp [(mid, data)])"
proof -
  let ?k = "route_key_for sha channel" and ?now = "now_unix_secs amb" and ?mid = "push_msg_id amb headers"
  let ?d = "swept (st_retention_ttl_secs (store st)) ?now (tables (store st))"
  have wf: "store_wf (store st)" using app_reachable_ok [OF assms(1)] by (simp add: app_ok_def)
  then have ok: "mail_ok (tables (store st))" by (simp add: store_wf_def db_ok_def)
  note push = push_accepted [OF assms(1-3)]
  have r1: "app_reachable st1" and c1: "config_of st1 = config_of st"
    using serve_reachable [OF assms(1,2)] by simp_all
  have r2: "app_reachable st2" and c2: "config_of st2 = config_of st"
    using app_reachable_steps [OF assms(5) r1] steps_config [OF assms(5)] c1 by simp_all
  have wf2: "store_wf (store st2)" using app_reachable_ok [OF r2] by (simp add: app_ok_def)
  then have ok2: "mail_ok (tables (store st2))" by (simp add: store_wf_def db_ok_def)
  let ?m = "new_message ?d ?mid ?k data ?now"
  have "queue (tables (store st2)) ?k = [?m]"
    using assms(4) by (simp add: assms(6) push(3) queue_accepted queue_swept [OF ok])
  then have queue: "queue (swept (st_retention_ttl_secs (store st2)) (now_unix_secs amb') (tables (store st2))) ?k = [?m]"
    using assms(12) c2 app_reachable_wf [OF assms(1)]
    by (simp add: queue_swept [OF ok2] expired_def new_message_def config_of_def)
  have depth: "0 < max_queue_depth (app_limits st2)" "max_queue_depth (app_limits st2) < 2 ^ 63"
    using app_reachable_wf [OF r2] by (simp_all add: limits_wf_def ceiling_defs)
  have "0 < unwrap_or (query_max q) 1" using assms(9) by (cases "query_max q") (auto simp: unwrap_or_def)
  then have "pulled (now_unix_secs amb') ?k (min (unwrap_or (query_max q) 1) (max_queue_depth (app_limits st2)))
      (max PULL_BUDGET_BYTES (max_body_bytes (app_limits st2)))
      (swept (st_retention_ttl_secs (store st2)) (now_unix_secs amb') (tables (store st2))) = [?m]"
    using depth by (intro pulled_single [OF queue]) (auto simp: available_def new_message_def)
  moreover have "auth_ok sha headers' (relay_token st2)" using assms(8) c2 by (simp add: config_of_def)
  ultimately have "fst (serve sha p amb' (PullReq headers' q) st2) = Reply 200 (PullResp [(?mid, data)])"
    by (simp add: serve_final app_def pull_message_run [OF _ assms(7,9,10) wf2 assms(11)] new_message_def)
  then show ?thesis using push(1) by blast
qed

text \<open>
  C23: What one client publishes as an invite another redeems. After a create answered 200, and
  any interleaving of other steps that leave the slot alone, a redemption before the slot's
  expiry by an admitted client that knows the secret of the published capability hash is
  answered 200 with a fresh ticket and with the two published strings, up to trailing padding.
\<close>

theorem publish_then_redeem:
  assumes "app_reachable st" and "serve sha p amb (CreateReq headers data) st = (Reply 200 x, l, st1)"
    and "parse_create p data = Some req" and "app_step\<^sup>*\<^sup>* st1 st2"
    and "find_invite (route_key_for sha (create_invite_id req)) (tables (store st2)) =
      find_invite (route_key_for sha (create_invite_id req)) (tables (store st1))"
    and "auth_ok sha headers' (relay_token st)" and "length data' \<le> INVITE_REDEEM_BODY_CAP"
    and "parse_redeem p data' = Some \<lparr>redeem_invite_id = create_invite_id req, redeem_cap = secret\<rparr>"
    and "\<not> blank secret" and "sha256_hex sha secret = create_cap_hash req" and "faults1 amb' = []"
    and "now_unix_secs amb' < create_expiry req"
    and "now_unix_secs amb' < i64_sat_add (now_unix_secs amb) (usize_as_i64 (max_expiry_secs (invite_limits st)))"
  shows "fst (serve sha p amb' (RedeemReq headers' data') st2) =
    Reply 200 (InviteRedeemResp (trim_end_matches CHR ''='' (create_bundle_b64 req))
      (trim_end_matches CHR ''='' (create_sig_b64 req)) (random_token_128 (uuid_bytes amb')))"
proof -
  let ?k = "route_key_for sha (create_invite_id req)"
  have wf: "store_wf (store st)" using app_reachable_ok [OF assms(1)] by (simp add: app_ok_def)
  have run: "invite_create sha (parse_create p) amb headers data st = (Inr (Reply 200 x), l, st1)"
    using early_create [of sha "parse_create p" amb headers data] assms(2)
    by (auto simp: serve_def app_def early_def dest!: spec [of _ st] split: prod.splits sum.splits)
  obtain req' bun sg where req': "parse_create p data = Some req'" and id': "\<not> blank (create_invite_id req')"
    and dec': "b64_decode (create_bundle_b64 req') = Some bun" "b64_decode (create_sig_b64 req') = Some sg"
    and slot': "find_invite (route_key_for sha (create_invite_id req')) (tables (store st1)) = Some
      (new_invite (route_key_for sha (create_invite_id req')) (channel_log_id (create_invite_id req'))
        (create_cap_hash req') (sha256_hex sha (random_token_128 (uuid_bytes amb))) bun sg
        (slot_until st amb req') (now_unix_secs amb))"
    by (rule invite_create_Inr [OF run wf])
  have "req' = req" using req' assms(3) by simp
  note id = id' [unfolded this] and dec = dec' [unfolded this] and slot = slot' [unfolded this]
  have r1: "app_reachable st1" and c1: "config_of st1 = config_of st"
    using serve_reachable [OF assms(1,2)] by simp_all
  have r2: "app_reachable st2" and c2: "config_of st2 = config_of st"
    using app_reachable_steps [OF assms(4) r1] steps_config [OF assms(4)] c1 by simp_all
  have wf2: "store_wf (store st2)" using app_reachable_ok [OF r2] by (simp add: app_ok_def)
  have auth2: "auth_ok sha headers' (relay_token st2)" using assms(6) c2 by (simp add: config_of_def)
  let ?i = "new_invite ?k (channel_log_id (create_invite_id req)) (create_cap_hash req)
      (sha256_hex sha (random_token_128 (uuid_bytes amb))) bun sg (slot_until st amb req) (now_unix_secs amb)"
  have "final (fst (invite_redeem sha (parse_redeem p) amb' headers' data' st2)) =
      Reply 200 (InviteRedeemResp (b64_encode (inv_bundle ?i)) (b64_encode (inv_sig ?i))
        (random_token_128 (uuid_bytes amb')))"
    by (rule redeem_message_run [where i = ?i and
          req = "\<lparr>redeem_invite_id = create_invite_id req, redeem_cap = secret\<rparr>"])
       (use auth2 wf2 id assms(5,7-13) slot in \<open>simp_all add: new_invite_def\<close>)
  then have "fst (serve sha p amb' (RedeemReq headers' data') st2) =
      Reply 200 (InviteRedeemResp (b64_encode bun) (b64_encode sg) (random_token_128 (uuid_bytes amb')))"
    by (simp add: serve_final app_def new_invite_def)
  then show ?thesis
    using dec b64.dec_iff by simp
qed

end
