(* ===== verification/Startup.thy ===== *)
theory Startup imports Config begin

text \<open>
  The configuration half of \<open>src/main.rs\<close>: the command-line options (as \<open>clap\<close> hands
  them over), the environment values and their strict parsing, and \<open>resolve_config\<close>, which
  merges them with the defaults (command line over environment over default), validates
  every setting and fails closed without a store path.
\<close>

subsection \<open>Inputs\<close>

record Cli =
  cli_bind :: "string option"
  cli_port :: "nat option"
  cli_max_body_bytes :: "nat option"
  cli_max_queue_depth :: "nat option"
  cli_max_route_count :: "nat option"
  cli_push_rate_burst :: "nat option"
  cli_push_rate_refill_per_sec :: "nat option"
  cli_route_idle_ttl_ms :: "nat option"
  cli_store_path :: "string option"
  cli_retention_ttl_secs :: "nat option"
  cli_pull_lease_secs :: "nat option"
  cli_max_invite_slots :: "nat option"
  cli_max_invite_bundle_bytes :: "nat option"
  cli_max_invite_expiry_secs :: "nat option"
  cli_invite_create_burst :: "nat option"
  cli_invite_create_refill_per_sec :: "nat option"

record EnvVals =
  env_bind :: "string option"
  env_port :: "nat option"
  env_max_body_bytes :: "nat option"
  env_max_queue_depth :: "nat option"
  env_max_route_count :: "nat option"
  env_push_rate_burst :: "nat option"
  env_push_rate_refill_per_sec :: "nat option"
  env_route_idle_ttl_ms_present :: bool
  env_store_path :: "string option"
  env_retention_ttl_secs :: "nat option"
  env_pull_lease_secs :: "nat option"
  env_max_invite_slots :: "nat option"
  env_max_invite_bundle_bytes :: "nat option"
  env_max_invite_expiry_secs :: "nat option"
  env_invite_create_burst :: "nat option"
  env_invite_create_refill_per_sec :: "nat option"

definition env_opt :: "environ \<Rightarrow> string \<Rightarrow> string option" where
  "env_opt env name = option_filter (\<lambda>v. \<not> blank v) (env name)"

definition env_u16 :: "environ \<Rightarrow> string \<Rightarrow> string + nat option" where
  "env_u16 env name =
     (case env_opt env name of
        Some v \<Rightarrow> (case parse_unsigned 65535 v of
                     Some n \<Rightarrow> Inr (Some n)
                   | None \<Rightarrow> Inl (''ERR_INVALID_ENV_'' @ name))
      | None \<Rightarrow> Inr None)"

definition env_usize :: "environ \<Rightarrow> string \<Rightarrow> string + nat option" where
  "env_usize env name =
     (case env_opt env name of
        Some v \<Rightarrow> option_ok_or (map_option Some (parse_usize v)) (''ERR_INVALID_CONFIG_'' @ name)
      | None \<Rightarrow> Inr None)"

definition EnvVals_from_env :: "environ \<Rightarrow> string + EnvVals" where
  "EnvVals_from_env env =
     res_bind (env_u16 env ''PORT'') (\<lambda>port.
     res_bind (env_usize env ''MAX_BODY_BYTES'') (\<lambda>body.
     res_bind (env_usize env ''MAX_QUEUE_DEPTH'') (\<lambda>depth.
     res_bind (env_usize env ''MAX_ROUTE_COUNT'') (\<lambda>routes.
     res_bind (env_usize env ''PUSH_RATE_BURST'') (\<lambda>burst.
     res_bind (env_usize env ''PUSH_RATE_REFILL_PER_SEC'') (\<lambda>refill.
     res_bind (env_usize env ''RETENTION_TTL_SECS'') (\<lambda>ttl.
     res_bind (env_usize env ''PULL_LEASE_SECS'') (\<lambda>lease.
     res_bind (env_usize env ''MAX_INVITE_SLOTS'') (\<lambda>slots.
     res_bind (env_usize env ''MAX_INVITE_BUNDLE_BYTES'') (\<lambda>bundle_bytes.
     res_bind (env_usize env ''MAX_INVITE_EXPIRY_SECS'') (\<lambda>expiry_secs.
     res_bind (env_usize env ''INVITE_CREATE_BURST'') (\<lambda>cburst.
     res_bind (env_usize env ''INVITE_CREATE_REFILL_PER_SEC'') (\<lambda>crefill.
     Inr \<lparr>env_bind = env_opt env ''BIND_ADDR'',
          env_port = port,
          env_max_body_bytes = body,
          env_max_queue_depth = depth,
          env_max_route_count = routes,
          env_push_rate_burst = burst,
          env_push_rate_refill_per_sec = refill,
          env_route_idle_ttl_ms_present = (env_opt env ''ROUTE_IDLE_TTL_MS'' \<noteq> None),
          env_store_path = env_opt env ''STORE_PATH'',
          env_retention_ttl_secs = ttl,
          env_pull_lease_secs = lease,
          env_max_invite_slots = slots,
          env_max_invite_bundle_bytes = bundle_bytes,
          env_max_invite_expiry_secs = expiry_secs,
          env_invite_create_burst = cburst,
          env_invite_create_refill_per_sec = crefill\<rparr>)))))))))))))"

subsection \<open>The resolved configuration\<close>

record Config =
  conf_bind :: string
  conf_port :: nat
  conf_limits :: Limits
  conf_controls :: ResourceControls
  conf_store :: StoreConfig
  conf_invites :: InviteLimits
  conf_deprecated_route_idle_ttl :: bool

text \<open>\<open>cli.x.or(env.x).unwrap_or(default)\<close>\<close>

definition setting :: "'a option \<Rightarrow> 'a option \<Rightarrow> 'a \<Rightarrow> 'a" where
  "setting c e d = unwrap_or (option_or c e) d"

lemma setting_simps [simp]:
  "setting (Some x) e d = x"
  "setting None (Some y) d = y"
  "setting None None d = d"
  by (simp_all add: setting_def)

definition resolve_config :: "Cli \<Rightarrow> EnvVals \<Rightarrow> string + Config" where
  "resolve_config cli env =
    (let bind = setting (cli_bind cli) (env_bind env) ''127.0.0.1'';
         port = setting (cli_port cli) (env_port env) 8080;
         body = setting (cli_max_body_bytes cli) (env_max_body_bytes env) MAX_BODY_BYTES_CEILING;
         depth = setting (cli_max_queue_depth cli) (env_max_queue_depth env)
                   MAX_QUEUE_DEPTH_CEILING;
         routes = setting (cli_max_route_count cli) (env_max_route_count env)
                    MAX_ROUTE_COUNT_CEILING;
         burst = setting (cli_push_rate_burst cli) (env_push_rate_burst env)
                   MAX_PUSH_RATE_BURST_CEILING;
         refill = setting (cli_push_rate_refill_per_sec cli) (env_push_rate_refill_per_sec env)
                    MAX_PUSH_RATE_BURST_CEILING
     in
     res_bind (option_ok_or (option_or (cli_store_path cli) (env_store_path env))
                 ''ERR_INVALID_CONFIG_STORE_PATH'') (\<lambda>store_path.
     res_bind (retention_ttl_or_error
                 (setting (cli_retention_ttl_secs cli) (env_retention_ttl_secs env)
                    RETENTION_TTL_SECS_DEFAULT)) (\<lambda>ttl.
     res_bind (pull_lease_or_error
                 (setting (cli_pull_lease_secs cli) (env_pull_lease_secs env)
                    PULL_LEASE_SECS_DEFAULT)) (\<lambda>lease.
     res_bind (InviteLimits_new
                 (setting (cli_max_invite_slots cli) (env_max_invite_slots env)
                    MAX_INVITE_SLOTS_DEFAULT)
                 (setting (cli_max_invite_bundle_bytes cli) (env_max_invite_bundle_bytes env)
                    MAX_INVITE_BUNDLE_BYTES_DEFAULT)
                 (setting (cli_max_invite_expiry_secs cli) (env_max_invite_expiry_secs env)
                    MAX_INVITE_EXPIRY_SECS_DEFAULT)
                 (setting (cli_invite_create_burst cli) (env_invite_create_burst env)
                    INVITE_CREATE_BURST_DEFAULT)
                 (setting (cli_invite_create_refill_per_sec cli)
                    (env_invite_create_refill_per_sec env)
                    INVITE_CREATE_REFILL_PER_SEC_DEFAULT)) (\<lambda>invites.
     let deprecated = (cli_route_idle_ttl_ms cli \<noteq> None \<or> env_route_idle_ttl_ms_present env) in
     res_bind (Limits_new body depth) (\<lambda>limits.
     res_bind (ResourceControls_new routes burst refill) (\<lambda>controls.
     Inr \<lparr>conf_bind = bind, conf_port = port, conf_limits = limits, conf_controls = controls,
          conf_store = \<lparr>cfg_path = store_path, cfg_retention_ttl_secs = ttl,
                        cfg_pull_lease_secs = lease\<rparr>,
          conf_invites = invites,
          conf_deprecated_route_idle_ttl = deprecated\<rparr>)))))))"

definition store_config_wf :: "StoreConfig \<Rightarrow> bool" where
  "store_config_wf c \<longleftrightarrow>
     1 \<le> cfg_retention_ttl_secs c \<and> cfg_retention_ttl_secs c \<le> MAX_RETENTION_TTL_SECS_CEILING \<and>
     1 \<le> cfg_pull_lease_secs c \<and> cfg_pull_lease_secs c \<le> MAX_PULL_LEASE_SECS_CEILING"

definition config_wf :: "Config \<Rightarrow> bool" where
  "config_wf c \<longleftrightarrow> limits_wf (conf_limits c) \<and> controls_wf (conf_controls c) \<and>
     store_config_wf (conf_store c) \<and> invite_limits_wf (conf_invites c)"

text \<open>The settings that must not be zero, with the name each is refused under.\<close>

definition zero_settings :: "Cli \<Rightarrow> EnvVals \<Rightarrow> string list" where
  "zero_settings cli env =
     map fst (filter (\<lambda>(n, v). v = 0)
      [(''RETENTION_TTL_SECS'', setting (cli_retention_ttl_secs cli) (env_retention_ttl_secs env)
          RETENTION_TTL_SECS_DEFAULT),
       (''PULL_LEASE_SECS'', setting (cli_pull_lease_secs cli) (env_pull_lease_secs env)
          PULL_LEASE_SECS_DEFAULT),
       (''MAX_INVITE_SLOTS'', setting (cli_max_invite_slots cli) (env_max_invite_slots env)
          MAX_INVITE_SLOTS_DEFAULT),
       (''MAX_INVITE_BUNDLE_BYTES'', setting (cli_max_invite_bundle_bytes cli)
          (env_max_invite_bundle_bytes env) MAX_INVITE_BUNDLE_BYTES_DEFAULT),
       (''MAX_INVITE_EXPIRY_SECS'', setting (cli_max_invite_expiry_secs cli)
          (env_max_invite_expiry_secs env) MAX_INVITE_EXPIRY_SECS_DEFAULT),
       (''INVITE_CREATE_BURST'', setting (cli_invite_create_burst cli)
          (env_invite_create_burst env) INVITE_CREATE_BURST_DEFAULT),
       (''MAX_BODY_BYTES'', setting (cli_max_body_bytes cli) (env_max_body_bytes env)
          MAX_BODY_BYTES_CEILING),
       (''MAX_QUEUE_DEPTH'', setting (cli_max_queue_depth cli) (env_max_queue_depth env)
          MAX_QUEUE_DEPTH_CEILING),
       (''MAX_ROUTE_COUNT'', setting (cli_max_route_count cli) (env_max_route_count env)
          MAX_ROUTE_COUNT_CEILING),
       (''PUSH_RATE_BURST'', setting (cli_push_rate_burst cli) (env_push_rate_burst env)
          MAX_PUSH_RATE_BURST_CEILING)])"

definition config_refusals :: "Cli \<Rightarrow> EnvVals \<Rightarrow> string list" where
  "config_refusals cli env =
     map (\<lambda>n. ''ERR_INVALID_CONFIG_'' @ n)
       ((if option_or (cli_store_path cli) (env_store_path env) = None then [''STORE_PATH''] else [])
        @ zero_settings cli env)"

subsection \<open>The chain of checks\<close>

text \<open>One check of the chain refuses, or the rest of the chain decides: the rewriting rules
  that turn \<open>resolve_config\<close> into nested conditionals, and the list of refusals too.\<close>

lemma limit_chain:
  "(res_bind (limit_or_error n v c) f = Inl e) =
   (if v = 0 then e = ''ERR_INVALID_CONFIG_'' @ n else f (min v c) = Inl e)"
  by (auto simp: limit_or_error_def)

lemma retention_chain:
  "(res_bind (retention_ttl_or_error v) f = Inl e) =
   (if v = 0 then e = ''ERR_INVALID_CONFIG_'' @ ''RETENTION_TTL_SECS''
    else f (min v MAX_RETENTION_TTL_SECS_CEILING) = Inl e)"
  by (auto simp: retention_ttl_or_error_def)

lemma lease_chain:
  "(res_bind (pull_lease_or_error v) f = Inl e) =
   (if v = 0 then e = ''ERR_INVALID_CONFIG_'' @ ''PULL_LEASE_SECS''
    else f (min v MAX_PULL_LEASE_SECS_CEILING) = Inl e)"
  by (auto simp: pull_lease_or_error_def)

lemma path_chain:
  "(res_bind (option_ok_or p m) f = Inl e) = (if p = None then e = m else f (the p) = Inl e)"
  by (cases p) auto

lemma idle_ttl_ok:
  "limit_or_error ''ROUTE_IDLE_TTL_MS'' ROUTE_IDLE_TTL_MS_DEFAULT MAX_ROUTE_IDLE_TTL_MS_CEILING
   = Inr ROUTE_IDLE_TTL_MS_DEFAULT"
  by (simp add: ROUTE_IDLE_TTL_MS_DEFAULT_def ceiling_defs)

lemma Inr_chain: "(Inr x = Inl e) = False"
  by simp

lemma first_is_zero:
  "first_is (map f (map fst (filter (\<lambda>(n, v). v = (0::nat)) ((n, v) # xs)))) e =
   (if v = 0 then e = f n else first_is (map f (map fst (filter (\<lambda>(n, v). v = 0) xs))) e)"
  by auto

lemma first_is_none: "first_is (map f (map fst (filter (\<lambda>(n, v). v = (0::nat)) []))) e = False"
  by simp

lemma first_is_path:
  "first_is (map f ((if p then [n] else []) @ zs)) e = (if p then e = f n else first_is (map f zs) e)"
  by auto

lemmas chain_defs = resolve_config_def Let_def InviteLimits_new_def Limits_new_def
  ResourceControls_new_def ResourceControls_new_with_route_idle_ttl_ms_def
  idle_ttl_ok res_bind_assoc res_bind_simps

lemmas chain_simps = path_chain limit_chain retention_chain lease_chain res_bind_simps Inr_chain

lemma resolve_config_chain:
  "resolve_config cli env = Inl e \<longleftrightarrow> first_is (config_refusals cli env) e"
  unfolding chain_defs config_refusals_def zero_settings_def
  by (simp only: chain_simps first_is_path first_is_zero first_is_none append.simps)

subsection \<open>Properties\<close>

text \<open>
  Every configuration that \<open>resolve_config\<close> accepts is within the built-in bounds: each
  limit is at least 1 and at most its ceiling, whatever the command line and the
  environment held.
\<close>

lemma resolve_config_wf: "resolve_config cli env = Inr cfg \<Longrightarrow> config_wf cfg"
  unfolding resolve_config_def Let_def
  by (auto simp: config_wf_def store_config_wf_def intro: Limits_new_wf ResourceControls_new_wf
      InviteLimits_new_wf dest: retention.check_range lease.check_range)

text \<open>
  C40: \<open>resolve_config\<close> refuses exactly when the store path is missing or a setting that must
  be positive is zero, and the error it reports is that of the first such setting in the
  order store path, retention, lease, invite limits, body and queue limits, route and burst
  limits: fail-closed and deterministic.
\<close>

theorem resolve_config_refuses:
  "resolve_config cli env = Inl e \<longleftrightarrow> (\<exists>rest. config_refusals cli env = e # rest)"
  by (simp only: resolve_config_chain first_is_def)

text \<open>
  An accepted configuration carries, for every setting, the command-line value if given,
  else the environment's, else the default, clamped to the setting's ceiling.
\<close>

lemma resolve_config_values:
  assumes "resolve_config cli env = Inr cfg"
  shows "conf_bind cfg = setting (cli_bind cli) (env_bind env) ''127.0.0.1'' \<and>
    conf_port cfg = setting (cli_port cli) (env_port env) 8080 \<and>
    conf_limits cfg =
      \<lparr>max_body_bytes = min (setting (cli_max_body_bytes cli) (env_max_body_bytes env)
          MAX_BODY_BYTES_CEILING) MAX_BODY_BYTES_CEILING,
       max_queue_depth = min (setting (cli_max_queue_depth cli) (env_max_queue_depth env)
          MAX_QUEUE_DEPTH_CEILING) MAX_QUEUE_DEPTH_CEILING\<rparr> \<and>
    conf_controls cfg =
      \<lparr>max_route_count = min (setting (cli_max_route_count cli) (env_max_route_count env)
          MAX_ROUTE_COUNT_CEILING) MAX_ROUTE_COUNT_CEILING,
       push_rate_burst = min (setting (cli_push_rate_burst cli) (env_push_rate_burst env)
          MAX_PUSH_RATE_BURST_CEILING) MAX_PUSH_RATE_BURST_CEILING,
       push_rate_refill_per_sec = min (setting (cli_push_rate_refill_per_sec cli)
          (env_push_rate_refill_per_sec env) MAX_PUSH_RATE_BURST_CEILING)
          MAX_PUSH_RATE_REFILL_PER_SEC_CEILING,
       route_idle_ttl = ROUTE_IDLE_TTL_MS_DEFAULT\<rparr> \<and>
    Some (cfg_path (conf_store cfg)) = option_or (cli_store_path cli) (env_store_path env) \<and>
    cfg_retention_ttl_secs (conf_store cfg) =
      min (setting (cli_retention_ttl_secs cli) (env_retention_ttl_secs env)
        RETENTION_TTL_SECS_DEFAULT) MAX_RETENTION_TTL_SECS_CEILING \<and>
    cfg_pull_lease_secs (conf_store cfg) =
      min (setting (cli_pull_lease_secs cli) (env_pull_lease_secs env)
        PULL_LEASE_SECS_DEFAULT) MAX_PULL_LEASE_SECS_CEILING \<and>
    max_slots (conf_invites cfg) =
      min (setting (cli_max_invite_slots cli) (env_max_invite_slots env)
        MAX_INVITE_SLOTS_DEFAULT) MAX_INVITE_SLOTS_CEILING \<and>
    max_expiry_secs (conf_invites cfg) =
      min (setting (cli_max_invite_expiry_secs cli) (env_max_invite_expiry_secs env)
        MAX_INVITE_EXPIRY_SECS_DEFAULT) MAX_INVITE_EXPIRY_SECS_CEILING"
  using assms unfolding chain_defs
  by (auto simp: retention.check_eq_Inr lease.check_eq_Inr push_rate_refill_or_cap_def
      option_ok_or_def split: option.splits)

subsection \<open>A sample\<close>

text \<open>No option on the command line but a store path and a body limit above its ceiling, and
  an empty environment.\<close>

definition sample_cli :: Cli where
  "sample_cli =
     \<lparr>cli_bind = None, cli_port = None, cli_max_body_bytes = Some (2 * MAX_BODY_BYTES_CEILING),
      cli_max_queue_depth = None, cli_max_route_count = None, cli_push_rate_burst = Some 7,
      cli_push_rate_refill_per_sec = None, cli_route_idle_ttl_ms = None,
      cli_store_path = Some ''relay.db'', cli_retention_ttl_secs = None,
      cli_pull_lease_secs = Some 120, cli_max_invite_slots = None,
      cli_max_invite_bundle_bytes = None, cli_max_invite_expiry_secs = None,
      cli_invite_create_burst = None, cli_invite_create_refill_per_sec = None\<rparr>"

definition no_env :: environ where
  "no_env = (\<lambda>_. None)"

definition sample_env :: EnvVals where
  "sample_env = projr (EnvVals_from_env no_env)"

lemma sample_env_eq: "EnvVals_from_env no_env = Inr sample_env"
  by (simp add: sample_env_def EnvVals_from_env_def no_env_def env_u16_def env_usize_def env_opt_def)

end
