(* ===== verification/Boot.thy ===== *)
theory Boot imports Clients Startup begin

text \<open>
  \<open>main\<close> of \<open>src/main.rs\<close>: from the command line and the environment to a serving relay, with
  the background sweeper; and what an operator may rely on: a relay that serves is one of the
  relays of the safety theorems, the bearer gate is on exactly when a token is set, and the
  retention that the capability document advertises is the retention that is enforced.
\<close>

subsection \<open>The start-up sequence\<close>

definition RETENTION_SWEEP_INTERVAL_SECS :: nat where
  "RETENTION_SWEEP_INTERVAL_SECS = 60"

text \<open>What \<open>main\<close> finds outside the process: how an address parses, what a bind yields (the
  local address), the file behind the store path and the failures of SQLite while it opens,
  the monotonic clock at the creation of the invite bucket, and whether \<open>axum::serve\<close> ends
  with an error.\<close>

record host =
  parse_addr :: "string \<Rightarrow> string option"
  tcp_bind :: "string \<Rightarrow> string option"
  open_file :: "string \<Rightarrow> store_file option"
  open_faults :: faults
  start_ns :: nat
  serve_fails :: bool

datatype boot_event =
  Fatal string
| DeprecatedConfig
| Listening string

text \<open>A \<open>Fatal\<close> is a \<open>tracing::error!\<close> with \<open>std::process::exit(1)\<close> right after it. The second
  component is \<open>Some st\<close> when \<open>main\<close> gets to call \<open>axum::serve\<close> on \<open>app(st)\<close>, and \<open>None\<close> when it
  exits before; the events after \<open>Listening\<close> are those of the end of that call.\<close>

definition main :: "host \<Rightarrow> environ \<Rightarrow> Cli \<Rightarrow> boot_event list \<times> AppState option" where
  "main h env cli =
     (case EnvVals_from_env env of
        Inl code \<Rightarrow> ([Fatal code], None)
      | Inr env_vals \<Rightarrow>
     (case resolve_config cli env_vals of
        Inl code \<Rightarrow> ([Fatal code], None)
      | Inr cfg \<Rightarrow>
     (let warned = (if conf_deprecated_route_idle_ttl cfg then [DeprecatedConfig] else []) in
      case parse_addr h (conf_bind cfg @ '':'' @ nat_to_string (conf_port cfg)) of
        None \<Rightarrow> (warned @ [Fatal ''ERR_BIND_PARSE''], None)
      | Some addr \<Rightarrow>
     (case tcp_bind h addr of
        None \<Rightarrow> (warned @ [Fatal ''ERR_BIND_LISTEN''], None)
      | Some addr \<Rightarrow>
     (case AppState_new_full (conf_limits cfg) (conf_controls cfg) (relay_token_from_env env)
             (conf_store cfg) (ServerInfoCfg_from_env env) (conf_invites cfg)
             (open_file h (cfg_path (conf_store cfg))) (open_faults h) (start_ns h) of
        Inl code \<Rightarrow> (warned @ [Fatal code], None)
      | Inr st \<Rightarrow>
         (warned @ [Listening addr] @ (if serve_fails h then [Fatal ''ERR_SERVER_RUNTIME''] else []),
          Some st))))))"

text \<open>The ticks of the sweeper after the first, which is skipped: the clock of tick \<open>n\<close>.\<close>

definition sweep_tick :: "nat \<Rightarrow> nat \<Rightarrow> nat" where
  "sweep_tick t0 n = t0 + Suc n * RETENTION_SWEEP_INTERVAL_SECS * ns_per_sec"

lemma main_served:
  assumes "main h env cli = (evs, Some st)"
  obtains env_vals cfg warned parsed addr where "EnvVals_from_env env = Inr env_vals"
    "resolve_config cli env_vals = Inr cfg" "set warned \<subseteq> {DeprecatedConfig}"
    "parse_addr h (conf_bind cfg @ '':'' @ nat_to_string (conf_port cfg)) = Some parsed"
    "tcp_bind h parsed = Some addr"
    "evs = warned @ [Listening addr] @ (if serve_fails h then [Fatal ''ERR_SERVER_RUNTIME''] else [])"
    "AppState_new_full (conf_limits cfg) (conf_controls cfg) (relay_token_from_env env)
       (conf_store cfg) (ServerInfoCfg_from_env env) (conf_invites cfg)
       (open_file h (cfg_path (conf_store cfg))) (open_faults h) (start_ns h) = Inr st"
proof -
  obtain env_vals cfg parsed addr where "EnvVals_from_env env = Inr env_vals"
    "resolve_config cli env_vals = Inr cfg"
    "parse_addr h (conf_bind cfg @ '':'' @ nat_to_string (conf_port cfg)) = Some parsed"
    "tcp_bind h parsed = Some addr"
    "evs = (if conf_deprecated_route_idle_ttl cfg then [DeprecatedConfig] else []) @ [Listening addr] @
      (if serve_fails h then [Fatal ''ERR_SERVER_RUNTIME''] else [])"
    "AppState_new_full (conf_limits cfg) (conf_controls cfg) (relay_token_from_env env)
       (conf_store cfg) (ServerInfoCfg_from_env env) (conf_invites cfg)
       (open_file h (cfg_path (conf_store cfg))) (open_faults h) (start_ns h) = Inr st"
    using assms by (auto simp: main_def Let_def split: sum.splits option.splits)
  then show thesis
    using that [of env_vals cfg "if conf_deprecated_route_idle_ttl cfg then [DeprecatedConfig] else []" parsed addr] by auto
qed

lemma new_full_fields:
  assumes "AppState_new_full lim ctl token cfg info il opened fs t = Inr st"
  shows "relay_token st = token" and "app_limits st = lim" and "app_controls st = ctl"
    and "invite_limits st = il" and "server_info st = info"
  using assms by (auto simp: AppState_new_full_def res_bind_def split: sum.splits)

text \<open>
  C35: \<open>main\<close> serves or exits, and its log says which. If it exits before serving, nothing but
  the deprecation warning was logged before the one fatal code, and no address was announced.
  If it gets to serve, it announced exactly one address, the one its listener is bound to, with
  no fatal code before it; a fatal code follows exactly when \<open>axum::serve\<close> ends with an error,
  and it is \<open>ERR_SERVER_RUNTIME\<close>. A serving relay asks for a bearer token exactly when
  \<open>RELAY_TOKEN\<close> is set to a non-empty value, and that value is the token.
\<close>

theorem main_serves_or_exits:
  "case main h env cli of
     (evs, None) \<Rightarrow> (\<exists>warned code. evs = warned @ [Fatal code] \<and> set warned \<subseteq> {DeprecatedConfig})
   | (evs, Some st) \<Rightarrow>
       (\<exists>warned parsed a. set warned \<subseteq> {DeprecatedConfig} \<and> tcp_bind h parsed = Some a \<and>
          evs = warned @ [Listening a] @ (if serve_fails h then [Fatal ''ERR_SERVER_RUNTIME''] else [])) \<and>
       (relay_token st = None \<longleftrightarrow> env ''RELAY_TOKEN'' = None \<or> env ''RELAY_TOKEN'' = Some []) \<and>
       (relay_token st = None \<or> relay_token st = env ''RELAY_TOKEN'')"
proof (cases "main h env cli")
  case (Pair evs r)
  show ?thesis
  proof (cases r)
    case None
    then show ?thesis
      using Pair by (auto simp: main_def Let_def split: sum.splits option.splits if_splits)
  next
    case (Some st)
    with Pair have "main h env cli = (evs, Some st)" by simp
    then obtain cfg :: Config and warned parsed a where ev: "set warned \<subseteq> {DeprecatedConfig}"
        "tcp_bind h parsed = Some a"
        "evs = warned @ [Listening a] @ (if serve_fails h then [Fatal ''ERR_SERVER_RUNTIME''] else [])"
      and new: "AppState_new_full (conf_limits cfg) (conf_controls cfg) (relay_token_from_env env)
       (conf_store cfg) (ServerInfoCfg_from_env env) (conf_invites cfg)
       (open_file h (cfg_path (conf_store cfg))) (open_faults h) (start_ns h) = Inr st"
      by (rule main_served) blast
    moreover have "relay_token st = option_filter (\<lambda>v. v \<noteq> []) (env ''RELAY_TOKEN'')"
      using new_full_fields(1) [OF new] by (simp add: relay_token_from_env_def)
    ultimately show ?thesis
      using Pair Some by (cases "env ''RELAY_TOKEN''") (auto simp: option_filter_def)
  qed
qed

text \<open>
  A relay that \<open>main\<close> serves on a file of its own is sound. Its configuration is within all
  ceilings, and whatever requests and sweeps it serves, it stays among the reachable relays
  of the other theorems.
\<close>

lemma main_serves_reachable:
  assumes "main h env cli = (evs, Some st)" and "open_file h = (\<lambda>_. Some f)" and "db_ok (rows f)"
    and "capped (max_queue_depth (app_limits st)) (max_route_count (app_controls st))
      (max_slots (invite_limits st)) (rows f)"
    and "app_step\<^sup>*\<^sup>* st st'"
  shows "app_reachable st' \<and> limits_wf (app_limits st') \<and> controls_wf (app_controls st') \<and>
    invite_limits_wf (invite_limits st')"
proof -
  obtain env_vals and cfg :: Config where cfg: "resolve_config cli env_vals = Inr cfg"
    and new: "AppState_new_full (conf_limits cfg) (conf_controls cfg) (relay_token_from_env env)
       (conf_store cfg) (ServerInfoCfg_from_env env) (conf_invites cfg)
       (Some f) (open_faults h) (start_ns h) = Inr st"
    using assms(2) by (metis main_served [OF assms(1)])
  have wf: "limits_wf (conf_limits cfg)" "controls_wf (conf_controls cfg)" "invite_limits_wf (conf_invites cfg)"
    using resolve_config_wf [OF cfg] by (simp_all add: config_wf_def)
  have "app_reachable st"
    by (rule started [OF new wf assms(3)]) (use assms(4) new_full_fields [OF new] in simp)
  then have "app_reachable st'" using app_reachable_steps [OF assms(5)] by simp
  then show ?thesis using app_reachable_wf by blast
qed

subsection \<open>Restarts\<close>

lemma app_steps_store: "app_step\<^sup>*\<^sup>* st st' \<Longrightarrow> \<exists>ss. store st' = run_steps perform ss (store st)"
proof (induction rule: converse_rtranclp_induct)
  case base
  show ?case by (rule exI [of _ "[]"]) simp
next
  case (step st st1)
  then obtain ss where ss: "store st' = run_steps perform ss (store st1)" by blast
  from step(1) show ?case
  proof cases
    case (step_store op fs s)
    then show ?thesis using ss by (intro exI [of _ "(op, fs) # ss"]) (simp add: perform_exec)
  qed (use ss in auto)
qed

text \<open>
  C29: A restart forgets nothing but the rate buckets. The relay was started on a file and
  served any requests and sweeps, with any failures; the process ends, and \<open>main\<close> runs again
  with the same settings on the file it left. It serves again, with the same configuration
  and the same store: every accepted message, lease, slot, spent capability and ticket is
  there, and only the rate buckets start afresh.
\<close>

theorem restart_forgets_only_rates:
  assumes "main h env cli = (evs, Some st)" and "open_file h = (\<lambda>_. Some f)" and "open_faults h = []"
    and "db_ok (rows f)" and "app_step\<^sup>*\<^sup>* st st'"
  shows "main (h\<lparr>open_file := (\<lambda>_. Some (close_store (store st'))), start_ns := t\<rparr>) env cli =
    (evs, Some (st'\<lparr>push_rates := Mutex False (\<lambda>_. None),
       invite_create_rate := Mutex False (bucket_new t (invite_bucket_controls (invite_limits st')))\<rparr>))"
proof -
  obtain env_vals cfg where cfg: "EnvVals_from_env env = Inr env_vals" "resolve_config cli env_vals = Inr cfg"
    and new: "AppState_new_full (conf_limits cfg) (conf_controls cfg) (relay_token_from_env env)
       (conf_store cfg) (ServerInfoCfg_from_env env) (conf_invites cfg) (Some f) [] (start_ns h) = Inr st"
    using assms(2,3) by (metis main_served [OF assms(1)])
  have st: "fst (Store_open (conf_store cfg) (Some f) []) = Inr (store st)"
    and ttl: "retention_ttl_or_error (cfg_retention_ttl_secs (conf_store cfg)) = Inr (app_retention_ttl_secs st)"
    using new by (auto simp: AppState_new_full_def res_bind_def split: sum.splits)
  obtain ss where "store st' = run_steps perform ss (store st)"
    using app_steps_store [OF assms(5)] by blast
  then have "fst (Store_open (conf_store cfg) (Some (close_store (store st'))) []) = Inr (store st')"
    using restart_identity [OF st assms(4), of ss] by simp
  then have "AppState_new_full (conf_limits cfg) (conf_controls cfg) (relay_token_from_env env)
      (conf_store cfg) (ServerInfoCfg_from_env env) (conf_invites cfg)
      (Some (close_store (store st'))) [] t =
    Inr (st'\<lparr>push_rates := Mutex False (\<lambda>_. None),
       invite_create_rate := Mutex False (bucket_new t (invite_bucket_controls (invite_limits st')))\<rparr>)"
    using new_full_fields [OF new] steps_config [OF assms(5)] ttl
    by (cases st') (simp add: AppState_new_full_def config_of_def res_bind_def)
  then show ?thesis
    using assms(1,2,3) cfg by (auto simp: main_def Let_def split: option.splits sum.splits if_splits)
qed

subsection \<open>Retention and sizes as advertised\<close>

lemma log_and_prune_store [simp]: "store (snd (log_and_prune_sweep stats st)) = store st"
  by (simp add: log_and_prune_sweep_def)

text \<open>
  C32: The advertised retention is the enforced one. A sweep without failures keeps exactly the
  messages younger than the \<open>retention_ttl_secs\<close> of the capability document and the slots that
  have not expired, keeps the routes that still have a message, and forgets the rate buckets
  of exactly the routes it removed.
\<close>

theorem sweep_enforces_advertised:
  assumes "app_reachable st" and "faults1 amb = []"
  defines "d \<equiv> tables (store st)" and "st' \<equiv> snd (snd (run_retention_sweep amb st))"
    and "ttl \<equiv> int (doc_ttl_secs (info_document st))"
  shows "messages (tables (store st')) = filter (\<lambda>m. now_unix_secs amb < enqueued_at m + ttl) (messages d) \<and>
    invites (tables (store st')) = filter (\<lambda>i. now_unix_secs amb < expiry i) (invites d) \<and>
    (has_route k (tables (store st')) \<longleftrightarrow> queue (tables (store st')) k \<noteq> []) \<and>
    inner (push_rates st') k = (if has_route k d \<and> \<not> has_route k (tables (store st')) then None
      else inner (push_rates st) k)"
proof -
  let ?s = "swept (st_retention_ttl_secs (store st)) (now_unix_secs amb) d"
  let ?stats = "sweep_stats (st_retention_ttl_secs (store st)) (now_unix_secs amb) d"
  note ok = app_reachable_ok [OF assms(1)]
  have wf: "store_wf (store st)" and b: "lock (push_rates st) = Some (inner (push_rates st))"
    using ok by (cases "push_rates st"; simp add: app_ok_def)+
  then have conn: "conn (store st) = Mutex False d" and dok: "db_ok d" and mok: "mail_ok d"
    unfolding d_def by (cases "conn (store st)"; simp add: store_wf_def db_ok_def)+
  have sok: "mail_ok ?s" using db_ok_swept [OF dok] by (simp add: db_ok_def)
  have ttl: "st_retention_ttl_secs (store st) = ttl"
    using app_reachable_wf [OF assms(1)] by (simp add: ttl_def info_document_def)
  have run: "store_retention_sweep (now_unix_secs amb) (faults1 amb) (store st) =
      (Inr ?stats, (store st)\<lparr>conn := Mutex False ?s\<rparr>)"
    by (simp add: store_retention_sweep_def store_tx_def conn lock_def retention_sweep_run assms(2))
  then have st': "st' = snd (log_and_prune_sweep ?stats (st\<lparr>store := (store st)\<lparr>conn := Mutex False ?s\<rparr>\<rparr>))"
    by (simp add: st'_def run_retention_sweep_def split: prod.split)
  then have tables: "tables (store st') = ?s" by simp
  have "inner (push_rates st') k =
      (if k \<in> set (removed_route_keys ?stats) then None else inner (push_rates st) k)"
    using b unfolding st'
    by (auto simp: log_and_prune_sweep_def update_buckets_def foldl_remove lock_def split: option.split)
  moreover have "messages ?s = filter (\<lambda>m. now_unix_secs amb < enqueued_at m + ttl) (messages d)"
    by (simp add: messages_swept [OF mok] ttl expired_def not_le less_diff_eq algebra_simps
        cong: filter_cong)
  moreover have "invites ?s = filter (\<lambda>i. now_unix_secs amb < expiry i) (invites d)"
    by (simp add: swept_keep [OF mok] drop_expired_invites_def keep_def not_le cong: filter_cong)
  ultimately show ?thesis
    using mail_ok_has_route [OF sok] removed_keys [OF mok] by (simp add: tables)
qed

lemma div_ceil_mono: "a \<le> b \<Longrightarrow> div_ceil a 3 \<le> div_ceil b 3"
  unfolding div_ceil_def by presburger

lemma create_validate_fits:
  assumes "b64_decode (create_bundle_b64 req) = Some bun" and "b64_decode (create_sig_b64 req) = Some sg"
    and "length bun \<le> max_bundle_bytes (invite_limits st)" and "length sg \<le> max_bundle_bytes (invite_limits st)"
    and "create_validate amb req st = (Inl r, l, st')"
  shows "reply_status r = 400"
  using assms(3-5)
  by (auto simp: create_validate_def assms(1,2) h_bind_def h_get_def h_guard_def h_return_def h_reply_def
      Let_def split: if_splits)

lemma create_answer_status:
  "reply_status (final (fst (create_answer lid until token n out st))) \<noteq> 413"
  by (cases out) (simp_all add: create_answer_def h_bind_def h_info_def h_return_def)

lemma h_store_status: "h_store f st = (Inl r, l, st') \<Longrightarrow> reply_status r = 500"
  by (auto simp: h_store_def run_store_def split: prod.splits sum.splits)

lemma create_gate_status: "create_gate amb st = (Inl r, l, st') \<Longrightarrow> reply_status r \<in> {429, 500}"
  by (auto simp: create_gate_def Let_def split: option.splits prod.splits if_splits)

lemma h_bind_return [simp]: "h_bind (h_return x) f st = f x st"
  by (simp add: h_bind_def h_return_def split: prod.split)

lemma final_bind:
  "final (fst (h_bind m f st)) = (case m st of (Inl r, l, st') \<Rightarrow> r | (Inr x, l, st') \<Rightarrow> final (fst (f x st')))"
  by (simp add: h_bind_def split: prod.split sum.split)

text \<open>
  The body cap of a create never refuses a legitimate one: a body made of the encodings of a
  bundle and a signature within the advertised bound, and up to 4096 bytes around them, is
  never answered 413, whatever else is wrong with it.
\<close>

lemma create_cap_suffices:
  assumes "parse_create p data = Some req" and "create_bundle_b64 req = b64_encode bun"
    and "create_sig_b64 req = b64_encode sg"
    and "length bun \<le> doc_max_invite_bundle_bytes (info_document st)"
    and "length sg \<le> doc_max_invite_bundle_bytes (info_document st)"
    and "length data \<le> length (create_bundle_b64 req) + length (create_sig_b64 req) + 4096"
  shows "reply_status (fst (serve sha p amb (CreateReq headers data) st)) \<noteq> 413"
proof -
  let ?mx = "max_bundle_bytes (invite_limits st)" and ?P = "\<lambda>r. reply_status r \<noteq> 413"
  have dec: "b64_decode (create_bundle_b64 req) = Some bun" "b64_decode (create_sig_b64 req) = Some sg"
    and fits: "length bun \<le> ?mx" "length sg \<le> ?mx"
    using assms(2-5) by (simp_all add: info_document_def b64_decode_encode)
  have "length data \<le> invite_create_body_cap ?mx"
    using assms(2,3,6) div_ceil_mono [of "4 * length bun" "4 * ?mx"] div_ceil_mono [of "4 * length sg" "4 * ?mx"]
      fits by (simp add: length_b64_encode invite_create_body_cap_def)
  then have cap: "\<not> invite_create_body_cap ?mx < length data" by simp
  have stored: "?P (final (fst (h_bind (h_store f) (create_answer lid until token n) s)))" for f lid until token n s
    using create_answer_status [of lid until token n]
    by (auto simp: final_bind dest!: h_store_status split: prod.split sum.split)
  have valid: "?P (final (fst (h_bind (create_validate amb req) (\<lambda>(bun, sg, until).
      h_bind (h_store (f bun sg until)) (create_answer lid until token n)) s)))"
    if "invite_limits s = invite_limits st" for f lid token n s
    using create_validate_fits [OF dec, of s amb] fits that stored
    by (auto simp: final_bind [of "create_validate amb req"] split: prod.split sum.split)
  have "?P (final (fst (h_bind (create_gate amb) (\<lambda>_. h_bind (h_json (parse_create p) data code) (\<lambda>req.
      h_bind (create_validate amb req) (\<lambda>(bun, sg, until).
      h_bind (h_store (f req bun sg until)) (create_answer (g req) until token n)))) st)))" for code f g token n
    using create_gate_status [of amb st] create_gate_Inr(2) [of amb st] valid
    by (auto simp: final_bind [of "create_gate amb"] h_json_def assms(1) split: prod.split sum.split)
  then show ?thesis
    by (auto simp: serve_final app_def invite_create_def Let_def final_bind [of "h_auth sha headers"]
        final_bind [of "h_get invite_limits"] final_bind [of "h_guard _ _ _"] h_auth_def h_bind_def h_get_def
        h_guard_def h_reply_def h_return_def cap)
qed

end
