(* ===== verification/Privacy.thy ===== *)
theory Privacy imports Service begin

text \<open>
  Logs never depend on payload bytes. Masking replaces every byte of the stored and of the
  pushed messages by zero and keeps their lengths; every operation of the relay commutes with
  it, and the log events it emits are the same. The proof goes through the program the way it
  is built: one rule per statement, per combinator and per handler.
\<close>

subsection \<open>Masking\<close>

definition redact :: "bytes \<Rightarrow> bytes" where
  "redact b = replicate (length b) 0"

definition mask_msg :: "msg_row \<Rightarrow> msg_row" where
  "mask_msg m = m\<lparr>body := redact (body m)\<rparr>"

definition mask_db :: "db \<Rightarrow> db" where
  "mask_db d = d\<lparr>messages := map mask_msg (messages d)\<rparr>"

definition mask_store :: "Store \<Rightarrow> Store" where
  "mask_store s = s\<lparr>conn := Mutex (poisoned (conn s)) (mask_db (inner (conn s)))\<rparr>"

definition mask_app :: "AppState \<Rightarrow> AppState" where
  "mask_app st = st\<lparr>store := mask_store (store st)\<rparr>"

abbreviation mask_item :: "StoredMsg \<Rightarrow> StoredMsg" where
  "mask_item \<equiv> map_prod (\<lambda>i. i) redact"

definition mask_reply :: "response \<Rightarrow> response" where
  "mask_reply r = Reply (reply_status r)
     (case reply_payload r of PullResp items \<Rightarrow> PullResp (map mask_item items) | p \<Rightarrow> p)"

definition mask_request :: "request \<Rightarrow> request" where
  "mask_request req = (case req of PushReq h b \<Rightarrow> PushReq h (redact b) | r \<Rightarrow> r)"

lemma mask_simps [simp]:
  "length (redact b) = length b" "redact b = [] \<longleftrightarrow> b = []"
  by (simp_all add: redact_def)

lemma mask_msg_simps [simp]:
  "seq (mask_msg m) = seq m" "msg_id (mask_msg m) = msg_id m" "msg_route (mask_msg m) = msg_route m"
  "enqueued_at (mask_msg m) = enqueued_at m" "leased_until (mask_msg m) = leased_until m"
  "body (mask_msg m) = redact (body m)"
  "mask_msg (m\<lparr>leased_until := t\<rparr>) = (mask_msg m)\<lparr>leased_until := t\<rparr>"
  by (simp_all add: mask_msg_def)

lemma mask_db_simps [simp]:
  "messages (mask_db d) = map mask_msg (messages d)" "routes (mask_db d) = routes d"
  "invites (mask_db d) = invites d" "last_seq (mask_db d) = last_seq d" "meta (mask_db d) = meta d"
  by (simp_all add: mask_db_def)

lemma mask_db_updates [simp]:
  "mask_db (d\<lparr>routes := rs\<rparr>) = (mask_db d)\<lparr>routes := rs\<rparr>"
  "mask_db (d\<lparr>invites := is\<rparr>) = (mask_db d)\<lparr>invites := is\<rparr>"
  "mask_db (d\<lparr>last_seq := n\<rparr>) = (mask_db d)\<lparr>last_seq := n\<rparr>"
  "mask_db (d\<lparr>messages := ms\<rparr>) = (mask_db d)\<lparr>messages := map mask_msg ms\<rparr>"
  by (simp_all add: mask_db_def)

lemma filter_mask:
  "(\<And>m. p (mask_msg m) = p m) \<Longrightarrow> filter p (map mask_msg ms) = map mask_msg (filter p ms)"
  by (induction ms) auto

lemma mask_reads [simp]:
  "has_route k (mask_db d) = has_route k d"
  "queue (mask_db d) k = map mask_msg (queue d k)"
  "expired ttl now (mask_msg m) = expired ttl now m"
  "available now (mask_msg m) = available now m"
  "acked_by k ids (mask_msg m) = acked_by k ids m"
  "find_invite k (mask_db d) = find_invite k d"
  "route_idle (mask_db d) r = route_idle d r"
  by (simp_all add: has_route_def queue_def filter_mask expired_def available_def acked_by_def
      find_invite_def route_idle_def)

subsection \<open>Statements and transactions\<close>

definition blind :: "('a \<Rightarrow> 'b) \<Rightarrow> 'a sql \<Rightarrow> 'b sql \<Rightarrow> bool" where
  "blind g m m' \<longleftrightarrow>
     (\<forall>d fs. m' (mask_db d) fs =
        (case m d fs of Inl e \<Rightarrow> Inl e | Inr (x, d', fs') \<Rightarrow> Inr (g x, mask_db d', fs')))"

named_theorems blind_rules

lemma blind_return: "y = g x \<Longrightarrow> blind g (sql_return x) (sql_return y)"
  by (simp add: blind_def sql_return_def)

lemma blind_bind:
  assumes "blind g m m'" and "\<And>x. blind h (f x) (f' (g x))"
  shows "blind h (sql_bind m f) (sql_bind m' f')"
  using assms by (auto simp: blind_def sql_bind_def split: sum.split prod.split)

lemma blind_bind_same [blind_rules]:
  assumes "blind (\<lambda>x. x) m m'" and "\<And>x. blind h (f x) (f' x)"
  shows "blind h (sql_bind m f) (sql_bind m' f')"
  using assms by (rule blind_bind)

lemma blind_stmt:
  assumes "\<And>d. f' (mask_db d) = (case f d of Inl e \<Rightarrow> Inl e | Inr (x, d') \<Rightarrow> Inr (g x, mask_db d'))"
  shows "blind g (stmt f) (stmt f')"
  unfolding blind_def
proof (intro allI)
  fix d fs
  show "stmt f' (mask_db d) fs =
      (case stmt f d fs of Inl e \<Rightarrow> Inl e | Inr (x, d', fs') \<Rightarrow> Inr (g x, mask_db d', fs'))"
    by (cases "f d") (auto simp: stmt_def assms split: list.split option.split)
qed

lemma blind_query: "(\<And>d. f' (mask_db d) = g (f d)) \<Longrightarrow> blind g (query f) (query f')"
  unfolding query_def by (rule blind_stmt) simp

lemma blind_execute:
  "(\<And>d. f' (mask_db d) = map_prod g mask_db (f d)) \<Longrightarrow> blind g (execute f) (execute f')"
  unfolding execute_def by (rule blind_stmt) (simp split: prod.split)

lemma blind_if [blind_rules]:
  "blind g m m' \<Longrightarrow> blind g n n' \<Longrightarrow> blind g (if b then m else n) (if b then m' else n')"
  by simp

lemma blind_case_option [blind_rules]:
  "blind g m m' \<Longrightarrow> (\<And>x. blind g (f x) (f' x)) \<Longrightarrow>
   blind g (case o' of None \<Rightarrow> m | Some x \<Rightarrow> f x) (case o' of None \<Rightarrow> m' | Some x \<Rightarrow> f' x)"
  by (cases o') simp_all

lemma blind_ends [blind_rules]:
  "blind (\<lambda>x. x) (sql_return x) (sql_return x)"
  "blind (map_tx_end (\<lambda>x. x)) (commit x) (commit x)"
  "blind (map_tx_end (\<lambda>x. x)) (return_early x) (return_early x)"
  "blind (map_tx_end g) (commit x) (commit (g x))"
  by (auto simp: commit_def return_early_def intro!: blind_bind_same [OF blind_query] blind_return)

lemma blind_statements [blind_rules]:
  "blind (\<lambda>x. x) (select_route_exists k) (select_route_exists k)"
  "blind (\<lambda>x. x) (select_depth k) (select_depth k)"
  "blind (\<lambda>x. x) select_route_count select_route_count"
  "blind (\<lambda>x. x) (select_expired_counts ttl now) (select_expired_counts ttl now)"
  "blind (\<lambda>x. x) select_idle_routes select_idle_routes"
  "blind (\<lambda>x. x) (select_invite k) (select_invite k)"
  "blind (\<lambda>x. x) (select_invite_exists k) (select_invite_exists k)"
  "blind (\<lambda>x. x) select_invite_count select_invite_count"
  unfolding statement_defs
  by (rule blind_query, simp add: count_expired_def filter_mask cong: filter_cong)+

lemma blind_executes [blind_rules]:
  "blind (\<lambda>x. x) (update_last_touched k now) (update_last_touched k now)"
  "blind (\<lambda>x. x) (delete_route k) (delete_route k)"
  "blind (\<lambda>x. x) (delete_expired ttl now) (delete_expired ttl now)"
  "blind (\<lambda>x. x) delete_idle_routes delete_idle_routes"
  "blind (\<lambda>x. x) (delete_expired_invites now) (delete_expired_invites now)"
  "blind (\<lambda>x. x) (delete_seqs seqs) (delete_seqs seqs)"
  "blind (\<lambda>x. x) (update_lease seqs t) (update_lease seqs t)"
  "blind (\<lambda>x. x) (delete_acked k ids) (delete_acked k ids)"
  "blind (\<lambda>x. x) (update_consume k now th) (update_consume k now th)"
  "blind (\<lambda>x. x) (update_revoke k) (update_revoke k)"
  "blind (\<lambda>x. x) (update_burn k) (update_burn k)"
  unfolding statement_defs
  by (rule blind_execute, simp add: touch_def drop_route_def drop_expired_def drop_idle_routes_def
      drop_expired_invites_def drop_seqs_def lease_seqs_def drop_acked_def map_invites_def filter_mask
      if_distrib [of mask_msg] cong: filter_cong if_cong)+

lemma blind_inserts [blind_rules]:
  "blind (\<lambda>x. x) (insert_route k lid now) (insert_route k lid now)"
  "blind (\<lambda>x. x) (insert_message mid k b now) (insert_message mid k (redact b) now)"
  "blind (\<lambda>x. x) (insert_invite i) (insert_invite i)"
  unfolding statement_defs
  by (rule blind_stmt, simp add: new_message_def mask_msg_def)+

lemma blind_select_available:
  "blind (map mask_msg) (select_available k now n) (select_available k now n)"
  unfolding select_available_def
proof (rule blind_query)
  fix d
  have "insort_key seq (mask_msg m) (map mask_msg ms) = map mask_msg (insort_key seq m ms)" for m ms
    by (induction ms) auto
  then have "sort_key seq (map mask_msg ms) = map mask_msg (sort_key seq ms)" for ms
    by (induction ms) simp_all
  then show "sql_limit n (sort_key seq (filter (available now) (queue (mask_db d) k))) =
      map mask_msg (sql_limit n (sort_key seq (filter (available now) (queue d k))))"
    by (simp add: filter_mask sql_limit_def take_map)
qed

lemma pull_loop_mask:
  "pull_loop mb t (map mask_msg acc) (map mask_msg ms) = map mask_msg (pull_loop mb t acc ms)"
proof (induction ms arbitrary: t acc)
  case (Cons m ms)
  show ?case
    using Cons.IH [of "usize_sat_add t (length (body m))" "acc @ [m]"] by simp
qed simp

lemma blind_sweep [blind_rules]: "blind (\<lambda>x. x) (sweep_expired ttl now) (sweep_expired ttl now)"
  unfolding sweep_expired_def by (intro blind_rules)

lemma blind_slot_bodies [blind_rules]:
  "blind (map_tx_end (\<lambda>x. x)) (route_status_tx ttl k now) (route_status_tx ttl k now)"
  "blind (map_tx_end (\<lambda>x. x)) (retention_sweep_tx ttl now) (retention_sweep_tx ttl now)"
  "blind (map_tx_end (\<lambda>x. x)) (invite_create_tx ttl k lid ch rh bun sg until now cap)
     (invite_create_tx ttl k lid ch rh bun sg until now cap)"
  "blind (map_tx_end (\<lambda>x. x)) (invite_redeem_tx k now th verify) (invite_redeem_tx k now th verify)"
  "blind (map_tx_end (\<lambda>x. x)) (invite_revoke_tx k verify) (invite_revoke_tx k verify)"
  "blind (map_tx_end (\<lambda>x. x)) (ack_tx ttl k ids now) (ack_tx ttl k ids now)"
  unfolding route_status_tx_def retention_sweep_tx_def invite_create_tx_def invite_redeem_tx_def
    invite_revoke_tx_def ack_tx_def
  by (intro blind_rules)+

lemma blind_enqueue [blind_rules]:
  "blind (map_tx_end (\<lambda>x. x)) (enqueue_tx k lid mid b now D R ticket) (enqueue_tx k lid mid (redact b) now D R ticket)"
  unfolding enqueue_tx_def enqueue_message_tx_def Let_def by (intro blind_rules)

definition mask_pull :: "PullOutcome \<Rightarrow> PullOutcome" where
  "mask_pull out = out\<lparr>pull_items := map mask_item (pull_items out)\<rparr>"

lemma mask_pull_simps:
  "pull_sweep (mask_pull out) = pull_sweep out" "pull_drained (mask_pull out) = pull_drained out"
  "pull_items (mask_pull out) = map mask_item (pull_items out)"
  by (simp_all add: mask_pull_def)

lemma blind_case_mode [blind_rules]:
  "blind g m m' \<Longrightarrow> blind g n n' \<Longrightarrow>
   blind g (case mode of Legacy \<Rightarrow> m | Lease \<Rightarrow> n) (case mode of Legacy \<Rightarrow> m' | Lease \<Rightarrow> n')"
  by (cases mode) simp_all

lemma blind_pull [blind_rules]:
  "blind (map_tx_end mask_pull) (pull_tx ttl ls k mx mb now mode) (pull_tx ttl ls k mx mb now mode)"
proof -
  have loop: "pull_loop mb 0 [] (map mask_msg rows) = map mask_msg (pull_loop mb 0 [] rows)" for rows
    using pull_loop_mask [of mb 0 "[]" rows] by simp
  have seqs: "map seq (map mask_msg ms) = map seq ms" for ms by simp
  have commits: "blind (map_tx_end mask_pull)
      (commit \<lparr>pull_items = map (\<lambda>m. (msg_id m, body m)) ms, pull_drained = dr, pull_sweep = sw\<rparr>)
      (commit \<lparr>pull_items = map (\<lambda>m. (msg_id m, body m)) (map mask_msg ms), pull_drained = dr, pull_sweep = sw\<rparr>)"
    for ms dr sw
    using blind_ends(4) [of mask_pull "\<lparr>pull_items = map (\<lambda>m. (msg_id m, body m)) ms, pull_drained = dr, pull_sweep = sw\<rparr>"]
    by (simp add: mask_pull_def o_def)
  show ?thesis
    unfolding pull_tx_def Let_def
    by (rule blind_bind_same [OF blind_sweep blind_bind [OF blind_select_available]], unfold loop seqs)
       (intro blind_rules commits)
qed

text \<open>A transaction on the store.\<close>

lemma run_tx_mask:
  assumes "blind (map_tx_end g) b b'"
  shows "run_tx b' fs (mask_db d) = map_prod (map_sum (\<lambda>e. e) g) mask_db (run_tx b fs d)"
proof -
  have "blind (map_tx_end g) (sql_bind (query (\<lambda>_. ())) (\<lambda>_. b)) (sql_bind (query (\<lambda>_. ())) (\<lambda>_. b'))"
    by (rule blind_bind_same [OF blind_query assms]) simp
  then show ?thesis
    by (simp add: run_tx_def blind_def split: sum.split prod.split tx_end.split)
qed

lemma store_tx_mask:
  assumes "blind (map_tx_end g) b b'"
  shows "store_tx b' fs (mask_store s) = map_prod (map_sum (\<lambda>e. e) g) mask_store (store_tx b fs s)"
  using run_tx_mask [OF assms, of fs "inner (conn s)"]
  by (cases "conn s") (simp add: store_tx_def lock_def mask_store_def split: prod.split)

lemma mask_store_simps [simp]:
  "st_retention_ttl_secs (mask_store s) = st_retention_ttl_secs s"
  "st_pull_lease_secs (mask_store s) = st_pull_lease_secs s"
  by (simp_all add: mask_store_def)

subsection \<open>Handlers\<close>

definition hblind :: "('a \<Rightarrow> 'b) \<Rightarrow> 'a handler \<Rightarrow> 'b handler \<Rightarrow> bool" where
  "hblind g m m' \<longleftrightarrow>
     (\<forall>st. m' (mask_app st) = (case m st of (r, l, st') \<Rightarrow> (map_sum mask_reply g r, l, mask_app st')))"

named_theorems hblind_rules

lemma mask_app_simps [simp]:
  "app_limits (mask_app st) = app_limits st" "app_controls (mask_app st) = app_controls st"
  "relay_token (mask_app st) = relay_token st" "invite_limits (mask_app st) = invite_limits st"
  "push_rates (mask_app st) = push_rates st" "invite_create_rate (mask_app st) = invite_create_rate st"
  "server_info (mask_app st) = server_info st" "store (mask_app st) = mask_store (store st)"
  "app_retention_ttl_secs (mask_app st) = app_retention_ttl_secs st"
  "mask_app (st\<lparr>push_rates := b\<rparr>) = (mask_app st)\<lparr>push_rates := b\<rparr>"
  "mask_app (st\<lparr>invite_create_rate := c\<rparr>) = (mask_app st)\<lparr>invite_create_rate := c\<rparr>"
  by (simp_all add: mask_app_def)

lemma mask_reply_simps [simp]:
  "mask_reply (Reply n (Code c)) = Reply n (Code c)" "mask_reply (Reply n NoBody) = Reply n NoBody"
  "mask_reply (Reply n (PostResp mid)) = Reply n (PostResp mid)"
  "mask_reply (Reply n (PullResp items)) = Reply n (PullResp (map mask_item items))"
  "mask_reply (Reply n (AckResp k)) = Reply n (AckResp k)"
  "mask_reply (Reply n (InviteCreateResp t)) = Reply n (InviteCreateResp t)"
  "mask_reply (Reply n (InviteRedeemResp b s t)) = Reply n (InviteRedeemResp b s t)"
  "mask_reply (Reply n (InviteRevokeResp v)) = Reply n (InviteRevokeResp v)"
  "mask_reply (Reply n InfoProbe) = Reply n InfoProbe"
  "mask_reply (Reply n (InfoFull doc)) = Reply n (InfoFull doc)"
  by (simp_all add: mask_reply_def)

lemma hblind_bind:
  assumes "hblind g m m'" and "\<And>x. hblind h (f x) (f' (g x))"
  shows "hblind h (h_bind m f) (h_bind m' f')"
  using assms unfolding hblind_def h_bind_def
  by (auto simp: map_sum_def split: prod.split sum.split)

lemma hblind_bind_same [hblind_rules]:
  assumes "hblind (\<lambda>x. x) m m'" and "\<And>x. hblind h (f x) (f' x)"
  shows "hblind h (h_bind m f) (h_bind m' f')"
  using assms by (rule hblind_bind)

lemma hblind_basic [hblind_rules]:
  "hblind (\<lambda>x. x) (h_return x) (h_return x)"
  "hblind (\<lambda>x. x) (h_info e) (h_info e)"
  "hblind (\<lambda>x. x) (h_guard b n code) (h_guard b n code)"
  "hblind g (h_reply n (Code code)) (h_reply n (Code code))"
  "hblind (\<lambda>x. x) (h_get app_limits) (h_get app_limits)"
  "hblind (\<lambda>x. x) (h_get app_controls) (h_get app_controls)"
  "hblind (\<lambda>x. x) (h_get invite_limits) (h_get invite_limits)"
  "hblind (\<lambda>x. x) (h_get relay_token) (h_get relay_token)"
  by (auto simp: hblind_def h_run h_guard_def)

lemma hblind_answers [hblind_rules]:
  "y = mask_reply x \<Longrightarrow> hblind mask_reply (h_return x) (h_return y)"
  "hblind mask_reply (pull_answer_items lid items) (pull_answer_items lid (map mask_item items))"
  "hblind mask_reply (server_info_handler sha h) (server_info_handler sha h)"
  by (auto simp: hblind_def h_run pull_answer_items_def server_info_handler_def info_document_def
      split: prod.split)

lemma mask_update_buckets: "mask_app (update_buckets f st) = update_buckets f (mask_app st)"
  by (simp add: update_buckets_def split: option.split)

lemma hblind_shared [hblind_rules]:
  "hblind (\<lambda>x. x) (h_prune stats) (h_prune stats)"
  "hblind (\<lambda>x. x) (h_drop_bucket key) (h_drop_bucket key)"
  "hblind (\<lambda>x. x) (push_gate amb key lid) (push_gate amb key lid)"
  "hblind (\<lambda>x. x) (create_gate amb) (create_gate amb)"
  by (auto simp: hblind_def h_prune_def log_and_prune_sweep_def h_drop_bucket_def drop_rate_bucket_def
      mask_update_buckets push_gate_def create_gate_def Let_def split: option.split prod.split)

lemma hblind_store:
  assumes "\<And>s. f' (mask_store s) = map_prod (map_sum (\<lambda>e. e) g) mask_store (f s)"
  shows "hblind g (h_store f) (h_store f')"
  using assms
  by (auto simp: hblind_def h_store_def run_store_def mask_app_def split: prod.split sum.split)

lemma map_tx_end_id [simp]: "map_tx_end (\<lambda>x. x) = (\<lambda>x. x)"
  by (simp add: tx_end.map_ident fun_eq_iff)

lemma hblind_stores [hblind_rules]:
  "hblind (\<lambda>x. x) (h_store (store_route_status k now fs)) (h_store (store_route_status k now fs))"
  "hblind (\<lambda>x. x) (h_store (store_invite_create k lid ch rh bun sg until now cap fs))
     (h_store (store_invite_create k lid ch rh bun sg until now cap fs))"
  "hblind (\<lambda>x. x) (h_store (store_invite_redeem k now th verify fs)) (h_store (store_invite_redeem k now th verify fs))"
  "hblind (\<lambda>x. x) (h_store (store_invite_revoke k verify fs)) (h_store (store_invite_revoke k verify fs))"
  "hblind (\<lambda>x. x) (h_store (store_enqueue k lid mid b now D R ticket fs))
     (h_store (store_enqueue k lid mid (redact b) now D R ticket fs))"
  "hblind mask_pull (h_store (store_pull k mx mb now mode fs)) (h_store (store_pull k mx mb now mode fs))"
  "hblind (\<lambda>x. x) (h_store (store_ack k ids now fs)) (h_store (store_ack k ids now fs))"
  by (rule hblind_store, simp only: store_op_defs mask_store_simps, rule store_tx_mask, rule blind_rules)+

lemma hblind_parts [hblind_rules]:
  "hblind (\<lambda>x. x) (h_auth sha h) (h_auth sha h)"
  "hblind (\<lambda>x. x) (h_route_token h) (h_route_token h)"
  "hblind (\<lambda>x. x) (h_json parse data code) (h_json parse data code)"
  "hblind (\<lambda>x. x) (create_validate amb req) (create_validate amb req)"
  "hblind mask_reply (create_answer lid until token n out) (create_answer lid until token n out)"
  "hblind mask_reply (push_answer key lid mid n out') (push_answer key lid mid n out')"
proof -
  show "hblind (\<lambda>x. x) (h_auth sha h) (h_auth sha h)"
    unfolding h_auth_def by (intro hblind_rules)
  show "hblind (\<lambda>x. x) (h_route_token h) (h_route_token h)"
    unfolding h_route_token_def by (cases "resolve_route_token h") (auto intro: hblind_rules)
  show "hblind (\<lambda>x. x) (h_json parse data code) (h_json parse data code)"
    unfolding h_json_def by (cases "parse data") (auto intro: hblind_rules)
  show "hblind (\<lambda>x. x) (create_validate amb req) (create_validate amb req)"
    unfolding create_validate_def Let_def
    by (cases "b64_decode (create_bundle_b64 req)"; cases "b64_decode (create_sig_b64 req)")
       (auto intro!: hblind_rules)
  show "hblind mask_reply (create_answer lid until token n out) (create_answer lid until token n out)"
    unfolding create_answer_def by (cases out) (auto intro!: hblind_rules)
  show "hblind mask_reply (push_answer key lid mid n out') (push_answer key lid mid n out')"
    unfolding push_answer_def slot_reply_def
    by (cases out') (auto intro!: hblind_rules split: SlotReject.split)
qed

lemma hblind_if [hblind_rules]:
  "hblind g m m' \<Longrightarrow> hblind g n n' \<Longrightarrow> hblind g (if b then m else n) (if b then m' else n')"
  by simp

lemma hblind_push:
  "hblind mask_reply (push_message sha amb h data) (push_message sha amb h (redact data))"
proof -
  have "hblind (\<lambda>x. x) (push_admit sha h data) (push_admit sha h (redact data))"
    unfolding push_admit_def mask_simps by (intro hblind_rules)
  moreover have "hblind (\<lambda>x. x) (push_status amb key lid) (push_status amb key lid)" for key lid
    unfolding push_status_def by (intro hblind_rules)
  moreover have "hblind (\<lambda>x. x) (push_enqueue sha amb h data key lid mid)
      (push_enqueue sha amb h (redact data) key lid mid)" for key lid mid
    unfolding push_enqueue_def by (intro hblind_rules)
  ultimately show ?thesis
    unfolding push_message_def Let_def mask_simps by (intro hblind_rules)
qed

lemma hblind_pull: "hblind mask_reply (pull_message sha amb h q) (pull_message sha amb h q)"
proof -
  have mode: "hblind (\<lambda>x. x) (case o' of None \<Rightarrow> h_return (c, m, Legacy) | Some a \<Rightarrow>
      if a = ''lease'' then h_return (c, m, Lease) else h_reply 400 (Code ''ERR_BAD_ACK_MODE''))
      (case o' of None \<Rightarrow> h_return (c, m, Legacy) | Some a \<Rightarrow>
      if a = ''lease'' then h_return (c, m, Lease) else h_reply 400 (Code ''ERR_BAD_ACK_MODE''))"
    for o' :: "string option" and c :: string and m :: nat
    by (cases o') (auto intro: hblind_rules)
  have admit: "hblind (\<lambda>x. x) (pull_admit sha h q) (pull_admit sha h q)"
    unfolding pull_admit_def Let_def by (intro hblind_rules mode)
  have call: "hblind mask_pull (pull_store amb key mx mo) (pull_store amb key mx mo)" for key mx mo
    unfolding pull_store_def Let_def by (intro hblind_rules)
  have rest: "hblind mask_reply
      (h_bind (h_prune (pull_sweep out)) (\<lambda>_. h_bind (if pull_drained out then h_drop_bucket key else h_return ())
        (\<lambda>_. pull_answer_items lid (pull_items out))))
      (h_bind (h_prune (pull_sweep (mask_pull out))) (\<lambda>_. h_bind (if pull_drained (mask_pull out) then h_drop_bucket key else h_return ())
        (\<lambda>_. pull_answer_items lid (pull_items (mask_pull out)))))" for out key lid
    unfolding mask_pull_simps by (intro hblind_rules)
  show ?thesis
    unfolding pull_message_def Let_def
    by (rule hblind_bind_same [OF admit])
       (simp only: split_paired_all case_prod_conv, rule hblind_bind [OF call], rule rest)
qed

lemma hblind_others:
  "hblind mask_reply (ack_messages sha parse amb h data) (ack_messages sha parse amb h data)"
  "hblind mask_reply (invite_create sha pc amb h data) (invite_create sha pc amb h data)"
  "hblind mask_reply (invite_redeem sha pr amb h data) (invite_redeem sha pr amb h data)"
  "hblind mask_reply (invite_revoke sha pv amb h data) (invite_revoke sha pv amb h data)"
proof -
  have redeemed: "hblind (\<lambda>x. x) (case out of Redeemed bun sg \<Rightarrow> h_info (InviteRedeemed lid) | _ \<Rightarrow> h_return ())
      (case out of Redeemed bun sg \<Rightarrow> h_info (InviteRedeemed lid) | _ \<Rightarrow> h_return ())" for out lid
    by (cases out; simp only: InviteRedeemOutcome.case; rule hblind_basic)
  have replies: "redeem_reply ticket out = mask_reply (redeem_reply ticket out)"
    "revoke_reply out' = mask_reply (revoke_reply out')" for ticket out out'
    by (cases out; simp add: redeem_reply_def)+ (cases out'; simp add: revoke_reply_def)
  show "hblind mask_reply (ack_messages sha parse amb h data) (ack_messages sha parse amb h data)"
    unfolding ack_messages_def Let_def by (intro hblind_rules) simp
  show "hblind mask_reply (invite_create sha pc amb h data) (invite_create sha pc amb h data)"
    unfolding invite_create_def Let_def
    by (intro hblind_bind_same hblind_rules) (auto intro!: hblind_rules split: prod.split)
  show "hblind mask_reply (invite_redeem sha pr amb h data) (invite_redeem sha pr amb h data)"
    unfolding invite_redeem_def Let_def by (intro hblind_rules redeemed replies)
  show "hblind mask_reply (invite_revoke sha pv amb h data) (invite_revoke sha pv amb h data)"
    unfolding invite_revoke_def Let_def by (intro hblind_rules replies)
qed

text \<open>
  C12: Payloads do not reach the logs. Serving a request with its payload bytes replaced by zeros,
  on a relay whose stored payloads are replaced by zeros, emits exactly the same log events,
  answers the same up to the payloads of a pull, and leaves the same relay up to payloads:
  only the lengths of payloads matter, on every route, under any failures.
\<close>

theorem payload_never_logged:
  "serve sha p amb (mask_request req) (mask_app st) =
    (case serve sha p amb req st of (r, l, st') \<Rightarrow> (mask_reply r, l, mask_app st'))"
proof -
  have "hblind mask_reply (app sha p amb req) (app sha p amb (mask_request req))"
    by (cases req) (simp_all add: app_def mask_request_def hblind_push hblind_pull hblind_others hblind_answers(3))
  then show ?thesis
    by (auto simp: hblind_def serve_def split: prod.split sum.split)
qed

end
