(* ===== verification/Drain.thy ===== *)
theory Drain imports Relay begin

text \<open>
  Emptying a route. A reader repeats a pull until an answer is empty, acknowledging what it got
  when it pulls under leases; on a route that nobody else touches the loop ends, with every
  message delivered once and in order.
\<close>

text \<open>What the reader does with a batch: under leases it acknowledges it.\<close>

fun settle :: "PullMode \<Rightarrow> string \<Rightarrow> int \<Rightarrow> PullOutcome \<Rightarrow> Store \<Rightarrow> Store" where
  "settle Legacy k t p st = st"
| "settle Lease k t p st = snd (exec (OpAck k (map fst (pull_items p)) t) [] st)"

text \<open>The reader's loop with at most \<open>n\<close> pulls, at time \<open>t\<close>.\<close>

fun drain :: "PullMode \<Rightarrow> string \<Rightarrow> nat \<Rightarrow> nat \<Rightarrow> int \<Rightarrow> nat \<Rightarrow> Store \<Rightarrow> StoredMsg list \<times> Store" where
  "drain mode k mx mb t 0 st = ([], st)"
| "drain mode k mx mb t (Suc n) st =
     (case exec (OpPull k mx mb t mode) [] st of
        (Inr (OutPull p), st1) \<Rightarrow>
          (if pull_items p = [] then ([], st1)
           else apfst ((@) (pull_items p)) (drain mode k mx mb t n (settle mode k t p st1)))
      | (_, st1) \<Rightarrow> ([], st1))"

text \<open>A route at rest: nothing is leased and nothing has expired.\<close>

definition at_rest :: "string \<Rightarrow> int \<Rightarrow> Store \<Rightarrow> bool" where
  "at_rest k t st \<longleftrightarrow> store_wf st \<and>
     (\<forall>m \<in> set (queue (tables st) k). leased_until m = None \<and> \<not> expired (st_retention_ttl_secs st) t m)"

lemma pull_loop_takes: "ms \<noteq> [] \<Longrightarrow> \<exists>j. pull_loop mb 0 [] ms = take (Suc j) ms"
proof (cases ms)
  case (Cons m ms')
  obtain j where "pull_loop mb (usize_sat_add 0 (length (body m))) [m] ms' = [m] @ take j ms'"
    using pull_loop_prefix by blast
  then show ?thesis using Cons by auto
qed simp

lemma pulled_at_rest:
  assumes "mail_ok d" and "\<forall>m \<in> set (queue d k). leased_until m = None"
    and "queue d k \<noteq> []" and "0 < mx" and "mx < 2 ^ 63"
  shows "\<exists>j. pulled t k mx mb d = take (Suc j) (queue d k)"
proof -
  have "filter (available t) (queue d k) = queue d k"
    using assms(2) by (simp add: filter_id_conv available_def)
  then have p: "pulled t k mx mb d = pull_loop mb 0 [] (take mx (queue d k))"
    using queue_distinct(2) [OF assms(1)]
    by (simp add: pulled_def sort_key_id_if_sorted usize_as_i64_small [OF assms(5)] sql_limit_def)
  have "take mx (queue d k) \<noteq> []" using assms(3,4) by simp
  from pull_loop_takes [OF this, of mb] obtain j where "pulled t k mx mb d = take (Suc j) (take mx (queue d k))"
    unfolding p by blast
  then show ?thesis using assms(4) by (cases mx) (auto simp: min_def intro: exI [of _ "min j (mx - 1)"])
qed

lemma exec_pull:
  fixes t :: int and k :: string and mx mb :: nat and st :: Store
  assumes "alive st"
  defines "s \<equiv> swept (st_retention_ttl_secs st) t (tables st)"
  defines "ms \<equiv> pulled t k mx mb s"
  shows "\<exists>p. exec (OpPull k mx mb t mode) [] st = (Inr (OutPull p), st\<lparr>conn := Mutex False
      (case mode of Legacy \<Rightarrow> legacy_delivered k t ms s
       | Lease \<Rightarrow> lease_delivered k t (i64_add t (st_pull_lease_secs st)) ms s)\<rparr>) \<and>
    pull_items p = map stored ms"
  by (cases mode) (simp_all add: exec_no_fault [OF assms(1)] run_op_def op_effect_def out_as_def
    pull_legacy_run pull_lease_run Let_def s_def ms_def stored_eta)

lemma exec_ack:
  assumes "alive st"
  shows "snd (exec (OpAck k ids t) [] st) =
    st\<lparr>conn := Mutex False (acknowledged k ids (swept (st_retention_ttl_secs st) t (tables st)))\<rparr>"
  by (simp add: exec_no_fault [OF assms] op_effect_def run_op_def out_as_def ack_run Let_def)

lemma lease_then_ack:
  assumes "mail_ok d" and "\<forall>m \<in> set (queue d k). leased_until m = None \<and> \<not> expired ttl t m"
    and "ms = take (Suc j) (queue d k)" and "queue d k \<noteq> []"
  shows "queue (acknowledged k (map msg_id ms) (swept ttl t (lease_delivered k t dl ms d))) k =
    drop (Suc j) (queue d k)"
proof -
  let ?q = "queue d k" and ?dropped = "\<lambda>m. acked_by k (map msg_id ms) m"
  let ?lease = "\<lambda>m. if seq m \<in> set (map seq ms) then m\<lparr>leased_until := Some dl\<rparr> else m"
  have sub: "set ms \<subseteq> set ?q" using assms(3) set_take_subset by fast
  have seqs: "seq m \<in> set (map seq ms) \<longleftrightarrow> m \<in> set ms" if "m \<in> set ?q" for m
    using seq_in_pulled [OF assms(1) sub, of m] that by (simp add: queue_def)
  have disj: "set ms \<inter> set (drop (Suc j) ?q) = {}"
    unfolding assms(3) by (rule set_take_disj_set_drop_if_distinct [OF queue_distinct(1) [OF assms(1)]]) simp
  have "ms \<noteq> []" using assms(3,4) by simp
  then have mails: "mail_ok (lease_delivered k t dl ms d)"
    and q1: "queue (lease_delivered k t dl ms d) k = map ?lease ?q"
    using assms(1) by (simp_all add: lease_delivered_def queue_lease_seqs)
  have head: "filter (\<lambda>m. \<not> expired ttl t m \<and> \<not> ?dropped m) (map ?lease ms) = []"
    using sub seqs by (auto simp: filter_empty_conv acked_by_def queue_def)
  have tail: "map ?lease (drop (Suc j) ?q) = drop (Suc j) ?q"
    using disj seqs set_drop_subset [of "Suc j" ?q] by (intro map_idI) auto
  have rest: "filter (\<lambda>m. \<not> expired ttl t m \<and> \<not> ?dropped m) (drop (Suc j) ?q) = drop (Suc j) ?q"
    using assms(2) set_drop_subset [of "Suc j" ?q] by (auto simp: filter_id_conv acked_by_def)
  have "queue (acknowledged k (map msg_id ms) (swept ttl t (lease_delivered k t dl ms d))) k =
      filter (\<lambda>m. \<not> expired ttl t m \<and> \<not> ?dropped m) (map ?lease ?q)"
    by (simp add: acknowledged_keep [OF mail_ok_swept [OF mails]] queue_swept [OF mails] q1 conj_commute)
  also have "\<dots> = filter (\<lambda>m. \<not> expired ttl t m \<and> \<not> ?dropped m) (map ?lease ms @ map ?lease (drop (Suc j) ?q))"
    by (simp add: assms(3) flip: map_append)
  finally show ?thesis unfolding filter_append head tail rest by simp
qed

text \<open>One round takes a nonempty prefix off a queue at rest, and leaves the rest of it at rest.\<close>

lemma drain_round:
  assumes "at_rest k t st" and "queue (tables st) k \<noteq> []" and "0 < mx" and "mx < 2 ^ 63"
  shows "\<exists>j p st1. exec (OpPull k mx mb t mode) [] st = (Inr (OutPull p), st1) \<and>
    pull_items p = map stored (take (Suc j) (queue (tables st) k)) \<and>
    queue (tables (settle mode k t p st1)) k = drop (Suc j) (queue (tables st) k) \<and>
    at_rest k t (settle mode k t p st1)"
proof -
  let ?ttl = "st_retention_ttl_secs st"
  let ?s = "swept ?ttl t (tables st)" and ?q = "queue (tables st) k"
  have live: "alive st" and mail: "mail_ok (tables st)" and wf: "store_wf st"
    and calm: "\<forall>m \<in> set ?q. leased_until m = None \<and> \<not> expired ?ttl t m"
    using assms(1) by (simp_all add: at_rest_def store_wf_def db_ok_def)
  have s: "mail_ok ?s" "queue ?s k = ?q"
    using mail calm by (simp_all add: mail_ok_swept queue_swept filter_id_conv)
  obtain j where j: "pulled t k mx mb ?s = take (Suc j) ?q"
    using pulled_at_rest [OF s(1), of k mx t mb] calm assms(2-4) by (auto simp: s(2))
  obtain p st1 where run: "exec (OpPull k mx mb t mode) [] st = (Inr (OutPull p), st1)"
    and st1: "st1 = st\<lparr>conn := Mutex False
      (case mode of Legacy \<Rightarrow> legacy_delivered k t (take (Suc j) ?q) ?s
       | Lease \<Rightarrow> lease_delivered k t (i64_add t (st_pull_lease_secs st)) (take (Suc j) ?q) ?s)\<rparr>"
    and items: "pull_items p = map stored (take (Suc j) ?q)"
    using exec_pull [OF live, of k mx mb t mode] unfolding j by blast
  have wf1: "store_wf st1" using store_wf_exec [OF wf, of "OpPull k mx mb t mode" "[]"] run by simp
  have "queue (tables (settle mode k t p st1)) k = drop (Suc j) ?q \<and>
    st_retention_ttl_secs (settle mode k t p st1) = ?ttl \<and> store_wf (settle mode k t p st1)"
  proof (cases mode)
    case Legacy
    have "queue (legacy_delivered k t (take (Suc j) ?q) ?s) k = filter (\<lambda>m. m \<notin> set (take (Suc j) ?q)) ?q"
      using queue_legacy [OF s(1), of k t t mx mb k] by (simp add: j s(2))
    then show ?thesis
      using filter_not_taken [OF queue_distinct(1) [OF mail]] wf1 by (simp add: Legacy st1)
  next
    case Lease
    have ids: "map fst (pull_items p) = map msg_id (take (Suc j) ?q)"
      by (simp add: items stored_def)
    have "alive st1" using wf1 by (simp add: store_wf_def)
    from exec_ack [OF this] show ?thesis
      using lease_then_ack [OF s(1), of k ?ttl t _ j] calm assms(2)
        store_wf_exec [OF wf1, of "OpAck k (map fst (pull_items p)) t" "[]"]
      by (simp add: Lease st1 s(2) ids)
  qed
  moreover from this have "at_rest k t (settle mode k t p st1)"
    using calm set_drop_subset [of "Suc j" ?q] by (auto simp: at_rest_def)
  ultimately show ?thesis using run items by blast
qed

lemma pulled_nothing: "queue d k = [] \<Longrightarrow> pulled t k mx mb d = []"
  using pulled_subset [of t k mx mb d] by simp

text \<open>
  C28: A reader that repeats its pull empties a route at rest, in either mode, with any batch
  size and any byte budget: after as many pulls as there are messages it has received every
  queued message, once and in the order they were accepted, and the queue is empty.
\<close>

theorem drain_empties:
  assumes "at_rest k t st" and "0 < mx" and "mx < 2 ^ 63" and "length (queue (tables st) k) \<le> n"
  shows "\<exists>st'. drain mode k mx mb t n st = (letters k st, st') \<and> queue (tables st') k = []"
  using assms(1,4)
proof (induction n arbitrary: st)
  case 0
  then show ?case by (simp add: letters_def)
next
  case (Suc n)
  let ?q = "queue (tables st) k"
  show ?case
  proof (cases "?q = []")
    case True
    from Suc.prems(1) have live: "alive st" and mail: "mail_ok (tables st)"
      by (simp_all add: at_rest_def store_wf_def db_ok_def)
    let ?s = "swept (st_retention_ttl_secs st) t (tables st)"
    have q: "queue ?s k = []" using True mail by (simp add: queue_swept)
    have empty: "queue (legacy_delivered k t [] ?s) k = []"
      using queue_legacy [OF mail_ok_swept [OF mail, of "st_retention_ttl_secs st" t], of k t t mx mb k]
      by (simp add: pulled_nothing q)
    show ?thesis
      using exec_pull [OF live, of k mx mb t mode] True q empty
      by (cases mode) (auto simp: letters_def pulled_nothing lease_delivered_def)
  next
    case False
    obtain j p st1 where run: "exec (OpPull k mx mb t mode) [] st = (Inr (OutPull p), st1)"
      and items: "pull_items p = map stored (take (Suc j) ?q)"
      and rest: "queue (tables (settle mode k t p st1)) k = drop (Suc j) ?q"
      and calm: "at_rest k t (settle mode k t p st1)"
      using drain_round [OF Suc.prems(1) False assms(2,3)] by blast
    have "length (queue (tables (settle mode k t p st1)) k) \<le> n"
      using Suc.prems(2) by (simp add: rest)
    from Suc.IH [OF calm this] obtain st' where
      more: "drain mode k mx mb t n (settle mode k t p st1) = (map stored (drop (Suc j) ?q), st')"
      and empty: "queue (tables st') k = []"
      by (auto simp: letters_def rest)
    have "pull_items p \<noteq> []" using items False by simp
    then show ?thesis
      using run more empty by (simp add: letters_def items flip: map_append)
  qed
qed

lemma pushed_store_at_rest: "at_rest ''r'' 101 pushed_store"
  using reachable_ok [OF pushed_store_reachable]
  by (simp add: at_rest_def store_wf_def queue_pushed_store pushed_store_simps expired_def)

theorem drain_empties_witness:
  "\<exists>st'. drain Lease ''r'' 8 0 101 2 pushed_store = ([(''m'', [1])], st') \<and> queue (tables st') ''r'' = []"
  using drain_empties [OF pushed_store_at_rest, of 8 2 Lease 0]
  by (simp add: queue_pushed_store letters_def stored_def)

end
