(* ===== verification/Http_Spec.thy ===== *)
theory Http_Spec imports Exchange begin

text \<open>
  The relay at its HTTP surface, without tables, transactions, locks or monads. A service is the
  abstract relay of queues and slots, with the rate buckets; its specification says for each of
  the seven routes what is answered and what is left. The refinement theorem says that the
  handlers, run on the tables, do exactly that. What one client can learn or do about another
  one's route is then read off the specification.
\<close>

subsection \<open>Services\<close>

record settings =
  set_limits :: Limits
  set_controls :: ResourceControls
  set_invites :: InviteLimits
  set_token :: "string option"
  set_ttl :: int
  set_lease :: int
  set_doc :: InfoDoc

record service =
  srv_relay :: relay
  srv_buckets :: "string \<Rightarrow> PushRateBucket option"
  srv_create :: PushRateBucket

definition settings_of :: "AppState \<Rightarrow> settings" where
  "settings_of st =
     \<lparr>set_limits = app_limits st, set_controls = app_controls st, set_invites = invite_limits st,
      set_token = relay_token st, set_ttl = st_retention_ttl_secs (store st),
      set_lease = st_pull_lease_secs (store st), set_doc = info_document st\<rparr>"

definition service_of :: "AppState \<Rightarrow> service" where
  "service_of st =
     \<lparr>srv_relay = relay_of (tables (store st)), srv_buckets = inner (push_rates st),
      srv_create = inner (invite_create_rate st)\<rparr>"

text \<open>A rate bucket is forgotten when the queue of its route becomes empty.\<close>

definition forget ::
    "relay \<Rightarrow> relay \<Rightarrow> (string \<Rightarrow> PushRateBucket option) \<Rightarrow> string \<Rightarrow> PushRateBucket option" where
  "forget B B' b = (\<lambda>k. if boxes B k \<noteq> [] \<and> boxes B' k = [] then None else b k)"

definition becomes :: "relay \<Rightarrow> service \<Rightarrow> service" where
  "becomes B V = V\<lparr>srv_relay := B, srv_buckets := forget (srv_relay V) B (srv_buckets V)\<rparr>"

subsection \<open>The seven routes\<close>

definition refuse :: "nat \<Rightarrow> string \<Rightarrow> service \<Rightarrow> response \<times> service" where
  "refuse n code V = (Reply n (Code code), V)"

text \<open>Authorisation and the route token, in front of the routes that have one.\<close>

definition spec_routed ::
    "settings \<Rightarrow> digest_fun \<Rightarrow> headers \<Rightarrow> service \<Rightarrow> (string \<Rightarrow> response \<times> service) \<Rightarrow> response \<times> service" where
  "spec_routed S sha h V act =
     (if \<not> auth_ok sha h (set_token S) then refuse 401 ''ERR_UNAUTHORIZED'' V
      else case resolve_route_token h of
             Inl code \<Rightarrow> refuse 400 code V
           | Inr channel \<Rightarrow> act channel)"

definition slot_denial :: "string \<Rightarrow> int \<Rightarrow> (string \<Rightarrow> bool) option \<Rightarrow> relay \<Rightarrow> SlotReject option" where
  "slot_denial k now ticket B =
     (case slots B k of None \<Rightarrow> None | Some i \<Rightarrow> slot_admission i now ticket)"

definition spec_accept :: "string \<Rightarrow> string \<Rightarrow> bytes \<Rightarrow> int \<Rightarrow> relay \<Rightarrow> relay" where
  "spec_accept k mid b now B =
     \<lparr>boxes = (boxes B)(k := boxes B k @ [\<lparr>e_id = mid, e_body = b, e_time = now, e_lease = None\<rparr>]),
      slots = (slots B)(k := map_option burn (slots B k))\<rparr>"

definition spec_push ::
    "settings \<Rightarrow> digest_fun \<Rightarrow> ambient \<Rightarrow> headers \<Rightarrow> bytes \<Rightarrow> service \<Rightarrow> response \<times> service" where
  "spec_push S sha amb h b V = spec_routed S sha h V (\<lambda>channel.
     if b = [] then refuse 400 ''ERR_EMPTY_BODY'' V
     else if max_body_bytes (set_limits S) < length b then refuse 413 ''ERR_TOO_LARGE'' V
     else
       (let k = route_key_for sha channel; now = now_unix_secs amb;
            B = spec_sweep (set_ttl S) now (srv_relay V); n = length (boxes B k);
            V1 = becomes B V; ctl = set_controls S in
        if n \<noteq> 0 \<and> max_queue_depth (set_limits S) \<le> n then refuse 429 ''ERR_OVERLOADED'' V1
        else if n = 0 \<and> max_route_count ctl \<le> live_boxes B then refuse 429 ''ERR_ROUTE_CAP'' V1
        else
          (let (ok, bkt) = try_consume ctl (mono_ns amb)
                 (unwrap_or (srv_buckets V1 k) (bucket_new (mono_ns amb) ctl));
               V2 = V1\<lparr>srv_buckets := (srv_buckets V1)(k \<mapsto> bkt)\<rparr> in
           if \<not> ok then refuse 429 ''ERR_RATE_LIMITED'' V2
           else case slot_denial k now (push_ticket sha h) B of
                  Some reason \<Rightarrow> (slot_reply reason, V2)
                | None \<Rightarrow> (Reply 200 (PostResp (push_msg_id amb h)),
                           V2\<lparr>srv_relay := spec_accept k (push_msg_id amb h) b now B\<rparr>))))"

definition spec_pull_message ::
    "settings \<Rightarrow> digest_fun \<Rightarrow> ambient \<Rightarrow> headers \<Rightarrow> PullQuery \<Rightarrow> service \<Rightarrow> response \<times> service" where
  "spec_pull_message S sha amb h q V = spec_routed S sha h V (\<lambda>channel.
     if query_max q = Some 0 then refuse 400 ''ERR_BAD_MAX'' V
     else if query_ack q \<noteq> None \<and> query_ack q \<noteq> Some ''lease'' then refuse 400 ''ERR_BAD_ACK_MODE'' V
     else
       (let (out, B) = spec_pull (set_ttl S) (set_lease S) (route_key_for sha channel)
              (min (unwrap_or (query_max q) 1) (max_queue_depth (set_limits S)))
              (max PULL_BUDGET_BYTES (max_body_bytes (set_limits S))) (now_unix_secs amb)
              (if query_ack q = None then Legacy else Lease) (srv_relay V) in
        (if pull_items out = [] then Reply 204 NoBody else Reply 200 (PullResp (pull_items out)),
         becomes B V)))"

definition spec_ack_messages ::
    "settings \<Rightarrow> digest_fun \<Rightarrow> (bytes \<Rightarrow> string list option) \<Rightarrow> ambient \<Rightarrow> headers \<Rightarrow> bytes \<Rightarrow> service
      \<Rightarrow> response \<times> service" where
  "spec_ack_messages S sha parse amb h b V = spec_routed S sha h V (\<lambda>channel.
     if ACK_BODY_CAP < length b then refuse 413 ''ERR_TOO_LARGE'' V
     else case parse b of
            None \<Rightarrow> refuse 400 ''ERR_BAD_ACK_BODY'' V
          | Some ids \<Rightarrow>
              if ids = [] \<or> MAX_ACK_IDS < length ids then refuse 400 ''ERR_BAD_ACK_IDS'' V
              else
                (let (out, B) = spec_ack (set_ttl S) (route_key_for sha channel) ids
                       (now_unix_secs amb) (srv_relay V) in
                 (Reply 200 (AckResp (acked out)), becomes B V)))"

definition create_reply :: "string \<Rightarrow> InviteCreateOutcome \<Rightarrow> response" where
  "create_reply token out =
     (case out of
        Created \<Rightarrow> Reply 200 (InviteCreateResp token)
      | Duplicate \<Rightarrow> Reply 409 (Code ''ERR_INVITE_DUPLICATE'')
      | CapFull n \<Rightarrow> Reply 429 (Code ''ERR_INVITE_CAP_FULL''))"

text \<open>A parsed create with its decoded blobs, or the refusal of its body.\<close>

definition check_create :: "InviteLimits \<Rightarrow> int \<Rightarrow> InviteCreateReq \<Rightarrow> (nat \<times> string) + (bytes \<times> bytes)" where
  "check_create il now req =
     (case (b64_decode (create_bundle_b64 req), b64_decode (create_sig_b64 req)) of
        (Some bun, Some sg) \<Rightarrow>
          if blank (create_invite_id req) \<or> blank (create_cap_hash req) \<or> bun = [] \<or> sg = []
          then Inl (400, ''ERR_INVITE_BAD_BODY'')
          else if max_bundle_bytes il < max (length bun) (length sg)
          then Inl (413, ''ERR_INVITE_TOO_LARGE'')
          else if create_expiry req \<le> now then Inl (400, ''ERR_INVITE_EXPIRED'')
          else Inr (bun, sg)
      | _ \<Rightarrow> Inl (400, ''ERR_INVITE_BAD_BODY''))"

text \<open>A create takes a token before it reads the body; it does not forget the buckets of the
  routes that its sweep empties.\<close>

definition spec_invite_create ::
    "settings \<Rightarrow> digest_fun \<Rightarrow> (bytes \<Rightarrow> InviteCreateReq option) \<Rightarrow> ambient \<Rightarrow> headers \<Rightarrow> bytes \<Rightarrow> service
      \<Rightarrow> response \<times> service" where
  "spec_invite_create S sha parse amb h b V =
     (let il = set_invites S; now = now_unix_secs amb in
      if \<not> auth_ok sha h (set_token S) then refuse 401 ''ERR_UNAUTHORIZED'' V
      else if invite_create_body_cap (max_bundle_bytes il) < length b
      then refuse 413 ''ERR_INVITE_TOO_LARGE'' V
      else
        (let (ok, bkt) = try_consume (invite_bucket_controls il) (mono_ns amb) (srv_create V);
             V1 = V\<lparr>srv_create := bkt\<rparr> in
         if \<not> ok then refuse 429 ''ERR_RATE_LIMITED'' V1
         else case parse b of
                None \<Rightarrow> refuse 400 ''ERR_INVITE_BAD_BODY'' V1
              | Some req \<Rightarrow>
                  (case check_create il now req of
                     Inl (n, code) \<Rightarrow> refuse n code V1
                   | Inr (bun, sg) \<Rightarrow>
                       (let token = random_token_128 (uuid_bytes amb);
                            (out, B) = spec_create (set_ttl S) (route_key_for sha (create_invite_id req))
                              (channel_log_id (create_invite_id req)) (create_cap_hash req)
                              (sha256_hex sha token) bun sg
                              (min (create_expiry req) (i64_sat_add now (usize_as_i64 (max_expiry_secs il))))
                              now (max_slots il) (srv_relay V) in
                        (create_reply token out, V1\<lparr>srv_relay := B\<rparr>)))))"

definition spec_invite_redeem ::
    "settings \<Rightarrow> digest_fun \<Rightarrow> (bytes \<Rightarrow> InviteRedeemReq option) \<Rightarrow> ambient \<Rightarrow> headers \<Rightarrow> bytes \<Rightarrow> service
      \<Rightarrow> response \<times> service" where
  "spec_invite_redeem S sha parse amb h b V =
     (if \<not> auth_ok sha h (set_token S) then refuse 401 ''ERR_UNAUTHORIZED'' V
      else if INVITE_REDEEM_BODY_CAP < length b then refuse 413 ''ERR_TOO_LARGE'' V
      else case parse b of
             None \<Rightarrow> refuse 400 ''ERR_INVITE_BAD_BODY'' V
           | Some req \<Rightarrow>
               if blank (redeem_invite_id req) \<or> blank (redeem_cap req)
               then refuse 400 ''ERR_INVITE_BAD_BODY'' V
               else
                 (let ticket = random_token_128 (uuid_bytes amb);
                      (out, B) = spec_redeem (route_key_for sha (redeem_invite_id req)) (now_unix_secs amb)
                        (sha256_hex sha ticket) (ct_eq_secret sha (sha256_hex sha (redeem_cap req)))
                        (srv_relay V) in
                  (redeem_reply ticket out, V\<lparr>srv_relay := B\<rparr>)))"

definition spec_invite_revoke ::
    "settings \<Rightarrow> digest_fun \<Rightarrow> (bytes \<Rightarrow> InviteRevokeReq option) \<Rightarrow> headers \<Rightarrow> bytes \<Rightarrow> service
      \<Rightarrow> response \<times> service" where
  "spec_invite_revoke S sha parse h b V =
     (if \<not> auth_ok sha h (set_token S) then refuse 401 ''ERR_UNAUTHORIZED'' V
      else if INVITE_REVOKE_BODY_CAP < length b then refuse 413 ''ERR_TOO_LARGE'' V
      else case parse b of
             None \<Rightarrow> refuse 400 ''ERR_INVITE_BAD_BODY'' V
           | Some req \<Rightarrow>
               if blank (revoke_invite_id req) \<or> blank (revoke_token req)
               then refuse 400 ''ERR_INVITE_BAD_BODY'' V
               else
                 (let (out, B) = spec_revoke (route_key_for sha (revoke_invite_id req))
                        (ct_eq_secret sha (sha256_hex sha (revoke_token req))) (srv_relay V) in
                  (revoke_reply out, V\<lparr>srv_relay := B\<rparr>)))"

definition spec_serve :: "settings \<Rightarrow> digest_fun \<Rightarrow> parsers \<Rightarrow> ambient \<Rightarrow> request \<Rightarrow> service \<Rightarrow> response \<times> service" where
  "spec_serve S sha p amb req V =
     (case req of
        PushReq h b \<Rightarrow> spec_push S sha amb h b V
      | PullReq h q \<Rightarrow> spec_pull_message S sha amb h q V
      | AckReq h b \<Rightarrow> spec_ack_messages S sha (parse_ack p) amb h b V
      | CreateReq h b \<Rightarrow> spec_invite_create S sha (parse_create p) amb h b V
      | RedeemReq h b \<Rightarrow> spec_invite_redeem S sha (parse_redeem p) amb h b V
      | RevokeReq h b \<Rightarrow> spec_invite_revoke S sha (parse_revoke p) h b V
      | InfoReq h \<Rightarrow>
          (if \<not> auth_ok sha h (set_token S) then Reply 401 InfoProbe
           else Reply 200 (InfoFull (set_doc S)), V))"

end
