(* ===== verification/Http_Refine.thy ===== *)
theory Http_Refine imports Http_Spec begin

text \<open>
  The handlers refine the specification of the HTTP surface. Handlers are run without their
  logs (\<open>act\<close>) on states in a normal form (\<open>put\<close>): a configuration, the tables, the rate
  buckets and the create bucket. Each step of a handler is then an equation.
\<close>

subsection \<open>Handlers without logs\<close>

definition act :: "'a handler \<Rightarrow> AppState \<Rightarrow> (response + 'a) \<times> AppState" where
  "act m st = (fst (m st), snd (snd (m st)))"

definition act_bind ::
    "(response + 'a) \<times> AppState \<Rightarrow> ('a \<Rightarrow> AppState \<Rightarrow> (response + 'b) \<times> AppState) \<Rightarrow> (response + 'b) \<times> AppState" where
  "act_bind r f = (case r of (Inl x, st) \<Rightarrow> (Inl x, st) | (Inr x, st) \<Rightarrow> f x st)"

lemma act_bind_simps [simp]:
  "act_bind (Inl r, st) f = (Inl r, st)" "act_bind (Inr x, st) f = f x st"
  by (simp_all add: act_bind_def)

lemma act_bind_if [simp]:
  "act_bind (if b then r else r') f = (if b then act_bind r f else act_bind r' f)"
  by simp

lemma act_h_bind: "act (h_bind m f) st = act_bind (act m st) (\<lambda>x. act (f x))"
  by (auto simp: act_def h_bind_def act_bind_def split: prod.split sum.split)

lemma act_if: "act (if b then m else m') st = (if b then act m st else act m' st)"
  by simp

lemma act_basic:
  "act (h_return x) st = (Inr x, st)" "act (h_reply n q) st = (Inl (Reply n q), st)"
  "act (h_info e) st = (Inr (), st)" "act (h_get g) st = (Inr (g st), st)"
  "act (h_guard b n code) st = (if b then (Inl (Reply n (Code code)), st) else (Inr (), st))"
  "act (h_prune stats) st = (Inr (), snd (log_and_prune_sweep stats st))"
  "act (h_drop_bucket k) st = (Inr (), drop_rate_bucket k st)"
  "act (h_auth sha h) st =
     (if auth_ok sha h (relay_token st) then (Inr (), st)
      else (Inl (Reply 401 (Code ''ERR_UNAUTHORIZED'')), st))"
  by (simp_all add: act_def h_run h_guard_def h_prune_def h_drop_bucket_def h_auth_def h_bind_def
      split: prod.split)

lemma act_route_token:
  "act (h_route_token h) st =
     (case resolve_route_token h of Inr channel \<Rightarrow> (Inr channel, st) | Inl code \<Rightarrow> (Inl (Reply 400 (Code code)), st))"
  by (simp add: h_route_token_def act_basic split: sum.split)

lemma act_json:
  "act (h_json parse b code) st =
     (case parse b of Some req \<Rightarrow> (Inr req, st) | None \<Rightarrow> (Inl (Reply 400 (Code code)), st))"
  by (simp add: h_json_def act_basic split: option.split)

lemmas act_simps = act_h_bind act_if act_basic act_route_token act_json

lemma serve_act: "(fst (serve sha p amb req st), snd (snd (serve sha p amb req st))) =
    apfst final (act (app sha p amb req) st)"
  by (auto simp: serve_def act_def split: prod.split sum.split)

subsection \<open>States in normal form\<close>

definition put :: "db \<Rightarrow> (string \<Rightarrow> PushRateBucket option) \<Rightarrow> PushRateBucket \<Rightarrow> AppState \<Rightarrow> AppState" where
  "put d b c st = st\<lparr>store := (store st)\<lparr>conn := Mutex False d\<rparr>, push_rates := Mutex False b,
     invite_create_rate := Mutex False c\<rparr>"

lemma put_simps [simp]:
  "app_limits (put d b c st) = app_limits st" "app_controls (put d b c st) = app_controls st"
  "invite_limits (put d b c st) = invite_limits st" "relay_token (put d b c st) = relay_token st"
  "st_retention_ttl_secs (store (put d b c st)) = st_retention_ttl_secs (store st)"
  "st_pull_lease_secs (store (put d b c st)) = st_pull_lease_secs (store st)"
  "conn (store (put d b c st)) = Mutex False d" "push_rates (put d b c st) = Mutex False b"
  "invite_create_rate (put d b c st) = Mutex False c"
  "(put d b c st)\<lparr>store := (store (put d b c st))\<lparr>conn := Mutex False d'\<rparr>\<rparr> = put d' b c st"
  "(put d b c st)\<lparr>push_rates := Mutex False b'\<rparr> = put d b' c st"
  "(put d b c st)\<lparr>invite_create_rate := Mutex False c'\<rparr> = put d b c' st"
  by (simp_all add: put_def)

lemma service_put [simp]:
  "service_of (put d b c st) = \<lparr>srv_relay = relay_of d, srv_buckets = b, srv_create = c\<rparr>"
  by (simp add: service_of_def)

lemma put_self: "app_ok st \<Longrightarrow> put (tables (store st)) (inner (push_rates st)) (inner (invite_create_rate st)) st = st"
  by (intro AppState.equality Store.equality mutex.expand)
     (simp_all add: put_def app_ok_def store_wf_def)

text \<open>A store call without failures is the operation on the tables.\<close>

lemma act_h_store:
  assumes "f (store (put d b c st)) = store_tx tx [] (store (put d b c st))"
  shows "act (h_store f) (put d b c st) =
    (case run_tx tx [] d of
       (Inr v, d') \<Rightarrow> (Inr v, put d' b c st)
     | (Inl e, d') \<Rightarrow> (Inl (Reply 500 (Code ''ERR_STORE'')), put d' b c st))"
  using assms by (simp add: act_def h_store_def run_store_def store_tx_def split: prod.split sum.split)

lemma prune_put:
  assumes "db_ok d"
  shows "snd (log_and_prune_sweep (sweep_stats ttl now d) (put d' b c st)) =
    put d' (forget (relay_of d) (relay_of (swept ttl now d)) b) c st"
proof -
  have mail: "mail_ok d" "mail_ok (swept ttl now d)" using assms db_ok_swept by (simp_all add: db_ok_def)
  have "foldl (\<lambda>b key. b(key := None)) b (removed_route_keys (sweep_stats ttl now d)) =
      forget (relay_of d) (relay_of (swept ttl now d)) b"
    using removed_keys [OF mail(1)] mail_ok_has_route [OF mail(1)] mail_ok_has_route [OF mail(2)]
    by (auto simp: fun_eq_iff foldl_remove forget_def)
  then show ?thesis
    by (cases "removed_route_keys (sweep_stats ttl now d) = []")
       (simp_all add: log_and_prune_sweep_def update_buckets_def)
qed

lemma drop_bucket_put: "drop_rate_bucket k (put d b c st) = put d (b(k := None)) c st"
  by (simp add: drop_rate_bucket_def update_buckets_def)

subsection \<open>Push\<close>

lemma swept_relay:
  assumes "db_ok d"
  shows "spec_sweep ttl now (relay_of d) = relay_of (swept ttl now d)"
    and "queue (swept ttl now d) k = [] \<longleftrightarrow> \<not> has_route k (swept ttl now d)"
    and "live_boxes (relay_of (swept ttl now d)) = length (routes (swept ttl now d))"
  using db_ok_swept [OF assms, of ttl now]
  by (simp_all add: relay_of_swept [OF assms, symmetric] db_ok_def mail_ok_has_route live_boxes_relay_of)

lemma act_push_status:
  fixes st :: AppState and b :: "string \<Rightarrow> PushRateBucket option" and c :: PushRateBucket
  assumes "db_ok d" and "faults1 amb = []"
  defines "d1 \<equiv> swept (st_retention_ttl_secs (store st)) (now_unix_secs amb) d"
  defines "st1 \<equiv> put d1 (forget (relay_of d) (relay_of d1) b) c st"
  shows "act (push_status amb key lid) (put d b c st) =
    (if has_route key d1 \<and> max_queue_depth (app_limits st) \<le> length (queue d1 key)
     then (Inl (Reply 429 (Code ''ERR_OVERLOADED'')), st1)
     else if \<not> has_route key d1 \<and> max_route_count (app_controls st) \<le> length (routes d1)
     then (Inl (Reply 429 (Code ''ERR_ROUTE_CAP'')), st1) else (Inr (), st1))"
proof -
  have "act (h_store (store_route_status key (now_unix_secs amb) (faults1 amb))) (put d b c st) =
    (Inr \<lparr>route_exists = has_route key d1, depth = length (queue d1 key), live_routes = length (routes d1),
       status_sweep = sweep_stats (st_retention_ttl_secs (store st)) (now_unix_secs amb) d\<rparr>, put d1 b c st)"
    by (subst act_h_store [where tx = "route_status_tx (st_retention_ttl_secs (store st)) key (now_unix_secs amb)"])
       (simp_all add: assms(2) store_route_status_def route_status_run d1_def)
  then show ?thesis
    by (simp add: push_status_def act_simps prune_put [OF assms(1)] st1_def d1_def)
qed

lemma act_push_gate:
  "act (push_gate amb key lid) (put d b c st) =
    (let (ok, bkt) = try_consume (app_controls st) (mono_ns amb)
       (unwrap_or (b key) (bucket_new (mono_ns amb) (app_controls st))) in
     (if ok then Inr () else Inl (Reply 429 (Code ''ERR_RATE_LIMITED'')), put d (b(key \<mapsto> bkt)) c st))"
  by (simp add: act_def push_gate_def Let_def split: prod.split)

lemma act_push_enqueue:
  assumes "faults2 amb = []" and "last_seq d < 2 ^ 63 - 1"
    and "capacity_refusal key (max_queue_depth (app_limits st)) (max_route_count (app_controls st)) d = None"
  shows "act (push_enqueue sha amb h data key lid mid) (put d b c st) =
    (case slot_refusal key (now_unix_secs amb) (push_ticket sha h) d of
       Some r \<Rightarrow> (Inr (SlotRejected r), put d b c st)
     | None \<Rightarrow> (Inr Accepted, put (accepted key lid mid data (now_unix_secs amb) d) b c st))"
  by (simp add: push_enqueue_def act_simps assms(1), subst act_h_store [where
        tx = "enqueue_tx key lid mid data (now_unix_secs amb) (max_queue_depth (app_limits st))
          (max_route_count (app_controls st)) (push_ticket sha h)"])
     (use assms(2,3) in \<open>simp_all add: store_enqueue_def enqueue_run split: option.split\<close>)

lemma relay_of_accepted:
  "relay_of (accepted k lid mid b now d) = spec_accept k mid b now (relay_of d)"
  unfolding spec_accept_def
  by (rule relay_eqI) (simp_all add: queue_accepted find_invite_accepted new_message_def entry_of_def)

lemma refine_push:
  assumes "db_ok d" and "last_seq d < 2 ^ 63 - 1" and "faults1 amb = []" "faults2 amb = []"
  shows "map_prod final service_of (act (push_message sha amb h data) (put d b c st)) =
    spec_push (settings_of st) sha amb h data (service_of (put d b c st))"
proof (cases "resolve_route_token h")
  case (Inr channel)
  let ?k = "route_key_for sha channel" and ?now = "now_unix_secs amb"
  let ?ttl = "st_retention_ttl_secs (store st)"
  let ?d = "swept ?ttl ?now d"
  have room: "last_seq ?d < 2 ^ 63 - 1"
    using assms(2) by (simp add: swept_def drop_expired_invites_def drop_idle_routes_def drop_expired_def)
  have slot: "slot_denial k now t (relay_of ?d) = slot_refusal k now t ?d" for k now t
    by (simp add: slot_denial_def slot_refusal_def)
  note rel = swept_relay [OF assms(1), of ?ttl ?now]
  show ?thesis
    using Inr assms(3,4) room
    by (auto simp: push_message_def push_admit_def act_simps act_push_status [OF assms(1,3)]
        act_push_gate act_push_enqueue spec_push_def spec_routed_def refuse_def settings_of_def
        becomes_def rel slot Let_def capacity_refusal_def push_answer_def relay_of_accepted
        split: prod.split option.split)
qed (simp add: push_message_def push_admit_def act_simps spec_push_def spec_routed_def refuse_def settings_of_def)

subsection \<open>Pull and acknowledgement\<close>

lemma forget_drained:
  assumes "boxes S k = [] \<Longrightarrow> es = []"
  shows "(if boxes S k \<noteq> [] \<and> es = [] then (forget B S b)(k := None) else forget B S b) =
    forget B (S\<lparr>boxes := (boxes S)(k := es)\<rparr>) b \<or> (\<exists>j. boxes S j \<noteq> [] \<and> boxes B j = [])"
  using assms by (auto simp: forget_def fun_eq_iff)

lemma spec_sweep_boxes: "boxes (spec_sweep ttl now B) j \<noteq> [] \<Longrightarrow> boxes B j \<noteq> []"
  by (auto simp: spec_sweep_def)

lemma forget_swept:
  assumes "boxes (spec_sweep ttl now B) k = [] \<Longrightarrow> es = []"
  shows "(if boxes (spec_sweep ttl now B) k \<noteq> [] \<and> es = [] then (forget B (spec_sweep ttl now B) b)(k := None)
      else forget B (spec_sweep ttl now B) b) =
    forget B (spec_sweep ttl now B\<lparr>boxes := (boxes (spec_sweep ttl now B))(k := es)\<rparr>) b"
  using forget_drained [OF assms] spec_sweep_boxes by blast

lemma available_Nil [simp]: "drop_available now n [] = []" "lease_available now t n [] = []"
  by (cases n; simp)+

lemma lease_available_empty [simp]: "lease_available now t n es = [] \<longleftrightarrow> es = []"
  by (induction now t n es rule: lease_available.induct) auto

lemma act_pull_store:
  assumes "db_ok d" and "last_seq d < 2 ^ 63 - 1" and "faults1 amb = []" and "mx < 2 ^ 63"
    and "max_body_bytes (app_limits st) < usize_max"
  obtains out d' where "act (pull_store amb k mx mode) (put d b c st) = (Inr out, put d' b c st)"
    "spec_pull (st_retention_ttl_secs (store st)) (st_pull_lease_secs (store st)) k mx
       (max PULL_BUDGET_BYTES (max_body_bytes (app_limits st))) (now_unix_secs amb) mode (relay_of d) =
       (out\<lparr>pull_sweep := SweepStats_default\<rparr>, relay_of d')"
    "pull_sweep out = sweep_stats (st_retention_ttl_secs (store st)) (now_unix_secs amb) d"
proof -
  let ?ttl = "st_retention_ttl_secs (store st)" and ?ls = "st_pull_lease_secs (store st)"
  let ?mb = "max PULL_BUDGET_BYTES (max_body_bytes (app_limits st))" and ?now = "now_unix_secs amb"
  have "pull_bounds (OpPull k mx ?mb ?now mode)"
    using assms(4,5) by (simp add: pull_bounds_def PULL_BUDGET_BYTES_def FINISH_SCAN_BATCH_def ceiling_defs usize_max_def)
  from refine_op [OF assms(1,2) this, of ?ttl ?ls] obtain out where
    run: "run_op ?ttl ?ls (OpPull k mx ?mb ?now mode) d =
      (Inr out, op_effect ?ttl ?ls (OpPull k mx ?mb ?now mode) d)"
    and spec: "spec_op ?ttl ?ls (OpPull k mx ?mb ?now mode) (relay_of d) =
      (answer out, relay_of (op_effect ?ttl ?ls (OpPull k mx ?mb ?now mode) d))" by blast
  obtain p d' where tx: "run_tx (pull_tx ?ttl ?ls k mx ?mb ?now mode) [] d = (Inr p, d')"
    and out: "out = OutPull p" and d': "op_effect ?ttl ?ls (OpPull k mx ?mb ?now mode) d = d'"
    using run by (cases "run_tx (pull_tx ?ttl ?ls k mx ?mb ?now mode) [] d"; cases "fst (run_tx (pull_tx ?ttl ?ls k mx ?mb ?now mode) [] d)")
      (auto simp: run_op_def op_effect_def out_as_def)
  show thesis
  proof (rule that)
    show "act (pull_store amb k mx mode) (put d b c st) = (Inr p, put d' b c st)"
      unfolding pull_store_def Let_def act_simps act_bind_simps put_simps
      by (subst act_h_store [where tx = "pull_tx ?ttl ?ls k mx ?mb ?now mode"])
         (simp_all add: store_pull_def assms(3) tx)
    show "spec_pull ?ttl ?ls k mx ?mb ?now mode (relay_of d) = (p\<lparr>pull_sweep := SweepStats_default\<rparr>, relay_of d')"
      using spec unfolding out d'
      by (auto simp: spec_op_def answer_def apfst_def map_prod_def split: prod.splits)
    show "pull_sweep p = sweep_stats ?ttl ?now d"
      using tx by (cases mode) (auto simp: pull_legacy_run pull_lease_run Let_def)
  qed
qed

lemma spec_pull_shape:
  assumes "spec_pull ttl ls k mx mb now mode B = (out, B')"
  obtains es where "B' = spec_sweep ttl now B\<lparr>boxes := (boxes (spec_sweep ttl now B))(k := es)\<rparr>"
    "pull_drained out = (boxes (spec_sweep ttl now B) k \<noteq> [] \<and> es = [])"
    "boxes (spec_sweep ttl now B) k = [] \<Longrightarrow> es = []"
  using assms by (cases mode) (auto simp: spec_pull_def Let_def)

lemma act_pull_answer:
  "act (pull_answer_items lid items) s =
     (Inr (if items = [] then Reply 204 NoBody else Reply 200 (PullResp items)), s)"
  by (simp add: act_def pull_answer_items_def)

lemma max_zero: "unwrap_or (query_max q) 1 = 0 \<longleftrightarrow> query_max q = Some 0"
  by (cases "query_max q") auto

lemma pull_forgets:
  assumes "spec_pull ttl ls k mx mb now mode (relay_of d) = (out, relay_of d')"
  shows "service_of (if pull_drained out then put d' ((forget (relay_of d) (spec_sweep ttl now (relay_of d)) b)(k := None)) c st
      else put d' (forget (relay_of d) (spec_sweep ttl now (relay_of d)) b) c st) =
    becomes (relay_of d') (service_of (put d b c st))"
proof -
  let ?S = "spec_sweep ttl now (relay_of d)"
  obtain es where es: "relay_of d' = ?S\<lparr>boxes := (boxes ?S)(k := es)\<rparr>"
    and drained: "pull_drained out = (boxes ?S k \<noteq> [] \<and> es = [])"
    and Nil: "boxes ?S k = [] \<Longrightarrow> es = []"
    by (rule spec_pull_shape [OF assms]) simp
  show ?thesis
    using forget_swept [of ttl now "relay_of d" k es b, OF Nil]
    by (cases "pull_drained out") (auto simp: becomes_def es drained)
qed

lemma refine_pull_refused:
  assumes "resolve_route_token h = Inr channel"
    and "\<not> (auth_ok sha h (relay_token st) \<and> query_max q \<noteq> Some 0 \<and> query_ack q \<in> {None, Some ''lease''})"
  shows "map_prod final service_of (act (pull_message sha amb h q) (put d b c st)) =
    spec_pull_message (settings_of st) sha amb h q (service_of (put d b c st))"
  using assms max_zero [of q]
  by (auto simp: pull_message_def pull_admit_def act_simps spec_pull_message_def spec_routed_def
      refuse_def settings_of_def Let_def split: option.split)

lemma refine_pull_admitted:
  assumes "db_ok d" and "last_seq d < 2 ^ 63 - 1" and "faults1 amb = []" and "limits_wf (app_limits st)"
    and route: "resolve_route_token h = Inr channel"
    and ok: "auth_ok sha h (relay_token st)" "query_max q \<noteq> Some 0" "query_ack q \<in> {None, Some ''lease''}"
  shows "map_prod final service_of (act (pull_message sha amb h q) (put d b c st)) =
    spec_pull_message (settings_of st) sha amb h q (service_of (put d b c st))"
proof -
  define mode where "mode = (if query_ack q = None then Legacy else Lease)"
  define mx where "mx = min (unwrap_or (query_max q) 1) (max_queue_depth (app_limits st))"
  define mb where "mb = max PULL_BUDGET_BYTES (max_body_bytes (app_limits st))"
  let ?k = "route_key_for sha channel" and ?ttl = "st_retention_ttl_secs (store st)"
  let ?now = "now_unix_secs amb" and ?ls = "st_pull_lease_secs (store st)"
  have bounds: "mx < 2 ^ 63" "max_body_bytes (app_limits st) < usize_max"
    using assms(4) by (auto simp: limits_wf_def ceiling_defs usize_max_def mx_def)
  obtain out d' where call: "act (pull_store amb ?k mx mode) (put d b c st) = (Inr out, put d' b c st)"
    and spec: "spec_pull ?ttl ?ls ?k mx mb ?now mode (relay_of d) =
      (out\<lparr>pull_sweep := SweepStats_default\<rparr>, relay_of d')"
    and stats: "pull_sweep out = sweep_stats ?ttl ?now d"
    unfolding mb_def
    by (rule act_pull_store [OF assms(1-3) bounds, where k = ?k and mode = mode and b = b and c = c])
  have admit: "act (pull_admit sha h q) (put d b c st) = (Inr (channel, mx, mode), put d b c st)"
    using ok route max_zero [of q] by (auto simp: pull_admit_def act_simps Let_def mx_def mode_def)
  have "spec_pull_message (settings_of st) sha amb h q (service_of (put d b c st)) =
      (case spec_pull ?ttl ?ls ?k mx mb ?now mode (relay_of d) of (out, B) \<Rightarrow>
         (if pull_items out = [] then Reply 204 NoBody else Reply 200 (PullResp (pull_items out)),
          becomes B (service_of (put d b c st))))"
    using ok route
    by (auto simp: spec_pull_message_def spec_routed_def settings_of_def mx_def mb_def mode_def)
  with pull_forgets [OF spec, of b c st] show ?thesis
    unfolding pull_message_def act_h_bind admit act_bind_simps Let_def prod.case call spec
    by (cases "pull_drained out")
       (simp_all add: act_simps stats prune_put [OF assms(1)] drop_bucket_put relay_of_swept [OF assms(1)]
          act_pull_answer)
qed

lemma refine_pull:
  assumes "db_ok d" and "last_seq d < 2 ^ 63 - 1" and "faults1 amb = []" and "limits_wf (app_limits st)"
  shows "map_prod final service_of (act (pull_message sha amb h q) (put d b c st)) =
    spec_pull_message (settings_of st) sha amb h q (service_of (put d b c st))"
proof (cases "resolve_route_token h")
  case (Inr channel)
  then show ?thesis
    using refine_pull_refused [OF Inr] refine_pull_admitted [OF assms Inr] by blast
qed (simp add: pull_message_def pull_admit_def act_simps spec_pull_message_def spec_routed_def refuse_def settings_of_def)

lemma act_ack_store:
  assumes "db_ok d" and "last_seq d < 2 ^ 63 - 1" and "faults1 amb = []"
  obtains out d' where "act (h_store (store_ack k ids (now_unix_secs amb) (faults1 amb))) (put d b c st) =
      (Inr out, put d' b c st)"
    "spec_ack (st_retention_ttl_secs (store st)) k ids (now_unix_secs amb) (relay_of d) =
      (out\<lparr>ack_sweep := SweepStats_default\<rparr>, relay_of d')"
    "ack_sweep out = sweep_stats (st_retention_ttl_secs (store st)) (now_unix_secs amb) d"
proof -
  let ?ttl = "st_retention_ttl_secs (store st)" and ?now = "now_unix_secs amb"
  let ?op = "OpAck k ids ?now"
  have "pull_bounds ?op" by (simp add: pull_bounds_def)
  from refine_op [OF assms(1,2) this, of ?ttl 0] obtain out where
    run: "run_op ?ttl 0 ?op d = (Inr out, op_effect ?ttl 0 ?op d)"
    and spec: "spec_op ?ttl 0 ?op (relay_of d) = (answer out, relay_of (op_effect ?ttl 0 ?op d))" by blast
  obtain p d' where tx: "run_tx (ack_tx ?ttl k ids ?now) [] d = (Inr p, d')"
    and out: "out = OutAck p" and d': "op_effect ?ttl 0 ?op d = d'"
    using run by (cases "run_tx (ack_tx ?ttl k ids ?now) [] d"; cases "fst (run_tx (ack_tx ?ttl k ids ?now) [] d)")
      (auto simp: run_op_def op_effect_def out_as_def)
  show thesis
  proof (rule that)
    show "act (h_store (store_ack k ids ?now (faults1 amb))) (put d b c st) = (Inr p, put d' b c st)"
      by (subst act_h_store [where tx = "ack_tx ?ttl k ids ?now"]) (simp_all add: store_ack_def assms(3) tx)
    show "spec_ack ?ttl k ids ?now (relay_of d) = (p\<lparr>ack_sweep := SweepStats_default\<rparr>, relay_of d')"
      using spec unfolding out d'
      by (auto simp: spec_op_def answer_def apfst_def map_prod_def split: prod.splits)
    show "ack_sweep p = sweep_stats ?ttl ?now d"
      using tx by (auto simp: ack_run Let_def)
  qed
qed

lemma spec_ack_shape:
  assumes "spec_ack ttl k ids now B = (out, B')"
  obtains es where "B' = spec_sweep ttl now B\<lparr>boxes := (boxes (spec_sweep ttl now B))(k := es)\<rparr>"
    "ack_drained out = (boxes (spec_sweep ttl now B) k \<noteq> [] \<and> es = [])"
    "boxes (spec_sweep ttl now B) k = [] \<Longrightarrow> es = []"
  using assms by (auto simp: spec_ack_def Let_def)

lemma refine_ack:
  assumes "db_ok d" and "last_seq d < 2 ^ 63 - 1" and "faults1 amb = []"
  shows "map_prod final service_of (act (ack_messages sha parse amb h data) (put d b c st)) =
    spec_ack_messages (settings_of st) sha parse amb h data (service_of (put d b c st))"
proof (cases "resolve_route_token h")
  case (Inr channel)
  let ?k = "route_key_for sha channel" and ?ttl = "st_retention_ttl_secs (store st)"
  let ?now = "now_unix_secs amb" and ?S = "spec_sweep ?ttl (now_unix_secs amb) (relay_of d)"
  show ?thesis
  proof (cases "parse data")
    case (Some ids)
    obtain out d' where call: "act (h_store (store_ack ?k ids ?now (faults1 amb))) (put d b c st) =
        (Inr out, put d' b c st)"
      and spec: "spec_ack ?ttl ?k ids ?now (relay_of d) = (out\<lparr>ack_sweep := SweepStats_default\<rparr>, relay_of d')"
      and stats: "ack_sweep out = sweep_stats ?ttl ?now d"
      by (rule act_ack_store [OF assms, where k = ?k and ids = ids and b = b and c = c])
    obtain es where es: "relay_of d' = ?S\<lparr>boxes := (boxes ?S)(?k := es)\<rparr>"
      and drained: "ack_drained out = (boxes ?S ?k \<noteq> [] \<and> es = [])"
      and Nil: "boxes ?S ?k = [] \<Longrightarrow> es = []"
      by (rule spec_ack_shape [OF spec]) simp
    have "service_of (if ack_drained out then put d' ((forget (relay_of d) ?S b)(?k := None)) c st
        else put d' (forget (relay_of d) ?S b) c st) = becomes (relay_of d') (service_of (put d b c st))"
      using forget_swept [of ?ttl ?now "relay_of d" ?k es b, OF Nil]
      by (cases "ack_drained out") (auto simp: becomes_def es drained)
    then show ?thesis
      using Inr Some
      by (cases "ack_drained out")
         (simp_all add: ack_messages_def act_simps call stats prune_put [OF assms(1)] drop_bucket_put
            relay_of_swept [OF assms(1)] Let_def spec_ack_messages_def spec_routed_def refuse_def
            settings_of_def spec)
  qed (simp add: ack_messages_def act_simps spec_ack_messages_def spec_routed_def refuse_def settings_of_def Inr)
qed (simp add: ack_messages_def act_simps spec_ack_messages_def spec_routed_def refuse_def settings_of_def)

subsection \<open>Invites\<close>

lemma act_create_gate:
  "act (create_gate amb) (put d b c st) =
    (let (ok, bkt) = try_consume (invite_bucket_controls (invite_limits st)) (mono_ns amb) c in
     (if ok then Inr () else Inl (Reply 429 (Code ''ERR_RATE_LIMITED'')), put d b bkt st))"
  by (simp add: act_def create_gate_def Let_def split: prod.split)

lemma act_create_validate:
  "act (create_validate amb req) (put d b c st) =
    ((case check_create (invite_limits st) (now_unix_secs amb) req of
        Inl (n, code) \<Rightarrow> Inl (Reply n (Code code))
      | Inr (bun, sg) \<Rightarrow> Inr (bun, sg, min (create_expiry req)
          (i64_sat_add (now_unix_secs amb) (usize_as_i64 (max_expiry_secs (invite_limits st)))))),
     put d b c st)"
  by (auto simp: create_validate_def check_create_def act_simps Let_def split: option.split)

lemma act_create_answer:
  "act (create_answer lid until token cap out) s = (Inr (create_reply token out), s)"
  by (cases out) (simp_all add: create_answer_def create_reply_def act_simps)

lemma refine_invite_create:
  assumes "db_ok d" and "faults1 amb = []"
  shows "map_prod final service_of (act (invite_create sha parse amb h data) (put d b c st)) =
    spec_invite_create (settings_of st) sha parse amb h data (service_of (put d b c st))"
proof -
  let ?ttl = "st_retention_ttl_secs (store st)" and ?now = "now_unix_secs amb"
  have call: "act (h_store (store_invite_create k lid ch rh bun sg until ?now cap (faults1 amb))) (put d b c' st) =
      (case spec_create ?ttl k lid ch rh bun sg until ?now cap (relay_of d) of (out, _) \<Rightarrow> Inr out,
       put (snd (run_tx (invite_create_tx ?ttl k lid ch rh bun sg until ?now cap) [] d)) b c' st)"
    "relay_of (snd (run_tx (invite_create_tx ?ttl k lid ch rh bun sg until ?now cap) [] d)) =
      snd (spec_create ?ttl k lid ch rh bun sg until ?now cap (relay_of d))"
    for k lid ch rh bun sg until cap c'
    by (subst act_h_store [where tx = "invite_create_tx ?ttl k lid ch rh bun sg until ?now cap"])
       (simp_all add: store_invite_create_def assms(2) refine_create [OF assms(1)] invite_create_run Let_def)
  show ?thesis
    by (auto simp: invite_create_def act_simps act_create_gate act_create_validate act_create_answer call
        spec_invite_create_def refuse_def settings_of_def Let_def split: prod.split option.split sum.split)
qed

lemma refine_invite_redeem:
  assumes "db_ok d" and "faults1 amb = []"
  shows "map_prod final service_of (act (invite_redeem sha parse amb h data) (put d b c st)) =
    spec_invite_redeem (settings_of st) sha parse amb h data (service_of (put d b c st))"
proof -
  let ?now = "now_unix_secs amb"
  have dist: "distinct (map slot_key (invites d))" using assms(1) by (simp add: db_ok_def slots_ok_def)
  have call: "act (h_store (store_invite_redeem k ?now th verify (faults1 amb))) (put d b c st) =
      (Inr (fst (spec_redeem k ?now th verify (relay_of d))),
       put (snd (run_tx (invite_redeem_tx k ?now th verify) [] d)) b c st)"
    "relay_of (snd (run_tx (invite_redeem_tx k ?now th verify) [] d)) =
      snd (spec_redeem k ?now th verify (relay_of d))"
    for k th verify
    by (subst act_h_store [where tx = "invite_redeem_tx k ?now th verify"])
       (auto simp: store_invite_redeem_def assms(2) refine_redeem [OF assms(1)] invite_redeem_run [OF dist]
         Let_def split: option.split)
  have log: "act (case out of Redeemed bun sg \<Rightarrow> h_info e | _ \<Rightarrow> h_return ()) s = (Inr (), s)" for out e s
    by (cases out) (simp_all add: act_simps)
  show ?thesis
    by (simp add: invite_redeem_def act_simps call log spec_invite_redeem_def refuse_def settings_of_def Let_def
        split: option.split prod.split)
qed

lemma refine_invite_revoke:
  assumes "faults1 amb = []"
  shows "map_prod final service_of (act (invite_revoke sha parse amb h data) (put d b c st)) =
    spec_invite_revoke (settings_of st) sha parse h data (service_of (put d b c st))"
proof -
  have call: "act (h_store (store_invite_revoke k verify (faults1 amb))) (put d b c st) =
      (Inr (fst (spec_revoke k verify (relay_of d))),
       put (snd (run_tx (invite_revoke_tx k verify) [] d)) b c st)"
    "relay_of (snd (run_tx (invite_revoke_tx k verify) [] d)) = snd (spec_revoke k verify (relay_of d))"
    for k verify
    by (subst act_h_store [where tx = "invite_revoke_tx k verify"])
       (auto simp: store_invite_revoke_def assms refine_revoke invite_revoke_run Let_def split: option.split)
  show ?thesis
    by (simp add: invite_revoke_def act_simps call spec_invite_revoke_def refuse_def settings_of_def Let_def
        split: option.split prod.split)
qed

end
