(* ===== verification/Tenants.thy ===== *)
theory Tenants imports Http_Refine begin

text \<open>
  The relay as a shared service. A tenant is what the relay keeps under one key: a queue, a
  slot and a rate bucket. Serving a request refines the specification of the HTTP surface;
  from the specification follows that a request touches no tenant but its own, except that it
  may expire what is due, and that its reply depends on no other tenant, except for the two
  global caps.
\<close>

subsection \<open>Serving refines the specification\<close>

lemma settings_put [simp]: "settings_of (put d b c st) = settings_of st"
  by (simp add: settings_of_def info_document_def put_def)

lemma serve_spec:
  assumes "app_reachable st" and "last_seq (tables (store st)) < 2 ^ 63 - 1"
    and "faults1 amb = []" and "faults2 amb = []"
  shows "(fst (serve sha p amb req st), service_of (snd (snd (serve sha p amb req st)))) =
    spec_serve (settings_of st) sha p amb req (service_of st)"
proof -
  define d where "d = tables (store st)"
  define b where "b = inner (push_rates st)"
  define c where "c = inner (invite_create_rate st)"
  have st: "put d b c st = st"
    using put_self [OF app_reachable_ok [OF assms(1)]] by (simp add: d_def b_def c_def)
  have ok: "db_ok d" using app_reachable_ok [OF assms(1)] by (simp add: app_ok_def store_wf_def d_def)
  have seq: "last_seq d < 2 ^ 63 - 1" using assms(2) by (simp add: d_def)
  have lim: "limits_wf (app_limits st)" using app_reachable_wf [OF assms(1)] by simp
  note refine = refine_push [OF ok seq assms(3,4), where st = st and b = b and c = c]
    refine_pull [OF ok seq assms(3) lim, where b = b and c = c]
    refine_ack [OF ok seq assms(3), where st = st and b = b and c = c]
    refine_invite_create [OF ok assms(3), where st = st and b = b and c = c]
    refine_invite_redeem [OF ok assms(3), where st = st and b = b and c = c]
    refine_invite_revoke [OF assms(3), where st = st and b = b and c = c and d = d]
  have info: "map_prod final service_of (act (server_info_handler sha h) st) =
      (if \<not> auth_ok sha h (relay_token st) then Reply 401 InfoProbe else Reply 200 (InfoFull (info_document st)),
       service_of st)" for h
    by (simp add: act_def server_info_handler_def)
  have "map_prod final service_of (act (app sha p amb req) st) =
      spec_serve (settings_of st) sha p amb req (service_of st)"
    using refine [unfolded st] info
    by (cases req) (simp_all add: app_def spec_serve_def settings_of_def)
  then show ?thesis
    using serve_act [of sha p amb req st] by (cases "act (app sha p amb req) st") auto
qed

text \<open>
  C2: The handlers refine the specification of the HTTP surface. In every reachable relay,
  a request that meets no SQLite failure is answered exactly as the specification over queues,
  slots and buckets says, on all seven routes and all their branches, and leaves tables and
  buckets that represent the specification's next state.
\<close>

theorem serve_refines_spec:
  assumes "app_reachable st" and "last_seq (tables (store st)) < 2 ^ 63 - 1"
    and "faults1 amb = []" and "faults2 amb = []" and "serve sha p amb req st = (r, l, st')"
  shows "spec_serve (settings_of st) sha p amb req (service_of st) = (r, service_of st')"
  using serve_spec [OF assms(1-4), of sha p req] assms(5) by simp

subsection \<open>Tenants\<close>

record tenant =
  t_box :: "entry list"
  t_slot :: "invite_row option"
  t_bucket :: "PushRateBucket option"

definition tenant_of :: "string \<Rightarrow> service \<Rightarrow> tenant" where
  "tenant_of k V = \<lparr>t_box = boxes (srv_relay V) k, t_slot = slots (srv_relay V) k, t_bucket = srv_buckets V k\<rparr>"

text \<open>What the passing of time does to a tenant, once a sweep looks.\<close>

definition aged :: "int \<Rightarrow> int \<Rightarrow> tenant \<Rightarrow> tenant" where
  "aged ttl now t =
     (let es = filter (\<lambda>e. \<not> e_expired ttl now e) (t_box t) in
      \<lparr>t_box = es,
       t_slot = (case t_slot t of None \<Rightarrow> None | Some i \<Rightarrow> if expiry i \<le> now then None else Some i),
       t_bucket = (if t_box t \<noteq> [] \<and> es = [] then None else t_bucket t)\<rparr>)"

text \<open>The key a request addresses: the digest of its route token or of its invite identifier.\<close>

definition token_key :: "digest_fun \<Rightarrow> headers \<Rightarrow> string option" where
  "token_key sha h = (case resolve_route_token h of Inl _ \<Rightarrow> None | Inr channel \<Rightarrow> Some (route_key_for sha channel))"

definition request_key :: "digest_fun \<Rightarrow> parsers \<Rightarrow> request \<Rightarrow> string option" where
  "request_key sha p req =
     (case req of
        PushReq h b \<Rightarrow> token_key sha h
      | PullReq h q \<Rightarrow> token_key sha h
      | AckReq h b \<Rightarrow> token_key sha h
      | CreateReq h b \<Rightarrow> map_option (\<lambda>r. route_key_for sha (create_invite_id r)) (parse_create p b)
      | RedeemReq h b \<Rightarrow> map_option (\<lambda>r. route_key_for sha (redeem_invite_id r)) (parse_redeem p b)
      | RevokeReq h b \<Rightarrow> map_option (\<lambda>r. route_key_for sha (revoke_invite_id r)) (parse_revoke p b)
      | InfoReq h \<Rightarrow> None)"

text \<open>What of the other tenants a push and a create may depend on: how many there are.\<close>

definition gauges :: "settings \<Rightarrow> ambient \<Rightarrow> request \<Rightarrow> service \<Rightarrow> nat \<times> PushRateBucket option" where
  "gauges S amb req V =
     (let B = spec_sweep (set_ttl S) (now_unix_secs amb) (srv_relay V) in
      case req of
        PushReq _ _ \<Rightarrow> (live_boxes B, None)
      | CreateReq _ _ \<Rightarrow> (live_slots B, Some (srv_create V))
      | _ \<Rightarrow> (0, None))"

lemma tenant_of_becomes_sweep:
  "tenant_of j (becomes (spec_sweep ttl now (srv_relay V)) V) = aged ttl now (tenant_of j V)"
  by (simp add: tenant_of_def becomes_def aged_def forget_def spec_sweep_def Let_def)

subsection \<open>Isolation\<close>

text \<open>A request changes another tenant at most by the passing of time.\<close>

definition only_ages :: "int \<Rightarrow> int \<Rightarrow> string \<Rightarrow> service \<Rightarrow> service \<Rightarrow> bool" where
  "only_ages ttl now j V V' \<longleftrightarrow>
     tenant_of j V' = tenant_of j V \<or> tenant_of j V' = aged ttl now (tenant_of j V) \<or>
     tenant_of j V' = (aged ttl now (tenant_of j V))\<lparr>t_bucket := srv_buckets V j\<rparr>"

lemma only_ages_same [simp]: "only_ages ttl now j V V"
  by (simp add: only_ages_def)

lemma tenant_of_upd [simp]:
  "tenant_of j (V\<lparr>srv_create := c\<rparr>) = tenant_of j V"
  "tenant_of j (V\<lparr>srv_buckets := b\<rparr>) = (tenant_of j V)\<lparr>t_bucket := b j\<rparr>"
  by (simp_all add: tenant_of_def)

lemma only_ages_sweep [simp]:
  "only_ages ttl now j V (becomes (spec_sweep ttl now (srv_relay V)) V)"
  by (simp add: only_ages_def tenant_of_becomes_sweep)

lemma tenant_of_becomes_box:
  "j \<noteq> k \<Longrightarrow> tenant_of j (becomes (B\<lparr>boxes := (boxes B)(k := es)\<rparr>) V) = tenant_of j (becomes B V)"
  by (simp add: tenant_of_def becomes_def forget_def)

lemma only_ages_trans:
  "only_ages ttl now j V V' \<Longrightarrow> tenant_of j V'' = tenant_of j V' \<Longrightarrow> only_ages ttl now j V V''"
  by (simp add: only_ages_def)

lemma isolated_push:
  assumes "token_key sha h \<noteq> Some j"
  shows "only_ages (set_ttl S) (now_unix_secs amb) j V (snd (spec_push S sha amb h b V))"
proof (cases "resolve_route_token h")
  case (Inr channel)
  then have k: "j \<noteq> route_key_for sha channel" using assms by (auto simp: token_key_def)
  let ?V1 = "becomes (spec_sweep (set_ttl S) (now_unix_secs amb) (srv_relay V)) V"
  have "tenant_of j (?V1\<lparr>srv_buckets := (srv_buckets ?V1)(route_key_for sha channel \<mapsto> bkt)\<rparr>) = tenant_of j ?V1"
    "tenant_of j (?V1\<lparr>srv_buckets := (srv_buckets ?V1)(route_key_for sha channel \<mapsto> bkt),
       srv_relay := spec_accept (route_key_for sha channel) mid b now
         (spec_sweep (set_ttl S) (now_unix_secs amb) (srv_relay V))\<rparr>) = tenant_of j ?V1" for bkt mid now
    using k by (simp_all add: tenant_of_def becomes_def spec_accept_def)
  note quiet = this [THEN only_ages_trans [OF only_ages_sweep]]
  show ?thesis
    by (simp add: spec_push_def spec_routed_def Inr refuse_def Let_def quiet split: prod.split option.split)
qed (simp add: spec_push_def spec_routed_def refuse_def)

lemma isolated_box:
  assumes "j \<noteq> k" and "B = spec_sweep ttl now (srv_relay V)\<lparr>boxes := (boxes (spec_sweep ttl now (srv_relay V)))(k := es)\<rparr>"
  shows "only_ages ttl now j V (becomes B V)"
  unfolding assms(2) by (rule only_ages_trans [OF only_ages_sweep tenant_of_becomes_box [OF assms(1)]])

lemma isolated_pull:
  assumes "token_key sha h \<noteq> Some j"
  shows "only_ages (set_ttl S) (now_unix_secs amb) j V (snd (spec_pull_message S sha amb h q V))"
proof (cases "resolve_route_token h")
  case (Inr channel)
  then have k: "j \<noteq> route_key_for sha channel" using assms by (auto simp: token_key_def)
  have "only_ages (set_ttl S) (now_unix_secs amb) j V (becomes B V)"
    if "spec_pull (set_ttl S) ls (route_key_for sha channel) mx mb (now_unix_secs amb) mode (srv_relay V) = (out, B)"
    for ls mx mb mode out B
    using spec_pull_shape [OF that] isolated_box [OF k] by metis
  then show ?thesis
    by (simp add: spec_pull_message_def spec_routed_def Inr refuse_def split: prod.split)
qed (simp add: spec_pull_message_def spec_routed_def refuse_def)

lemma isolated_ack:
  assumes "token_key sha h \<noteq> Some j"
  shows "only_ages (set_ttl S) (now_unix_secs amb) j V (snd (spec_ack_messages S sha parse amb h b V))"
proof (cases "resolve_route_token h")
  case (Inr channel)
  then have k: "j \<noteq> route_key_for sha channel" using assms by (auto simp: token_key_def)
  have "only_ages (set_ttl S) (now_unix_secs amb) j V (becomes B V)"
    if "spec_ack (set_ttl S) (route_key_for sha channel) ids (now_unix_secs amb) (srv_relay V) = (out, B)"
    for ids out B
    using spec_ack_shape [OF that] isolated_box [OF k] by metis
  then show ?thesis
    by (simp add: spec_ack_messages_def spec_routed_def Inr refuse_def split: prod.split option.split)
qed (simp add: spec_ack_messages_def spec_routed_def refuse_def)

lemma isolated_create:
  assumes "map_option (\<lambda>r. route_key_for sha (create_invite_id r)) (parse b) \<noteq> Some j"
  shows "only_ages (set_ttl S) (now_unix_secs amb) j V (snd (spec_invite_create S sha parse amb h b V))"
proof -
  have "only_ages (set_ttl S) (now_unix_secs amb) j V (V\<lparr>srv_create := bkt, srv_relay := B\<rparr>)"
    if "spec_create (set_ttl S) (route_key_for sha (create_invite_id req)) lid ch rh bun sg until
        (now_unix_secs amb) cap (srv_relay V) = (out, B)" and "parse b = Some req"
    for req lid ch rh bun sg until cap out B bkt
    using assms that
    by (simp add: spec_create_def only_ages_def tenant_of_def aged_def spec_sweep_def Let_def split: if_splits)
       auto
  then show ?thesis
    by (auto simp: spec_invite_create_def refuse_def Let_def only_ages_def split: prod.split option.split sum.split)
qed

lemma isolated_slots:
  assumes "j \<noteq> k"
  shows "only_ages ttl now j V (V\<lparr>srv_relay := snd (spec_redeem k now' th verify (srv_relay V))\<rparr>)"
    and "only_ages ttl now j V (V\<lparr>srv_relay := snd (spec_revoke k verify (srv_relay V))\<rparr>)"
  using assms
  by (auto simp: spec_redeem_def spec_revoke_def only_ages_def tenant_of_def split: option.split)

lemma isolated_serve:
  assumes "request_key sha p req \<noteq> Some j"
  shows "only_ages (set_ttl S) (now_unix_secs amb) j V (snd (spec_serve S sha p amb req V))"
proof (cases req)
  case (RedeemReq h b)
  then show ?thesis
    using assms isolated_slots(1)
    by (auto simp: request_key_def spec_serve_def spec_invite_redeem_def refuse_def Let_def case_prod_beta
        split: option.split)
next
  case (RevokeReq h b)
  then show ?thesis
    using assms isolated_slots(2)
    by (auto simp: request_key_def spec_serve_def spec_invite_revoke_def refuse_def Let_def case_prod_beta
        split: option.split)
qed (use assms in \<open>simp_all add: request_key_def spec_serve_def isolated_push isolated_pull isolated_ack isolated_create\<close>)

text \<open>
  C13: Tenants are isolated. A request under one key changes nothing under another key but by
  the passing of time: the other queue, slot and rate bucket stay as they are, or lose exactly
  the messages and the slot that are due at the time of the request (and the bucket of an
  emptied queue). No message of another route is ever delivered, leased, acknowledged or
  reordered, no slot consumed or revoked, and no rate token spent.
\<close>

theorem tenants_isolated:
  assumes "app_reachable st" and "last_seq (tables (store st)) < 2 ^ 63 - 1"
    and "faults1 amb = []" and "faults2 amb = []" and "serve sha p amb req st = (r, l, st')"
    and "request_key sha p req \<noteq> Some j"
  defines "now \<equiv> now_unix_secs amb" and "t \<equiv> tenant_of j (service_of st)"
  shows "tenant_of j (service_of st') \<in>
    {t, aged (st_retention_ttl_secs (store st)) now t,
     (aged (st_retention_ttl_secs (store st)) now t)\<lparr>t_bucket := t_bucket t\<rparr>}"
proof -
  have "snd (spec_serve (settings_of st) sha p amb req (service_of st)) = service_of st'"
    using serve_spec [OF assms(1-4), of sha p req] assms(5) by (metis prod.sel)
  with isolated_serve [OF assms(6), of "settings_of st" amb "service_of st"] show ?thesis
    by (simp add: only_ages_def settings_of_def now_def t_def) (simp add: tenant_of_def)
qed

subsection \<open>Invisibility\<close>

lemma tenant_of_eq:
  "tenant_of k V = tenant_of k W \<longleftrightarrow>
   boxes (srv_relay V) k = boxes (srv_relay W) k \<and> slots (srv_relay V) k = slots (srv_relay W) k \<and>
   srv_buckets V k = srv_buckets W k"
  by (simp add: tenant_of_def)

lemma own_push:
  assumes "tenant_of k V = tenant_of k W" and "token_key sha h = Some k"
    and "live_boxes (spec_sweep (set_ttl S) (now_unix_secs amb) (srv_relay V)) =
      live_boxes (spec_sweep (set_ttl S) (now_unix_secs amb) (srv_relay W))"
  shows "fst (spec_push S sha amb h b V) = fst (spec_push S sha amb h b W) \<and>
    tenant_of k (snd (spec_push S sha amb h b V)) = tenant_of k (snd (spec_push S sha amb h b W))"
proof -
  obtain channel where k: "resolve_route_token h = Inr channel" "k = route_key_for sha channel"
    using assms(2) by (auto simp: token_key_def split: sum.splits)
  let ?B = "spec_sweep (set_ttl S) (now_unix_secs amb) (srv_relay V)"
  let ?C = "spec_sweep (set_ttl S) (now_unix_secs amb) (srv_relay W)"
  have "tenant_of k (becomes ?B V) = tenant_of k (becomes ?C W)"
    using assms(1) by (simp add: tenant_of_becomes_sweep)
  then have same: "boxes ?B k = boxes ?C k" "slots ?B k = slots ?C k"
    "srv_buckets (becomes ?B V) k = srv_buckets (becomes ?C W) k"
    by (simp_all add: tenant_of_def becomes_def)
  have relay: "srv_relay (becomes ?B V) = ?B" "srv_relay (becomes ?C W) = ?C"
    by (simp_all add: becomes_def)
  note same = same [unfolded k(2)]
  show ?thesis
    using assms(1) unfolding tenant_of_eq
    by (simp add: spec_push_def spec_routed_def k refuse_def Let_def relay same assms(3)
        spec_accept_def slot_denial_def case_prod_beta split: option.split)
qed

lemma own_pull:
  assumes "tenant_of k V = tenant_of k W" and "token_key sha h = Some k"
  shows "fst (spec_pull_message S sha amb h q V) = fst (spec_pull_message S sha amb h q W) \<and>
    tenant_of k (snd (spec_pull_message S sha amb h q V)) = tenant_of k (snd (spec_pull_message S sha amb h q W))"
proof -
  obtain channel where k: "resolve_route_token h = Inr channel" "k = route_key_for sha channel"
    using assms(2) by (auto simp: token_key_def split: sum.splits)
  show ?thesis
    using assms(1) unfolding tenant_of_eq
    by (simp add: spec_pull_message_def spec_routed_def k refuse_def Let_def becomes_def forget_def
        spec_pull_def spec_sweep_def)
qed

lemma own_ack:
  assumes "tenant_of k V = tenant_of k W" and "token_key sha h = Some k"
  shows "fst (spec_ack_messages S sha parse amb h b V) = fst (spec_ack_messages S sha parse amb h b W) \<and>
    tenant_of k (snd (spec_ack_messages S sha parse amb h b V)) =
    tenant_of k (snd (spec_ack_messages S sha parse amb h b W))"
proof -
  obtain channel where k: "resolve_route_token h = Inr channel" "k = route_key_for sha channel"
    using assms(2) by (auto simp: token_key_def split: sum.splits)
  show ?thesis
    using assms(1) unfolding tenant_of_eq
    by (simp add: spec_ack_messages_def spec_routed_def k refuse_def Let_def becomes_def forget_def
        spec_ack_def spec_sweep_def split: option.split)
qed

lemma own_create:
  assumes "tenant_of k V = tenant_of k W" and "parse b = Some req" and "k = route_key_for sha (create_invite_id req)"
    and "live_slots (spec_sweep (set_ttl S) (now_unix_secs amb) (srv_relay V)) =
      live_slots (spec_sweep (set_ttl S) (now_unix_secs amb) (srv_relay W))"
    and "srv_create V = srv_create W"
  shows "fst (spec_invite_create S sha parse amb h b V) = fst (spec_invite_create S sha parse amb h b W) \<and>
    tenant_of k (snd (spec_invite_create S sha parse amb h b V)) =
    tenant_of k (snd (spec_invite_create S sha parse amb h b W))"
  using assms unfolding tenant_of_eq
  by (simp add: spec_invite_create_def spec_create_def refuse_def Let_def spec_sweep_def case_prod_beta
      split: sum.split)

lemma own_slots:
  assumes "tenant_of k V = tenant_of k W"
  shows "fst (spec_redeem k now th verify (srv_relay V)) = fst (spec_redeem k now th verify (srv_relay W)) \<and>
      tenant_of k (V\<lparr>srv_relay := snd (spec_redeem k now th verify (srv_relay V))\<rparr>) =
      tenant_of k (W\<lparr>srv_relay := snd (spec_redeem k now th verify (srv_relay W))\<rparr>)"
    and "fst (spec_revoke k verify (srv_relay V)) = fst (spec_revoke k verify (srv_relay W)) \<and>
      tenant_of k (V\<lparr>srv_relay := snd (spec_revoke k verify (srv_relay V))\<rparr>) =
      tenant_of k (W\<lparr>srv_relay := snd (spec_revoke k verify (srv_relay W))\<rparr>)"
  using assms unfolding tenant_of_eq
  by (auto simp: spec_redeem_def spec_revoke_def split: option.split)

lemma own_serve:
  assumes "tenant_of k V = tenant_of k W" and "request_key sha p req = Some k"
    and "gauges S amb req V = gauges S amb req W"
  shows "fst (spec_serve S sha p amb req V) = fst (spec_serve S sha p amb req W) \<and>
    tenant_of k (snd (spec_serve S sha p amb req V)) = tenant_of k (snd (spec_serve S sha p amb req W))"
proof (cases req)
  case (PushReq h b)
  then show ?thesis using assms own_push [OF assms(1), of sha h S amb b] by (simp add: spec_serve_def request_key_def gauges_def Let_def)
next
  case (PullReq h q)
  then show ?thesis using assms own_pull [OF assms(1), of sha h S amb q] by (simp add: spec_serve_def request_key_def)
next
  case (AckReq h b)
  then show ?thesis using assms own_ack [OF assms(1), of sha h S "parse_ack p" amb b] by (simp add: spec_serve_def request_key_def)
next
  case (CreateReq h b)
  then show ?thesis
    using assms own_create [OF assms(1), of "parse_create p" b]
    by (auto simp: spec_serve_def request_key_def gauges_def Let_def)
next
  case (RedeemReq h b)
  then show ?thesis
    using assms own_slots(1) [OF assms(1)]
    by (auto simp: spec_serve_def request_key_def spec_invite_redeem_def refuse_def Let_def case_prod_beta)
next
  case (RevokeReq h b)
  then show ?thesis
    using assms own_slots(2) [OF assms(1)]
    by (auto simp: spec_serve_def request_key_def spec_invite_revoke_def refuse_def Let_def case_prod_beta)
next
  case (InfoReq h)
  then show ?thesis using assms by (simp add: request_key_def)
qed

text \<open>
  C14: Tenants are invisible to each other. Two relays with the same settings that hold the same
  under one key give a request under that key the same reply and hold the same under it
  afterwards, whatever they hold under other keys; a push may in addition depend on how many
  routes are live, a create on how many slots are and on the create bucket.
\<close>

theorem tenants_invisible:
  assumes "app_reachable st1" and "app_reachable st2" and "settings_of st1 = settings_of st2"
    and "last_seq (tables (store st1)) < 2 ^ 63 - 1" and "last_seq (tables (store st2)) < 2 ^ 63 - 1"
    and "faults1 amb = []" and "faults2 amb = []" and "request_key sha p req = Some k"
    and "tenant_of k (service_of st1) = tenant_of k (service_of st2)"
    and "gauges (settings_of st1) amb req (service_of st1) = gauges (settings_of st2) amb req (service_of st2)"
    and "serve sha p amb req st1 = (r1, l1, st1')" and "serve sha p amb req st2 = (r2, l2, st2')"
  shows "r1 = r2 \<and> tenant_of k (service_of st1') = tenant_of k (service_of st2')"
proof -
  have spec: "spec_serve (settings_of st1) sha p amb req (service_of st1) = (r1, service_of st1')"
    "spec_serve (settings_of st1) sha p amb req (service_of st2) = (r2, service_of st2')"
    using serve_spec [OF assms(1,4,6,7), of sha p req] serve_spec [OF assms(2,5,6,7), of sha p req]
      assms(3,11,12) by simp_all
  from own_serve [OF assms(9,8) assms(10) [folded assms(3)]] show ?thesis by (simp only: spec prod.sel)
qed

end
