(* ===== verification/Contract.thy ===== *)
theory Contract imports Http_Refine begin

text \<open>
  The contract of replies, as a typing of the handlers: per route, the statuses with their
  error codes and the one body of a success. The judgement \<open>replies\<close> is derived by one rule
  per construct of the handler monad.
\<close>

subsection \<open>The table of replies\<close>

definition internal_errors :: "(nat \<times> string) list" where
  "internal_errors = [(500, ''ERR_STORE''), (500, ''ERR_LOCK_POISON'')]"

definition routed_errors :: "(nat \<times> string) list" where
  "routed_errors = [(401, ''ERR_UNAUTHORIZED''), (400, ''ERR_MISSING_ROUTE_TOKEN''), (400, ''ERR_BAD_ROUTE_TOKEN'')]"

definition error_table :: "request \<Rightarrow> (nat \<times> string) list" where
  "error_table req =
    (case req of
       PushReq _ _ \<Rightarrow> routed_errors @ internal_errors @
         [(400, ''ERR_EMPTY_BODY''), (413, ''ERR_TOO_LARGE''), (429, ''ERR_OVERLOADED''),
          (429, ''ERR_ROUTE_CAP''), (429, ''ERR_RATE_LIMITED''), (410, ''ERR_INVITE_EXPIRED''),
          (410, ''ERR_INVITE_REVOKED''), (403, ''ERR_INVITE_TICKET_INVALID'')]
     | PullReq _ _ \<Rightarrow> routed_errors @ internal_errors @ [(400, ''ERR_BAD_MAX''), (400, ''ERR_BAD_ACK_MODE'')]
     | AckReq _ _ \<Rightarrow> routed_errors @ internal_errors @
         [(413, ''ERR_TOO_LARGE''), (400, ''ERR_BAD_ACK_BODY''), (400, ''ERR_BAD_ACK_IDS'')]
     | CreateReq _ _ \<Rightarrow> (401, ''ERR_UNAUTHORIZED'') # internal_errors @
         [(413, ''ERR_INVITE_TOO_LARGE''), (429, ''ERR_RATE_LIMITED''), (400, ''ERR_INVITE_BAD_BODY''),
          (400, ''ERR_INVITE_EXPIRED''), (409, ''ERR_INVITE_DUPLICATE''), (429, ''ERR_INVITE_CAP_FULL'')]
     | RedeemReq _ _ \<Rightarrow> (401, ''ERR_UNAUTHORIZED'') # internal_errors @
         [(413, ''ERR_TOO_LARGE''), (400, ''ERR_INVITE_BAD_BODY''), (404, ''ERR_INVITE_NOT_FOUND''),
          (410, ''ERR_INVITE_REVOKED''), (410, ''ERR_INVITE_EXPIRED''), (409, ''ERR_INVITE_ALREADY_USED''),
          (403, ''ERR_INVITE_CAP_INVALID'')]
     | RevokeReq _ _ \<Rightarrow> (401, ''ERR_UNAUTHORIZED'') # internal_errors @
         [(413, ''ERR_TOO_LARGE''), (400, ''ERR_INVITE_BAD_BODY''), (404, ''ERR_INVITE_NOT_FOUND''),
          (403, ''ERR_INVITE_REVOKE_INVALID'')]
     | InfoReq _ \<Rightarrow> [])"

definition conforms :: "request \<Rightarrow> response \<Rightarrow> bool" where
  "conforms req r =
    (case reply_payload r of
       Code code \<Rightarrow> (reply_status r, code) \<in> set (error_table req)
     | NoBody \<Rightarrow> reply_status r = 204 \<and> (case req of PullReq _ _ \<Rightarrow> True | _ \<Rightarrow> False)
     | PullResp items \<Rightarrow> reply_status r = 200 \<and> items \<noteq> [] \<and> (case req of PullReq _ _ \<Rightarrow> True | _ \<Rightarrow> False)
     | PostResp _ \<Rightarrow> reply_status r = 200 \<and> (case req of PushReq _ _ \<Rightarrow> True | _ \<Rightarrow> False)
     | AckResp _ \<Rightarrow> reply_status r = 200 \<and> (case req of AckReq _ _ \<Rightarrow> True | _ \<Rightarrow> False)
     | InviteCreateResp _ \<Rightarrow> reply_status r = 200 \<and> (case req of CreateReq _ _ \<Rightarrow> True | _ \<Rightarrow> False)
     | InviteRedeemResp _ _ _ \<Rightarrow> reply_status r = 200 \<and> (case req of RedeemReq _ _ \<Rightarrow> True | _ \<Rightarrow> False)
     | InviteRevokeResp done' \<Rightarrow> reply_status r = 200 \<and> done' \<and> (case req of RevokeReq _ _ \<Rightarrow> True | _ \<Rightarrow> False)
     | InfoProbe \<Rightarrow> reply_status r = 401 \<and> (case req of InfoReq _ \<Rightarrow> True | _ \<Rightarrow> False)
     | InfoFull _ \<Rightarrow> reply_status r = 200 \<and> (case req of InfoReq _ \<Rightarrow> True | _ \<Rightarrow> False))"

lemmas contract_defs = conforms_def error_table_def routed_errors_def internal_errors_def

subsection \<open>Typing rules\<close>

definition replies :: "(response \<Rightarrow> bool) \<Rightarrow> response handler \<Rightarrow> bool" where
  "replies P m \<longleftrightarrow> (\<forall>st. P (final (fst (m st))))"

named_theorems reply_rules

lemma replies_bind [reply_rules]:
  assumes "early P m" and "\<And>x. replies P (f x)"
  shows "replies P (h_bind m f)"
  unfolding replies_def
proof
  fix st
  obtain r l s where m: "m st = (r, l, s)" by (cases "m st")
  show "P (final (fst (h_bind m f st)))"
  proof (cases r)
    case (Inl e)
    have "case fst (m st) of Inl r \<Rightarrow> P r | Inr x \<Rightarrow> True" using assms(1) by (simp add: early_def)
    then show ?thesis by (simp add: h_bind_def m Inl)
  next
    case (Inr x)
    have "P (final (fst (f x s)))" using assms(2) by (simp add: replies_def)
    then show ?thesis by (cases "f x s") (simp add: h_bind_def m Inr)
  qed
qed

lemma replies_basic [reply_rules]:
  "P r \<Longrightarrow> replies P (h_return r)" "P (Reply n q) \<Longrightarrow> replies P (h_reply n q)"
  "replies P m \<Longrightarrow> replies P m' \<Longrightarrow> replies P (if b then m else m')"
  by (simp_all add: replies_def h_run)

lemma early_if [early_rules]: "early P m \<Longrightarrow> early P m' \<Longrightarrow> early P (if b then m else m')"
  by simp

lemma early_json [early_rules]: "P (Reply 400 (Code code)) \<Longrightarrow> early P (h_json parse b code)"
  by (cases "parse b") (auto simp: h_json_def intro: early_rules)

lemma early_create_gate [early_rules]:
  "P (Reply 500 (Code ''ERR_LOCK_POISON'')) \<Longrightarrow> P (Reply 429 (Code ''ERR_RATE_LIMITED'')) \<Longrightarrow>
   early P (create_gate amb)"
  by (auto simp: early_def create_gate_def Let_def split: option.split prod.split)

lemma early_auth [early_rules]: "P (Reply 401 (Code ''ERR_UNAUTHORIZED'')) \<Longrightarrow> early P (h_auth sha h)"
  unfolding h_auth_def by (intro early_rules)

lemma early_route_token [early_rules]:
  "P (Reply 400 (Code ''ERR_MISSING_ROUTE_TOKEN'')) \<Longrightarrow> P (Reply 400 (Code ''ERR_BAD_ROUTE_TOKEN'')) \<Longrightarrow>
   early P (h_route_token h)"
  using resolve_route_token_error [of h] unfolding h_route_token_def
  by (cases "resolve_route_token h") (auto intro: early_rules)

lemma early_case_redeem [early_rules]:
  "early P (case out of Redeemed bun sg \<Rightarrow> h_info e | _ \<Rightarrow> h_return ())"
  by (cases out) (auto intro: early_rules)

text \<open>The handlers, route by route.\<close>

lemma replies_push: "replies (conforms (PushReq h b)) (push_message sha amb h b)"
proof -
  let ?P = "conforms (PushReq h b)"
  have gate: "early ?P (push_gate amb key lid)" for key lid
    by (rule early_parts; simp add: contract_defs)
  have answer: "replies ?P (push_answer key lid mid n out)" for key lid mid n out
    unfolding push_answer_def
    by (cases out) (auto intro!: reply_rules early_rules simp: contract_defs slot_reply_def split: SlotReject.split)
  show ?thesis
    unfolding push_message_def push_admit_def push_status_def push_enqueue_def Let_def
    by (intro reply_rules early_rules gate answer) (simp_all add: contract_defs)
qed

lemma replies_pull: "replies (conforms (PullReq h q)) (pull_message sha amb h q)"
proof -
  let ?P = "conforms (PullReq h q)"
  have answer: "replies ?P (pull_answer_items lid items)" for lid items
    by (simp add: replies_def pull_answer_items_def contract_defs)
  have admit: "early ?P (pull_admit sha h q)"
    unfolding pull_admit_def Let_def
    by (cases "query_ack q") (auto intro!: early_rules simp: contract_defs)
  show ?thesis
    unfolding pull_message_def pull_store_def Let_def
    by (auto intro!: reply_rules early_rules admit answer simp: contract_defs split: prod.split)
qed

lemma replies_ack: "replies (conforms (AckReq h b)) (ack_messages sha parse amb h b)"
proof -
  show ?thesis
    unfolding ack_messages_def Let_def
    by (intro reply_rules early_rules) (simp_all add: contract_defs)
qed

lemma replies_create: "replies (conforms (CreateReq h b)) (invite_create sha parse amb h b)"
proof -
  let ?P = "conforms (CreateReq h b)"
  have valid: "early ?P (create_validate amb req)" for req
    unfolding create_validate_def Let_def
    by (cases "b64_decode (create_bundle_b64 req)"; cases "b64_decode (create_sig_b64 req)")
       (auto intro!: early_rules simp: contract_defs)
  have answer: "replies ?P (create_answer lid until token m out)" for lid until token m out
    unfolding create_answer_def by (cases out) (auto intro!: reply_rules early_rules simp: contract_defs)
  show ?thesis
    unfolding invite_create_def Let_def
    by (auto intro!: reply_rules early_rules valid answer simp: contract_defs split: prod.split)
qed

lemma replies_redeem: "replies (conforms (RedeemReq h b)) (invite_redeem sha parse amb h b)"
proof -
  let ?P = "conforms (RedeemReq h b)"
  have answer: "?P (redeem_reply ticket out)" for ticket out
    by (cases out) (simp_all add: redeem_reply_def contract_defs)
  show ?thesis
    unfolding invite_redeem_def Let_def
    by (intro reply_rules early_rules answer) (simp_all add: contract_defs)
qed

lemma replies_revoke: "replies (conforms (RevokeReq h b)) (invite_revoke sha parse amb h b)"
proof -
  let ?P = "conforms (RevokeReq h b)"
  have answer: "?P (revoke_reply out)" for out
    by (cases out) (simp_all add: revoke_reply_def contract_defs)
  show ?thesis
    unfolding invite_revoke_def Let_def
    by (intro reply_rules early_rules answer) (simp_all add: contract_defs)
qed

lemma replies_info: "replies (conforms (InfoReq h)) (server_info_handler sha h)"
  by (simp add: replies_def server_info_handler_def contract_defs)

text \<open>
  Replies are well typed. Whatever the request, the state, the clock and the failures, a
  route answers only with the statuses and error codes of its table, and a success has the
  body of its route: an identifier, a nonempty list of messages or 204, a count, a token, the
  two blobs with a ticket, the confirmation of a revoke, or the capability document.
\<close>

lemma reply_contract: "conforms req (fst (serve sha p amb req st))"
  using replies_push replies_pull replies_ack replies_create replies_redeem replies_revoke replies_info
  by (cases req) (simp_all add: app_def serve_final replies_def)

end
