(* ===== verification/Log_Trail.thy ===== *)
theory Log_Trail imports Contract begin

text \<open>
  The log as an audit trail. Every request leaves, besides the retention events of its sweep,
  exactly the events that its reply determines, and every channel that a log line names is a
  redacted identifier, the hash of a route token or an invite identifier, never the secret.
\<close>

subsection \<open>What a reply says about the log\<close>

definition outcome_events :: "log_event list \<Rightarrow> log_event list" where
  "outcome_events l = filter (\<lambda>e. case e of RetentionExpired _ _ _ \<Rightarrow> False | _ \<Rightarrow> True) l"

text \<open>The secret by which a request names its route or slot.\<close>

definition secret_of :: "parsers \<Rightarrow> request \<Rightarrow> string option" where
  "secret_of p req =
     (let routed = (\<lambda>h. case resolve_route_token h of Inr channel \<Rightarrow> Some channel | Inl _ \<Rightarrow> None) in
      case req of
        PushReq h _ \<Rightarrow> routed h
      | PullReq h _ \<Rightarrow> routed h
      | AckReq h _ \<Rightarrow> routed h
      | CreateReq _ b \<Rightarrow> map_option create_invite_id (parse_create p b)
      | RedeemReq _ b \<Rightarrow> map_option redeem_invite_id (parse_redeem p b)
      | RevokeReq _ b \<Rightarrow> map_option revoke_invite_id (parse_revoke p b)
      | InfoReq _ \<Rightarrow> None)"

definition log_id_of :: "parsers \<Rightarrow> request \<Rightarrow> string" where
  "log_id_of p req = channel_log_id (the (secret_of p req))"

text \<open>The events that a refusal leaves.\<close>

definition refusal_trail :: "string \<Rightarrow> request \<Rightarrow> string \<Rightarrow> log_event list \<Rightarrow> bool" where
  "refusal_trail lid req code l =
     (if code = ''ERR_STORE'' then \<exists>e. l = [StoreError e]
      else if code = ''ERR_OVERLOADED'' then \<exists>d cap. l = [QueueOverloaded d cap]
      else if code = ''ERR_ROUTE_CAP'' then \<exists>n cap. l = [RouteCapReached lid n cap]
      else if code = ''ERR_INVITE_CAP_FULL'' then \<exists>n cap. l = [InviteCapFull n cap]
      else case req of
             PushReq _ _ \<Rightarrow>
               if code = ''ERR_RATE_LIMITED'' then \<exists>burst refill. l = [RateLimited lid burst refill]
               else if code \<in> {''ERR_INVITE_EXPIRED'', ''ERR_INVITE_REVOKED'', ''ERR_INVITE_TICKET_INVALID''}
               then l = [InviteSlotRejected lid] else l = []
           | CreateReq _ _ \<Rightarrow>
               if code = ''ERR_RATE_LIMITED'' then \<exists>burst refill. l = [InviteRateLimited burst refill] else l = []
           | _ \<Rightarrow> l = [])"

definition audited :: "string \<Rightarrow> request \<Rightarrow> response \<Rightarrow> log_event list \<Rightarrow> bool" where
  "audited lid req r l =
     (case reply_payload r of
        Code code \<Rightarrow> refusal_trail lid req code l
      | PostResp mid \<Rightarrow> (case req of PushReq _ b \<Rightarrow> l = [Pushed lid mid (length b)] | _ \<Rightarrow> False)
      | PullResp items \<Rightarrow> l = map (\<lambda>(mid, b). Pulled lid mid (length b)) items
      | AckResp n \<Rightarrow> l = [Acknowledged lid n]
      | InviteCreateResp _ \<Rightarrow> \<exists>until. l = [InviteCreated lid until]
      | InviteRedeemResp _ _ _ \<Rightarrow> l = [InviteRedeemed lid]
      | InviteRevokeResp _ \<Rightarrow> l = [InviteRevoked lid]
      | NoBody \<Rightarrow> l = [] | InfoProbe \<Rightarrow> l = [] | InfoFull _ \<Rightarrow> l = [])"

lemmas audit_defs = audited_def refusal_trail_def

subsection \<open>Trails of handlers\<close>

text \<open>A step that stops with a trail of its reply, or goes on without an outcome event; and a
  handler whose reply has its trail.\<close>

definition hushed :: "(response \<Rightarrow> log_event list \<Rightarrow> bool) \<Rightarrow> 'a handler \<Rightarrow> bool" where
  "hushed R m \<longleftrightarrow>
     (\<forall>st. case m st of (Inl r, l, _) \<Rightarrow> R r (outcome_events l) | (Inr x, l, _) \<Rightarrow> outcome_events l = [])"

definition trails :: "(response \<Rightarrow> log_event list \<Rightarrow> bool) \<Rightarrow> response handler \<Rightarrow> bool" where
  "trails R m \<longleftrightarrow> (\<forall>st. R (final (fst (m st))) (outcome_events (fst (snd (m st)))))"

named_theorems trail_rules

lemma outcome_events_simps [simp]:
  "outcome_events [] = []" "outcome_events (l @ l') = outcome_events l @ outcome_events l'"
  "outcome_events (e # l) = (case e of RetentionExpired _ _ _ \<Rightarrow> [] | _ \<Rightarrow> [e]) @ outcome_events l"
  by (simp_all add: outcome_events_def split: log_event.split)

lemma outcome_events_retention [simp]:
  "outcome_events (map (\<lambda>(lid, n). RetentionExpired lid n ttl) xs) = []"
  by (induction xs) (auto simp: outcome_events_def)

lemma outcome_events_pulled [simp]:
  "outcome_events (map (\<lambda>(mid, b). Pulled lid mid (length b)) items) =
     map (\<lambda>(mid, b). Pulled lid mid (length b)) items"
  by (induction items) auto

lemma hushedD:
  assumes "hushed R m" and "m st = (r, l, s)"
  shows "case r of Inl r \<Rightarrow> R r (outcome_events l) | Inr x \<Rightarrow> outcome_events l = []"
  using assms(1) [unfolded hushed_def, rule_format, of st] assms(2) by (cases r) simp_all

lemma hushed_bind [trail_rules]:
  assumes "hushed R m" and "\<And>x. hushed R (f x)"
  shows "hushed R (h_bind m f)"
  unfolding hushed_def
proof
  fix st
  obtain r l s where ms: "m st = (r, l, s)" by (cases "m st")
  have m: "case r of Inl r \<Rightarrow> R r (outcome_events l) | Inr x \<Rightarrow> outcome_events l = []"
    by (rule hushedD [OF assms(1) ms])
  show "case h_bind m f st of (Inl r, l, _) \<Rightarrow> R r (outcome_events l) | (Inr x, l, _) \<Rightarrow> outcome_events l = []"
  proof (cases r)
    case (Inl e)
    then show ?thesis using m ms by (simp add: h_bind_def)
  next
    case (Inr x)
    obtain r' l' s' where f: "f x s = (r', l', s')" by (cases "f x s")
    from hushedD [OF assms(2) f] show ?thesis using m ms f Inr by (cases r') (simp_all add: h_bind_def)
  qed
qed

lemma trails_bind [trail_rules]:
  assumes "hushed R m" and "\<And>x. trails R (f x)"
  shows "trails R (h_bind m f)"
  unfolding trails_def
proof
  fix st
  obtain r l s where ms: "m st = (r, l, s)" by (cases "m st")
  note m = hushedD [OF assms(1) ms]
  show "R (final (fst (h_bind m f st))) (outcome_events (fst (snd (h_bind m f st))))"
  proof (cases r)
    case (Inl e)
    then show ?thesis using m ms by (simp add: h_bind_def)
  next
    case (Inr x)
    have "R (final (fst (f x s))) (outcome_events (fst (snd (f x s))))"
      using assms(2) by (simp add: trails_def)
    then show ?thesis using m ms Inr by (cases "f x s") (simp add: h_bind_def)
  qed
qed

text \<open>An outcome event, and the rest.\<close>

lemma trails_info:
  assumes "outcome_events [e] = [e]" and "trails (\<lambda>r l. R r (e # l)) m"
  shows "trails R (h_bind (h_info e) (\<lambda>_. m))"
  unfolding trails_def
proof
  fix st
  obtain r l s where "m st = (r, l, s)" by (cases "m st")
  moreover have "R (final (fst (m st))) (e # outcome_events (fst (snd (m st))))"
    using assms(2) by (simp add: trails_def)
  ultimately show "R (final (fst (h_bind (h_info e) (\<lambda>_. m) st)))
      (outcome_events (fst (snd (h_bind (h_info e) (\<lambda>_. m) st))))"
    using assms(1) by (cases e) (simp_all add: h_bind_def h_info_def)
qed

lemma trails_return: "trails R (f x) \<Longrightarrow> trails R (h_bind (h_return x) f)"
  by (simp add: trails_def h_bind_def h_return_def split: prod.split)

lemma hushed_info:
  assumes "outcome_events [e] = [e]" and "R (Reply n p) [e]"
  shows "hushed R (h_bind (h_info e) (\<lambda>_. h_reply n p))"
  using assms by (simp add: hushed_def h_bind_def h_info_def h_reply_def)

lemma hushed_basic [trail_rules]:
  "hushed R (h_return x)" "hushed R (h_get g)" "hushed R (h_prune stats)" "hushed R (h_drop_bucket key)"
  "R (Reply n p) [] \<Longrightarrow> hushed R (h_reply n p)"
  "R (Reply n (Code code)) [] \<Longrightarrow> hushed R (h_guard b n code)"
  "hushed R m \<Longrightarrow> hushed R m' \<Longrightarrow> hushed R (if b then m else m')"
  "(\<And>e. R (Reply 500 (Code ''ERR_STORE'')) [StoreError e]) \<Longrightarrow> hushed R (h_store f)"
  by (auto simp: hushed_def h_run h_guard_def h_prune_def h_drop_bucket_def log_and_prune_sweep_def
      h_store_def run_store_def split: prod.split sum.split)

lemma trails_basic [trail_rules]:
  "R r [] \<Longrightarrow> trails R (h_return r)" "R (Reply n p) [] \<Longrightarrow> trails R (h_reply n p)"
  by (simp_all add: trails_def h_run)

lemma hushed_parts [trail_rules]:
  "R (Reply 401 (Code ''ERR_UNAUTHORIZED'')) [] \<Longrightarrow> hushed R (h_auth sha h)"
  "R (Reply 400 (Code code)) [] \<Longrightarrow> hushed R (h_json parse b code)"
  by (auto simp: h_auth_def h_json_def intro!: trail_rules split: option.split)

text \<open>What a step hands on.\<close>

definition gives :: "('a \<Rightarrow> bool) \<Rightarrow> 'a handler \<Rightarrow> bool" where
  "gives Q m \<longleftrightarrow> (\<forall>st x. fst (m st) = Inr x \<longrightarrow> Q x)"

lemma trails_gives:
  assumes "hushed R m" and "gives Q m" and "\<And>x. Q x \<Longrightarrow> trails R (f x)"
  shows "trails R (h_bind m f)"
  unfolding trails_def
proof
  fix st
  obtain r l s where ms: "m st = (r, l, s)" by (cases "m st")
  have m: "case r of Inl r \<Rightarrow> R r (outcome_events l) | Inr x \<Rightarrow> outcome_events l = []"
    by (rule hushedD [OF assms(1) ms])
  show "R (final (fst (h_bind m f st))) (outcome_events (fst (snd (h_bind m f st))))"
  proof (cases r)
    case (Inl e)
    then show ?thesis using m ms by (simp add: h_bind_def)
  next
    case (Inr x)
    then have "Q x" using assms(2) ms unfolding gives_def by (metis fst_conv)
    then have "R (final (fst (f x s))) (outcome_events (fst (snd (f x s))))"
      using assms(3) by (simp add: trails_def)
    then show ?thesis using m ms Inr by (cases "f x s") (simp add: h_bind_def)
  qed
qed

lemma gives_parts:
  "gives (\<lambda>channel. resolve_route_token h = Inr channel) (h_route_token h)"
  "gives (\<lambda>req. parse b = Some req) (h_json parse b code)"
  "gives (\<lambda>channel. resolve_route_token h = Inr channel) (push_admit sha h b)"
  "gives (\<lambda>(channel, mx, mode). resolve_route_token h = Inr channel) (pull_admit sha h q)"
proof -
  show "gives (\<lambda>channel. resolve_route_token h = Inr channel) (h_route_token h)"
    by (auto simp: gives_def h_route_token_def h_run split: sum.split)
  show "gives (\<lambda>req. parse b = Some req) (h_json parse b code)"
    by (auto simp: gives_def h_json_def h_run split: option.split)
  show "gives (\<lambda>channel. resolve_route_token h = Inr channel) (push_admit sha h b)"
    by (auto simp: gives_def push_admit_def h_bind_def h_auth_def h_route_token_def h_guard_def h_run
        split: prod.splits sum.splits if_splits)
  show "gives (\<lambda>(channel, mx, mode). resolve_route_token h = Inr channel) (pull_admit sha h q)"
    by (auto simp: gives_def pull_admit_def h_bind_def h_auth_def h_route_token_def h_guard_def h_run Let_def
        split: prod.splits sum.splits if_splits option.splits)
qed

lemma hushed_route_token [trail_rules]:
  "R (Reply 400 (Code ''ERR_MISSING_ROUTE_TOKEN'')) [] \<Longrightarrow> R (Reply 400 (Code ''ERR_BAD_ROUTE_TOKEN'')) [] \<Longrightarrow>
   hushed R (h_route_token h)"
  using resolve_route_token_error [of h] unfolding h_route_token_def
  by (cases "resolve_route_token h") (auto intro: trail_rules)

subsection \<open>The seven routes\<close>

lemma trails_push:
  "trails (audited (log_id_of p (PushReq h b)) (PushReq h b)) (push_message sha amb h b)"
proof -
  let ?R = "audited (log_id_of p (PushReq h b)) (PushReq h b)"
  have admit: "hushed ?R (push_admit sha h b)"
    unfolding push_admit_def by (intro trail_rules) (simp_all add: audit_defs)
  have lid: "log_id_of p (PushReq h b) = channel_log_id channel" if "resolve_route_token h = Inr channel" for channel
    using that by (simp add: log_id_of_def secret_of_def)
  have status: "hushed ?R (push_status amb key (log_id_of p (PushReq h b)))" for key
    unfolding push_status_def by (intro trail_rules hushed_info) (simp_all add: audit_defs)
  have gate: "hushed ?R (push_gate amb key (log_id_of p (PushReq h b)))" for key
    by (auto simp: hushed_def push_gate_def Let_def audit_defs split: option.split prod.split)
  have enqueue: "hushed ?R (push_enqueue sha amb h b key lid mid)" for key lid mid
    unfolding push_enqueue_def by (intro trail_rules) (simp_all add: audit_defs)
  have answer: "trails ?R (push_answer key (log_id_of p (PushReq h b)) mid (length b) out)" for key mid out
    unfolding push_answer_def
    by (cases out) (auto intro!: trail_rules trails_info simp: audit_defs slot_reply_def split: SlotReject.split)
  show ?thesis
    unfolding push_message_def Let_def
    by (rule trails_gives [OF admit gives_parts(3)], simp only: lid [symmetric])
       (intro trails_bind status gate enqueue answer)
qed

lemma trails_pull:
  "trails (audited (log_id_of p (PullReq h q)) (PullReq h q)) (pull_message sha amb h q)"
proof -
  let ?R = "audited (log_id_of p (PullReq h q)) (PullReq h q)"
  have admit: "hushed ?R (pull_admit sha h q)"
    unfolding pull_admit_def Let_def
    by (cases "query_ack q") (auto intro!: trail_rules simp: audit_defs)
  have answer: "trails ?R (pull_answer_items (log_id_of p (PullReq h q)) items)" for items
    by (simp add: trails_def pull_answer_items_def audit_defs)
  have lid: "log_id_of p (PullReq h q) = channel_log_id channel" if "resolve_route_token h = Inr channel" for channel
    using that by (simp add: log_id_of_def secret_of_def)
  show ?thesis
    unfolding pull_message_def pull_store_def Let_def
  proof (rule trails_gives [OF admit gives_parts(4)], clarify)
    fix channel mx mode
    assume "resolve_route_token h = Inr channel"
    then show "trails ?R (h_bind (h_bind (h_get app_limits) (\<lambda>lim. h_store (store_pull (route_key_for sha channel) mx
        (max PULL_BUDGET_BYTES (max_body_bytes lim)) (now_unix_secs amb) mode (faults1 amb)))) (\<lambda>out.
      h_bind (h_prune (pull_sweep out)) (\<lambda>_. h_bind (if pull_drained out then h_drop_bucket (route_key_for sha channel)
        else h_return ()) (\<lambda>_. pull_answer_items (channel_log_id channel) (pull_items out)))))"
      by (simp only: lid [symmetric]) (intro trail_rules answer; simp add: audit_defs)
  qed
qed

lemma trails_ack:
  "trails (audited (log_id_of p (AckReq h b)) (AckReq h b)) (ack_messages sha parse amb h b)"
proof -
  have lid: "log_id_of p (AckReq h b) = channel_log_id channel" if "resolve_route_token h = Inr channel" for channel
    using that by (simp add: log_id_of_def secret_of_def)
  show ?thesis
    unfolding ack_messages_def Let_def
    by (rule trails_bind, (intro trail_rules; simp add: audit_defs),
        rule trails_gives [OF _ gives_parts(1)], (intro trail_rules; simp add: audit_defs), simp only: lid [symmetric])
       (intro trails_info trail_rules; simp add: audit_defs)
qed

lemma trails_create:
  "trails (audited (log_id_of p (CreateReq h b)) (CreateReq h b)) (invite_create sha (parse_create p) amb h b)"
proof -
  let ?R = "audited (log_id_of p (CreateReq h b)) (CreateReq h b)"
  have lid: "log_id_of p (CreateReq h b) = channel_log_id (create_invite_id req)" if "parse_create p b = Some req" for req
    using that by (simp add: log_id_of_def secret_of_def)
  have gate: "hushed ?R (create_gate amb)"
    by (auto simp: hushed_def create_gate_def Let_def audit_defs split: option.split prod.split)
  have valid: "hushed ?R (create_validate amb req)" for req
    unfolding create_validate_def Let_def
    by (cases "b64_decode (create_bundle_b64 req)"; cases "b64_decode (create_sig_b64 req)")
       (auto intro!: trail_rules simp: audit_defs)
  have answer: "trails ?R (create_answer (log_id_of p (CreateReq h b)) until token m out)" for until token m out
    unfolding create_answer_def
    by (cases out) (auto intro!: trail_rules trails_info simp: audit_defs)
  have stored: "trails ?R (case v of (bun, sg, until) \<Rightarrow>
      h_bind (h_store (g bun sg until)) (create_answer (channel_log_id (create_invite_id req)) until token m))"
    if "parse_create p b = Some req" for req v g token m
    unfolding lid [OF that, symmetric]
    by (cases v) (auto intro!: trail_rules answer simp: audit_defs)
  show ?thesis
    unfolding invite_create_def Let_def
    by (intro stored trails_gives [OF _ gives_parts(2)] trails_bind gate valid trail_rules)
       (assumption | simp add: audit_defs)+
qed

lemma trails_redeem:
  "trails (audited (log_id_of p (RedeemReq h b)) (RedeemReq h b)) (invite_redeem sha (parse_redeem p) amb h b)"
proof -
  let ?R = "audited (log_id_of p (RedeemReq h b)) (RedeemReq h b)" and ?lid = "log_id_of p (RedeemReq h b)"
  have lid: "?lid = channel_log_id (redeem_invite_id req)" if "parse_redeem p b = Some req" for req
    using that by (simp add: log_id_of_def secret_of_def)
  have answer: "trails ?R (h_bind (case out of
        Redeemed bun sg \<Rightarrow> h_info (InviteRedeemed (channel_log_id (redeem_invite_id req))) | _ \<Rightarrow> h_return ())
      (\<lambda>_. h_return (redeem_reply ticket out)))" if "parse_redeem p b = Some req" for req out ticket
    unfolding lid [OF that, symmetric]
    by (cases out) (auto intro!: trails_info trails_return trails_basic simp: redeem_reply_def audit_defs)
  show ?thesis
    unfolding invite_redeem_def Let_def
    by (intro answer trails_gives [OF _ gives_parts(2)] trails_bind trail_rules)
       (assumption | simp add: audit_defs)+
qed

lemma trails_revoke:
  "trails (audited (log_id_of p (RevokeReq h b)) (RevokeReq h b)) (invite_revoke sha (parse_revoke p) amb h b)"
proof -
  let ?R = "audited (log_id_of p (RevokeReq h b)) (RevokeReq h b)" and ?lid = "log_id_of p (RevokeReq h b)"
  have lid: "?lid = channel_log_id (revoke_invite_id req)" if "parse_revoke p b = Some req" for req
    using that by (simp add: log_id_of_def secret_of_def)
  have answer: "trails ?R (h_bind (if out = Revoked \<or> out = AlreadyRevoked
        then h_info (InviteRevoked (channel_log_id (revoke_invite_id req))) else h_return ())
      (\<lambda>_. h_return (revoke_reply out)))" if "parse_revoke p b = Some req" for req out
    unfolding lid [OF that, symmetric]
    by (cases out) (auto intro!: trails_info trails_return trails_basic simp: revoke_reply_def audit_defs)
  show ?thesis
    unfolding invite_revoke_def Let_def
    by (intro answer trails_gives [OF _ gives_parts(2)] trails_bind trail_rules)
       (assumption | simp add: audit_defs)+
qed

lemma serve_logs: "fst (snd (serve sha p amb req st)) = fst (snd (app sha p amb req st))"
  by (simp add: serve_def split: prod.split sum.split)

lemma serve_audited:
  "audited (log_id_of p req) req (fst (serve sha p amb req st)) (outcome_events (fst (snd (serve sha p amb req st))))"
proof -
  have "trails (audited (log_id_of p req) req) (app sha p amb req)"
  proof (cases req)
    case (InfoReq h)
    then show ?thesis by (simp add: app_def trails_def server_info_handler_def audit_defs)
  qed (simp_all add: app_def trails_push trails_pull trails_ack trails_create trails_redeem trails_revoke)
  then show ?thesis unfolding trails_def serve_final serve_logs by blast
qed

subsection \<open>Redacted identifiers\<close>

text \<open>The channel identifiers of a log line and of the tables.\<close>

fun channels_named :: "log_event \<Rightarrow> string list" where
  "channels_named (RetentionExpired lid _ _) = [lid]"
| "channels_named (InviteCreated lid _) = [lid]"
| "channels_named (InviteRedeemed lid) = [lid]"
| "channels_named (InviteRevoked lid) = [lid]"
| "channels_named (RouteCapReached lid _ _) = [lid]"
| "channels_named (RateLimited lid _ _) = [lid]"
| "channels_named (InviteSlotRejected lid) = [lid]"
| "channels_named (Pushed lid _ _) = [lid]"
| "channels_named (Pulled lid _ _) = [lid]"
| "channels_named (Acknowledged lid _) = [lid]"
| "channels_named _ = []"

definition clean :: "log_event \<Rightarrow> bool" where
  "clean e \<longleftrightarrow> set (channels_named e) \<subseteq> range channel_log_id"

definition redacted :: "db \<Rightarrow> bool" where
  "redacted d \<longleftrightarrow> set (map rt_log_id (routes d)) \<subseteq> range channel_log_id"

text \<open>Operations add no route but the one of an enqueue.\<close>

lemma log_ids_frames [simp]:
  "map rt_log_id (routes (touch k now d)) = map rt_log_id (routes d)"
  "routes (drop_seqs seqs d) = routes d" "routes (lease_seqs seqs u d) = routes d"
  "routes (drop_acked k ids d) = routes d" "routes (map_invites q f d) = routes d"
  by (simp_all add: touch_def drop_seqs_def lease_seqs_def drop_acked_def map_invites_def)

lemma redacted_frames [simp]:
  "redacted (touch k now d) = redacted d" "redacted (drop_seqs seqs d) = redacted d"
  "redacted (lease_seqs seqs u d) = redacted d" "redacted (drop_acked k ids d) = redacted d"
  "redacted (map_invites q f d) = redacted d" "redacted (d\<lparr>invites := is\<rparr>) = redacted d"
  by (simp_all only: redacted_def log_ids_frames) simp

lemma redacted_drops:
  "redacted d \<Longrightarrow> redacted (drop_route k d)" "redacted d \<Longrightarrow> redacted (swept ttl now d)"
  by (auto simp: redacted_def drop_route_def swept_def drop_expired_invites_def drop_idle_routes_def drop_expired_def)

lemma redacted_accepted:
  "redacted d \<Longrightarrow> lid \<in> range channel_log_id \<Longrightarrow> redacted (accepted k lid mid b now d)"
  by (simp add: accepted_def append_message_def)
     (auto simp: redacted_def add_route_def burn_ticket_def)

lemma redacted_op_effect:
  assumes "db_ok d" and "redacted d"
    and "case op of OpEnqueue k lid mid b now D R ticket \<Rightarrow> lid \<in> range channel_log_id | _ \<Rightarrow> True"
  shows "redacted (op_effect ttl lease_secs op d)"
proof -
  note s = redacted_drops(2) [OF assms(2), of ttl]
  have dist: "distinct (map slot_key (invites d))" using assms(1) by (simp add: db_ok_def slots_ok_def)
  note run = op_effect_def run_op_def out_as_def Let_def
  show ?thesis
  proof (cases op)
    case (OpSweep now)
    then show ?thesis by (simp add: run retention_sweep_run s)
  next
    case (OpStatus k now)
    then show ?thesis by (simp add: run route_status_run s)
  next
    case (OpCreate k lid cap_h revoke_h bun sg until now slot_cap)
    then show ?thesis using s [of now] assms(2) by (auto simp: run invite_create_run add_invite_def)
  next
    case (OpRedeem k now th verify)
    then show ?thesis using assms(2) by (simp add: run invite_redeem_run [OF dist] consume_slot_def split: option.split)
  next
    case (OpRevoke k verify)
    then show ?thesis using assms(2) by (simp add: run invite_revoke_run revoke_slot_def split: option.split)
  next
    case (OpEnqueue k lid mid b now D R ticket)
    then show ?thesis
      using assms(2,3) redacted_accepted by (simp add: run enqueue_run split: option.split)
  next
    case (OpPull k mx max_bytes now mode)
    then show ?thesis
      using s [of now]
      by (cases mode) (auto simp: run pull_legacy_run pull_lease_run legacy_delivered_def lease_delivered_def
          intro!: redacted_drops(1))
  next
    case (OpAck k ids now)
    then show ?thesis
      using s [of now] by (auto simp: run ack_run acknowledged_def intro!: redacted_drops(1))
  qed
qed

definition stats_clean :: "SweepStats \<Rightarrow> bool" where
  "stats_clean s \<longleftrightarrow> fst ` set (expired_routes s) \<subseteq> range channel_log_id"

lemma sweep_stats_clean: "redacted d \<Longrightarrow> stats_clean (sweep_stats ttl now d)"
  by (auto simp: stats_clean_def sweep_stats_def count_expired_def redacted_def)

subsection \<open>Tidy handlers\<close>

definition tidy_state :: "AppState \<Rightarrow> bool" where
  "tidy_state st \<longleftrightarrow> store_wf (store st) \<and> redacted (tables (store st))"

text \<open>On a tidy state a handler hands on only \<open>Q\<close>, logs only clean retention events and leaves
  a tidy state; the outcome events are the subject of the trails.\<close>

definition retention_clean :: "log_event list \<Rightarrow> bool" where
  "retention_clean l \<longleftrightarrow>
     list_all (\<lambda>e. case e of RetentionExpired lid _ _ \<Rightarrow> lid \<in> range channel_log_id | _ \<Rightarrow> True) l"

definition tidy :: "('a \<Rightarrow> bool) \<Rightarrow> 'a handler \<Rightarrow> bool" where
  "tidy Q m \<longleftrightarrow> (\<forall>st r l st'. tidy_state st \<longrightarrow> m st = (r, l, st') \<longrightarrow>
     tidy_state st' \<and> retention_clean l \<and> (case r of Inr x \<Rightarrow> Q x | Inl _ \<Rightarrow> True))"

named_theorems tidy_rules

lemma retention_clean_simps [simp]:
  "retention_clean []" "retention_clean (l @ l') \<longleftrightarrow> retention_clean l \<and> retention_clean l'"
  by (simp_all add: retention_clean_def)

lemma tidy_bind:
  assumes "tidy Q m" and "\<And>x. Q x \<Longrightarrow> tidy Q' (f x)"
  shows "tidy Q' (h_bind m f)"
  unfolding tidy_def
proof (intro allI impI)
  fix st r l st'
  assume st: "tidy_state st" and run: "h_bind m f st = (r, l, st')"
  obtain r1 l1 s1 where m: "m st = (r1, l1, s1)" by (cases "m st")
  have 1: "tidy_state s1 \<and> retention_clean l1 \<and> (case r1 of Inr x \<Rightarrow> Q x | Inl _ \<Rightarrow> True)"
    using assms(1) st m unfolding tidy_def by blast
  show "tidy_state st' \<and> retention_clean l \<and> (case r of Inr x \<Rightarrow> Q' x | Inl _ \<Rightarrow> True)"
  proof (cases r1)
    case (Inl e)
    then show ?thesis using run m 1 by (auto simp: h_bind_def)
  next
    case (Inr x)
    obtain r2 l2 s2 where f: "f x s1 = (r2, l2, s2)" by (cases "f x s1")
    have "tidy Q' (f x)" using assms(2) 1 Inr by simp
    then have "tidy_state s2 \<and> retention_clean l2 \<and> (case r2 of Inr x \<Rightarrow> Q' x | Inl _ \<Rightarrow> True)"
      using 1 f unfolding tidy_def by blast
    then show ?thesis using run m f 1 Inr by (auto simp: h_bind_def)
  qed
qed

lemma tidy_then [tidy_rules]:
  "tidy (\<lambda>_. True) m \<Longrightarrow> (\<And>x. tidy Q (f x)) \<Longrightarrow> tidy Q (h_bind m f)"
  by (rule tidy_bind)

lemma tidy_basic [tidy_rules]:
  "Q x \<Longrightarrow> tidy Q (h_return x)" "tidy Q (h_reply n q)" "tidy (\<lambda>_. True) (h_get g)"
  "tidy (\<lambda>_. True) (h_guard b n code)"
  by (auto simp: tidy_def h_run h_guard_def)

lemma tidy_info [tidy_rules]:
  "outcome_events [e] = [e] \<Longrightarrow> tidy (\<lambda>_. True) (h_info e)"
  by (cases e) (auto simp: tidy_def h_run retention_clean_def)

lemma tidy_if [tidy_rules]: "tidy Q m \<Longrightarrow> tidy Q m' \<Longrightarrow> tidy Q (if c then m else m')"
  by simp

lemma tidy_store:
  assumes "\<And>s. exec op fs s = out_as g (f s)"
    and "case op of OpEnqueue k lid mid b now D R ticket \<Rightarrow> lid \<in> range channel_log_id | _ \<Rightarrow> True"
    and "\<And>ttl ls d v. redacted d \<Longrightarrow> fst (run_op ttl ls op d) = Inr (g v) \<Longrightarrow> Q v"
  shows "tidy Q (h_store f)"
  unfolding tidy_def
proof (intro allI impI)
  fix st r l st'
  assume st: "tidy_state st" and run: "h_store f st = (r, l, st')"
  obtain a s where f: "f (store st) = (a, s)" by (cases "f (store st)")
  have ex: "exec op fs (store st) = (map_sum id g a, s)" using assms(1) by (simp add: out_as_def f)
  have alive: "alive (store st)" and db: "db_ok (tables (store st))" "redacted (tables (store st))"
    using st by (simp_all add: tidy_state_def store_wf_def)
  have "store_wf s" using store_wf_exec [of "store st" op fs] st ex by (simp add: tidy_state_def)
  moreover have "redacted (tables s) \<and> (\<forall>v. a = Inr v \<longrightarrow> Q v)"
  proof (rule disjE [OF exec_cases [OF alive, of op fs]])
    assume c: "exec op fs (store st) =
      (fst (run_op (st_retention_ttl_secs (store st)) (st_pull_lease_secs (store st)) op (tables (store st))),
       (store st)\<lparr>conn := Mutex False
         (op_effect (st_retention_ttl_secs (store st)) (st_pull_lease_secs (store st)) op (tables (store st)))\<rparr>)"
    have "redacted (tables s)"
      using c ex redacted_op_effect [OF db assms(2)] by auto
    moreover have "Q v" if "a = Inr v" for v
    proof (rule assms(3) [OF db(2)])
      show "fst (run_op (st_retention_ttl_secs (store st)) (st_pull_lease_secs (store st)) op (tables (store st))) =
          Inr (g v)"
        using c ex that by simp
    qed
    ultimately show ?thesis by blast
  next
    assume "\<exists>e. exec op fs (store st) = (Inl e, store st)"
    then show ?thesis using ex db(2) by (cases a) auto
  qed
  ultimately show "tidy_state st' \<and> retention_clean l \<and> (case r of Inr x \<Rightarrow> Q x | Inl _ \<Rightarrow> True)"
    using run f by (cases a) (auto simp: h_store_def run_store_def tidy_state_def retention_clean_def)
qed

lemma tidy_stores:
  "tidy (\<lambda>s. stats_clean (status_sweep s)) (h_store (store_route_status k now fs))"
  "tidy (\<lambda>_. True) (h_store (store_invite_create k lid ch rh bun sg until now cap fs))"
  "tidy (\<lambda>_. True) (h_store (store_invite_redeem k now th verify fs))"
  "tidy (\<lambda>_. True) (h_store (store_invite_revoke k verify fs))"
  "lid \<in> range channel_log_id \<Longrightarrow> tidy (\<lambda>_. True) (h_store (store_enqueue k lid mid b now D R ticket fs))"
  "tidy (\<lambda>out. stats_clean (pull_sweep out)) (h_store (store_pull k mx mb now mode fs))"
  "tidy (\<lambda>out. stats_clean (ack_sweep out)) (h_store (store_ack k ids now fs))"
proof -
  note run = run_op_def out_as_def Let_def
  show "tidy (\<lambda>s. stats_clean (status_sweep s)) (h_store (store_route_status k now fs))"
    by (rule tidy_store [where op = "OpStatus k now" and g = OutStatus])
       (auto simp: exec_def run route_status_run sweep_stats_clean)
  show "tidy (\<lambda>_. True) (h_store (store_invite_create k lid ch rh bun sg until now cap fs))"
    by (rule tidy_store [where op = "OpCreate k lid ch rh bun sg until now cap" and g = OutCreate])
       (simp_all add: exec_def)
  show "tidy (\<lambda>_. True) (h_store (store_invite_redeem k now th verify fs))"
    by (rule tidy_store [where op = "OpRedeem k now th verify" and g = OutRedeem]) (simp_all add: exec_def)
  show "tidy (\<lambda>_. True) (h_store (store_invite_revoke k verify fs))"
    by (rule tidy_store [where op = "OpRevoke k verify" and g = OutRevoke]) (simp_all add: exec_def)
  show "tidy (\<lambda>_. True) (h_store (store_enqueue k lid mid b now D R ticket fs))" if "lid \<in> range channel_log_id"
    by (rule tidy_store [where op = "OpEnqueue k lid mid b now D R ticket" and g = OutEnqueue])
       (use that in \<open>simp_all add: exec_def\<close>)
  show "tidy (\<lambda>out. stats_clean (pull_sweep out)) (h_store (store_pull k mx mb now mode fs))"
    by (rule tidy_store [where op = "OpPull k mx mb now mode" and g = OutPull], (simp_all add: exec_def)[2])
       (cases mode; auto simp: run pull_legacy_run pull_lease_run sweep_stats_clean)
  show "tidy (\<lambda>out. stats_clean (ack_sweep out)) (h_store (store_ack k ids now fs))"
    by (rule tidy_store [where op = "OpAck k ids now" and g = OutAck])
       (auto simp: exec_def run ack_run sweep_stats_clean)
qed

lemma tidy_pull_store: "tidy (\<lambda>out. stats_clean (pull_sweep out)) (pull_store amb k mx mode)"
  unfolding pull_store_def Let_def by (intro tidy_then tidy_basic tidy_stores)

lemmas tidy_sweeping = tidy_bind [OF tidy_stores(1)] tidy_bind [OF tidy_pull_store] tidy_bind [OF tidy_stores(7)]

declare tidy_stores(2-5) [tidy_rules]

lemma tidy_buckets [simp]:
  "tidy_state (update_buckets f st) = tidy_state st" "tidy_state (st\<lparr>push_rates := b\<rparr>) = tidy_state st"
  "tidy_state (st\<lparr>invite_create_rate := c\<rparr>) = tidy_state st"
  by (simp_all add: tidy_state_def update_buckets_def split: option.split)

lemma tidy_shared [tidy_rules]:
  "stats_clean stats \<Longrightarrow> tidy (\<lambda>_. True) (h_prune stats)" "tidy (\<lambda>_. True) (h_drop_bucket key)"
  "tidy (\<lambda>_. True) (push_gate amb key lid)" "tidy (\<lambda>_. True) (create_gate amb)"
proof -
  show "tidy (\<lambda>_. True) (h_prune stats)" if "stats_clean stats"
    using that
    by (auto simp: tidy_def h_prune_def log_and_prune_sweep_def retention_clean_def list_all_iff stats_clean_def)
  show "tidy (\<lambda>_. True) (h_drop_bucket key)" by (auto simp: tidy_def h_drop_bucket_def drop_rate_bucket_def)
  show "tidy (\<lambda>_. True) (push_gate amb key lid)" "tidy (\<lambda>_. True) (create_gate amb)"
    by (auto simp: tidy_def push_gate_def create_gate_def retention_clean_def Let_def
        split: option.splits prod.splits if_splits)
qed

lemma tidy_parts [tidy_rules]:
  "tidy (\<lambda>_. True) (h_auth sha h)" "tidy (\<lambda>_. True) (h_route_token h)" "tidy (\<lambda>_. True) (h_json parse b code)"
  "tidy (\<lambda>_. True) (pull_answer_items lid items)"
proof -
  show "tidy (\<lambda>_. True) (h_auth sha h)" unfolding h_auth_def by (intro tidy_rules)
  show "tidy (\<lambda>_. True) (h_route_token h)"
    unfolding h_route_token_def by (cases "resolve_route_token h") (auto intro: tidy_rules)
  show "tidy (\<lambda>_. True) (h_json parse b code)"
    unfolding h_json_def by (cases "parse b") (auto intro: tidy_rules)
  show "tidy (\<lambda>_. True) (pull_answer_items lid items)"
    by (auto simp: tidy_def pull_answer_items_def retention_clean_def list_all_iff split: if_splits)
qed

lemma tidy_push: "tidy (\<lambda>_. True) (push_message sha amb h b)"
proof -
  have answer: "tidy (\<lambda>_. True) (push_answer key lid mid n out)" for key lid mid n out
    unfolding push_answer_def by (cases out) (auto intro!: tidy_rules)
  show ?thesis
    unfolding push_message_def push_admit_def push_status_def push_enqueue_def Let_def
    by (intro tidy_sweeping tidy_rules answer) auto
qed

lemma tidy_pull: "tidy (\<lambda>_. True) (pull_message sha amb h q)"
proof -
  have admit: "tidy (\<lambda>_. True) (pull_admit sha h q)"
    unfolding pull_admit_def Let_def by (cases "query_ack q") (auto intro!: tidy_rules)
  show ?thesis
    unfolding pull_message_def Let_def
    by (rule tidy_then [OF admit]) (auto intro!: tidy_sweeping tidy_rules split: prod.split)
qed

lemma tidy_ack: "tidy (\<lambda>_. True) (ack_messages sha parse amb h b)"
  unfolding ack_messages_def Let_def by (intro tidy_sweeping tidy_rules) auto

lemma tidy_create: "tidy (\<lambda>_. True) (invite_create sha parse amb h b)"
proof -
  have "tidy (\<lambda>_. True) (create_validate amb req)" for req
    unfolding create_validate_def Let_def
    by (cases "b64_decode (create_bundle_b64 req)"; cases "b64_decode (create_sig_b64 req)")
       (auto intro!: tidy_rules)
  moreover have "tidy (\<lambda>_. True) (create_answer lid until token m out)" for lid until token m out
    unfolding create_answer_def by (cases out) (auto intro!: tidy_rules)
  ultimately show ?thesis
    unfolding invite_create_def Let_def by (auto intro!: tidy_rules split: prod.split)
qed

lemma tidy_redeem: "tidy (\<lambda>_. True) (invite_redeem sha parse amb h b)"
proof -
  have "tidy (\<lambda>_. True) (case out of Redeemed bun sg \<Rightarrow> h_info (InviteRedeemed lid) | _ \<Rightarrow> h_return ())" for out lid
    by (cases out) (auto intro!: tidy_rules)
  then show ?thesis unfolding invite_redeem_def Let_def by (intro tidy_rules) auto
qed

lemma tidy_revoke: "tidy (\<lambda>_. True) (invite_revoke sha parse amb h b)"
  unfolding invite_revoke_def Let_def by (intro tidy_rules) auto

lemma tidy_serve:
  assumes "tidy_state st" and "serve sha p amb req st = (r, l, st')"
  shows "tidy_state st'" and "retention_clean l"
proof -
  have "tidy (\<lambda>_. True) (app sha p amb req)"
  proof (cases req)
    case (InfoReq h)
    then show ?thesis by (auto simp: app_def tidy_def server_info_handler_def)
  qed (simp_all add: app_def tidy_push tidy_pull tidy_ack tidy_create tidy_redeem tidy_revoke)
  then show "tidy_state st'" "retention_clean l"
    using assms unfolding tidy_def serve_def by (auto split: prod.splits sum.splits)
qed

text \<open>Clean retention events and a trail make a clean log.\<close>

lemma audited_clean: "audited (channel_log_id c) req r l \<Longrightarrow> list_all clean l"
  by (auto simp: audit_defs clean_def list_all_iff split: payload.splits if_splits request.splits)

lemma log_clean:
  assumes "retention_clean l" and "list_all clean (outcome_events l)"
  shows "list_all clean l"
  using assms
proof (induction l)
  case (Cons e l)
  then show ?case by (cases e) (auto simp: retention_clean_def clean_def)
qed simp

text \<open>
  C17: The log is a redacted audit trail. A request leaves, besides the retention events of its
  sweep, exactly the events that its reply determines: an accepted push its identifier and
  length, a pull one event per delivered message in order, a refusal that is logged its one
  event, every other refusal none. Every channel that a log line names, the request's own and
  those of expired routes, is the hash of a secret and never the secret itself, and the tables
  keep no other names for later lines.
\<close>

theorem log_is_redacted_trail:
  assumes "app_reachable st" and "redacted (tables (store st))"
    and "serve sha p amb req st = (r, l, st')"
  shows "audited (log_id_of p req) req r (outcome_events l) \<and> list_all clean l \<and>
    redacted (tables (store st'))"
proof -
  have "tidy_state st" using assms(1,2) app_reachable_ok by (simp add: tidy_state_def app_ok_def)
  note t = tidy_serve [OF this assms(3)]
  have a: "audited (log_id_of p req) req r (outcome_events l)"
    using serve_audited [of p req sha amb st] assms(3) by simp
  with t show ?thesis
    using log_clean audited_clean unfolding log_id_of_def by (simp add: tidy_state_def)
qed

end
