(* ===== verification/Samples.thy ===== *)
theory Samples imports Boot Privacy Drain Tenants Log_Trail begin

text \<open>
  Concrete relays, started by \<open>main\<close> on a file with given rows: an empty one and one that holds
  a redeemed slot. The theorems about the relay are exercised on them.
\<close>

definition sample_file :: "db \<Rightarrow> store_file" where
  "sample_file d = \<lparr>present = [], rows = d\<lparr>meta := (\<lambda>_. None)\<rparr>\<rparr>"

definition sample_host :: "db \<Rightarrow> host" where
  "sample_host d = \<lparr>parse_addr = Some, tcp_bind = Some, open_file = (\<lambda>_. Some (sample_file d)),
     open_faults = [], start_ns = 0, serve_fails = False\<rparr>"

definition sample_relay :: "db \<Rightarrow> AppState" where
  "sample_relay d = the (snd (main (sample_host d) no_env sample_cli))"

lemma open_sample:
  assumes "0 < cfg_retention_ttl_secs c" and "0 < cfg_pull_lease_secs c"
  obtains g :: store_file and f' where "Store_open c (Some (sample_file d)) [] = (Inr \<lparr>conn = Mutex False (rows g),
      st_retention_ttl_secs = usize_as_i64 (min (cfg_retention_ttl_secs c) MAX_RETENTION_TTL_SECS_CEILING),
      st_pull_lease_secs = usize_as_i64 (min (cfg_pull_lease_secs c) MAX_PULL_LEASE_SECS_CEILING)\<rparr>, f')"
    "messages (rows g) = messages d" "routes (rows g) = routes d" "invites (rows g) = invites d"
    "last_seq (rows g) = last_seq d"
proof -
  obtain r f' where ro: "Store_open c (Some (sample_file d)) [] = (r, f')"
    by (cases "Store_open c (Some (sample_file d)) []")
  have "file_version (rows (sample_file d)) = Some 2"
    by (simp add: file_version_def sample_file_def SCHEMA_VERSION_def)
  then obtain s where s: "r = Inr s"
    using open_guard [OF assms, of "sample_file d"] ro by (auto simp: SCHEMA_VERSION_def split: sum.splits)
  from ro show thesis
  proof (cases rule: open_cases)
    case (2 g)
    then show ?thesis
      using that [of g f'] ro by (simp add: data_of_def sample_file_def)
  qed (simp add: s)
qed

definition relay_controls :: ResourceControls where
  "relay_controls = projr (ResourceControls_new 256 7 257)"

definition sample_cfg :: Config where
  "sample_cfg = \<lparr>conf_bind = ''127.0.0.1'', conf_port = 8080, conf_limits = Limits_default,
     conf_controls = relay_controls,
     conf_store = \<lparr>cfg_path = ''relay.db'', cfg_retention_ttl_secs = 604800, cfg_pull_lease_secs = 120\<rparr>,
     conf_invites = InviteLimits_default, conf_deprecated_route_idle_ttl = False\<rparr>"

lemma sample_resolve: "resolve_config sample_cli sample_env = Inr sample_cfg"
  unfolding sample_env_def sample_cfg_def relay_controls_def
  by (simp add: EnvVals_from_env_def no_env_def env_u16_def env_usize_def env_opt_def
      sample_cli_def chain_defs retention_ttl_or_error_def pull_lease_or_error_def
      limit_or_error_def default_defs ceiling_defs push_rate_refill_or_cap_def
      Limits_default_def InviteLimits_default_def)

lemma sample_started:
  obtains evs and g :: store_file where "main (sample_host d) no_env sample_cli = (evs, Some
     \<lparr>store = \<lparr>conn = Mutex False (rows g), st_retention_ttl_secs = 604800, st_pull_lease_secs = 120\<rparr>,
      push_rates = Mutex False (\<lambda>_. None), app_limits = Limits_default,
      app_controls = relay_controls,
      relay_token = None, app_retention_ttl_secs = 604800, server_info = ServerInfoCfg_from_env no_env,
      invite_limits = InviteLimits_default,
      invite_create_rate = Mutex False (bucket_new 0 (invite_bucket_controls InviteLimits_default))\<rparr>)"
    "messages (rows g) = messages d" "routes (rows g) = routes d" "invites (rows g) = invites d"
    "last_seq (rows g) = last_seq d"
proof -
  obtain g :: store_file and f' where "Store_open (conf_store sample_cfg) (Some (sample_file d)) [] =
    (Inr \<lparr>conn = Mutex False (rows g), st_retention_ttl_secs = 604800, st_pull_lease_secs = 120\<rparr>, f')"
    "messages (rows g) = messages d" "routes (rows g) = routes d" "invites (rows g) = invites d"
    "last_seq (rows g) = last_seq d"
    by (rule open_sample [of "conf_store sample_cfg"])
       (simp_all add: sample_cfg_def ceiling_defs usize_as_i64_small)
  then show thesis
    using that [of _ g]
    by (simp add: main_def sample_env_eq sample_resolve sample_host_def AppState_new_full_def)
       (simp add: sample_cfg_def retention_ttl_or_error_def ceiling_defs relay_token_from_env_def no_env_def)
qed

lemma sample_relay_fields [simp]:
  "\<exists>evs. main (sample_host d) no_env sample_cli = (evs, Some (sample_relay d))"
  "messages (tables (store (sample_relay d))) = messages d" "routes (tables (store (sample_relay d))) = routes d"
  "invites (tables (store (sample_relay d))) = invites d" "last_seq (tables (store (sample_relay d))) = last_seq d"
  "poisoned (conn (store (sample_relay d))) = False"
  "st_retention_ttl_secs (store (sample_relay d)) = 604800"
  "relay_token (sample_relay d) = None" "app_retention_ttl_secs (sample_relay d) = 604800"
  "app_limits (sample_relay d) = Limits_default" "app_controls (sample_relay d) = relay_controls"
  "push_rates (sample_relay d) = Mutex False (\<lambda>_. None)" "invite_limits (sample_relay d) = InviteLimits_default"
  "invite_create_rate (sample_relay d) = Mutex False (bucket_new 0 (invite_bucket_controls InviteLimits_default))"
  "st_pull_lease_secs (store (sample_relay d)) = 120" "server_info (sample_relay d) = ServerInfoCfg_from_env no_env"
  by (rule sample_started [of d]; simp add: sample_relay_def)+

lemma relay_controls_simps:
  "max_route_count relay_controls = 256" "push_rate_burst relay_controls = 7"
  by (simp_all add: relay_controls_def ResourceControls_new_def ResourceControls_new_with_route_idle_ttl_ms_def
      limit_or_error_def push_rate_refill_or_cap_def ceiling_defs default_defs)

text \<open>The rows of the samples: none, and one redeemed slot.\<close>

definition redeemed_slot :: invite_row where
  "redeemed_slot = consume 500 (sha256_hex sample_sha ''ticket'')
     (new_invite (route_key_for sample_sha ''tok'') ''lid'' ''cap'' ''rev'' [1] [2] 5000 400)"

definition redeemed_db :: db where
  "redeemed_db = empty_db\<lparr>invites := [redeemed_slot]\<rparr>"

lemma sample_dbs:
  "db_ok redeemed_db" "capped 257 256 256 empty_db" "capped 257 256 256 redeemed_db"
  using db_ok_empty
  by (simp_all add: redeemed_db_def db_ok_def slots_ok_def invite_ok_def redeemed_slot_def consume_def
      capped_def empty_db_def queue_def mail_ok_def)

lemma relay_reachable:
  assumes "db_ok d" and "capped 257 256 256 d"
  shows "app_reachable (sample_relay d)"
proof -
  obtain evs where m: "main (sample_host d) no_env sample_cli = (evs, Some (sample_relay d))"
    using sample_relay_fields(1) by blast
  have rows: "rows (sample_file d) = d\<lparr>meta := (\<lambda>_. None)\<rparr>" by (simp add: sample_file_def)
  from assms have "db_ok (rows (sample_file d))" "capped 257 256 256 (rows (sample_file d))"
    unfolding rows by (simp_all add: db_ok_def mail_ok_def slots_ok_def capped_def queue_def)
  with main_serves_reachable [OF m, of "sample_file d" "sample_relay d"] show ?thesis
    by (simp add: sample_host_def Limits_default_def InviteLimits_default_def relay_controls_simps
        ceiling_defs default_defs)
qed

lemmas empty_relay = relay_reachable [OF db_ok_empty sample_dbs(2)]
  and redeemed_relay = relay_reachable [OF sample_dbs(1,3)]

subsection \<open>Requests\<close>

definition at_second :: "nat \<Rightarrow> ambient" where
  "at_second t = \<lparr>sys_ns = int (t * ns_per_sec), mono_ns = t * ns_per_sec, uuid_bytes = replicate 16 0,
     uuid_text = ''u'', faults1 = [], faults2 = []\<rparr>"

lemma at_second_simps [simp]:
  "t < 2 ^ 63 \<Longrightarrow> now_unix_secs (at_second t) = int t" "faults1 (at_second t) = []" "faults2 (at_second t) = []"
  "uuid_text (at_second t) = ''u''" "mono_ns (at_second t) = t * ns_per_sec"
  "uuid_bytes (at_second t) = replicate 16 0"
  by (simp_all add: at_second_def now_unix_secs_def usize_as_i64_small ns_per_sec_def)

definition sample_token :: headers where
  "sample_token = [ROUTE_TOKEN_HEADER \<mapsto> Some ''tok'', INVITE_TICKET_HEADER \<mapsto> Some ''ticket'']"

lemma sample_texts:
  "trim ''tok'' = ''tok''" "trim ''ticket'' = ''ticket''" "\<not> blank ''i''" "\<not> blank ''c''"
  "b64_decode ''AQ=='' = Some [1]" "b64_decode ''Ag'' = Some [2]"
  by code_simp+

lemma sample_token_simps [simp]:
  "resolve_route_token sample_token = Inr ''tok''" "push_msg_id (at_second t) sample_token = ''u''"
  "push_ticket sample_sha sample_token = Some (ct_eq_secret sample_sha (sha256_hex sample_sha ''ticket''))"
  by (simp_all add: resolve_route_token_def sample_token_def ROUTE_TOKEN_HEADER_def INVITE_TICKET_HEADER_def
      sample_texts push_msg_id_def header_str_def option_filter_def push_ticket_def unwrap_or_def)

lemma open_auth [simp]: "auth_ok sha headers None"
  by (simp add: auth_ok_def)

definition sample_create :: InviteCreateReq where
  "sample_create = \<lparr>create_invite_id = ''i'', create_cap_hash = sha256_hex sample_sha ''c'',
     create_expiry = 2000, create_bundle_b64 = ''AQ=='', create_sig_b64 = ''Ag''\<rparr>"

definition sample_parsers :: parsers where
  "sample_parsers = \<lparr>parse_ack = (\<lambda>_. None), parse_create = (\<lambda>_. Some sample_create),
     parse_redeem = (\<lambda>_. Some \<lparr>redeem_invite_id = ''i'', redeem_cap = ''c''\<rparr>),
     parse_revoke = (\<lambda>_. None)\<rparr>"

lemma sample_parsers_simps [simp]:
  "parse_create sample_parsers x = Some sample_create"
  "parse_redeem sample_parsers x = Some \<lparr>redeem_invite_id = ''i'', redeem_cap = ''c''\<rparr>"
  by (simp_all add: sample_parsers_def)

lemma sample_create_simps [simp]:
  "create_invite_id sample_create = ''i''" "create_cap_hash sample_create = sha256_hex sample_sha ''c''"
  "create_expiry sample_create = 2000" "create_bundle_b64 sample_create = ''AQ==''"
  "create_sig_b64 sample_create = ''Ag''"
  by (simp_all add: sample_create_def)

lemma default_invite_simps [simp]:
  "max_slots InviteLimits_default = 256" "max_bundle_bytes InviteLimits_default = 16384"
  "max_expiry_secs InviteLimits_default = 259200"
  by (simp_all add: InviteLimits_default_def default_defs)

lemma swept_simple [simp]: "messages d = [] \<Longrightarrow> swept ttl now d = drop_expired_invites now d"
  by (cases d) (simp add: swept_def drop_expired_def)

lemma push_on_sample:
  assumes "messages d = []" "routes d = []" "last_seq d = 0" "app_reachable (sample_relay d)"
    and "slot_refusal (route_key_for sample_sha ''tok'') 1000 (push_ticket sample_sha sample_token)
      (drop_expired_invites 1000 (tables (store (sample_relay d)))) = None"
  shows "\<exists>l st. serve sample_sha sample_parsers (at_second 1000) (PushReq sample_token [7]) (sample_relay d) =
    (Reply 200 (PostResp ''u''), l, st)"
  using push_accepts [OF assms(4), where sha = sample_sha and headers = sample_token and data = "[7]"
      and amb = "at_second 1000" and channel = "''tok''" and p = sample_parsers] assms(1,2,3,5)
  by (simp add: Limits_default_def ceiling_defs capacity_refusal_def has_route_def drop_expired_invites_def
      relay_controls_simps)

lemma empty_db_tables [simp]:
  "messages empty_db = []" "routes empty_db = []" "invites empty_db = []" "last_seq empty_db = 0"
  by (simp_all add: empty_db_def)

lemma empty_push:
  "\<exists>l st. serve sample_sha sample_parsers (at_second 1000) (PushReq sample_token [7]) (sample_relay empty_db) =
    (Reply 200 (PostResp ''u''), l, st)"
  by (rule push_on_sample [OF _ _ _ empty_relay])
     (simp_all add: empty_db_def slot_refusal_def find_invite_def drop_expired_invites_def)

lemma redeemed_find:
  "find_invite (route_key_for sample_sha ''tok'') (tables (store (sample_relay redeemed_db))) = Some redeemed_slot"
  by (simp add: find_invite_def redeemed_db_def redeemed_slot_def consume_def new_invite_def)

lemma redeemed_push:
  "\<exists>l st. serve sample_sha sample_parsers (at_second 1000) (PushReq sample_token [7]) (sample_relay redeemed_db) =
    (Reply 200 (PostResp ''u''), l, st)"
  by (rule push_on_sample [OF _ _ _ redeemed_relay])
     (simp_all add: redeemed_db_def empty_db_def slot_refusal_def find_invite_def drop_expired_invites_def
       redeemed_slot_def consume_def new_invite_def slot_admission_def)

subsection \<open>The theorems at these inputs\<close>

theorem relay_limits_witness:
  "length (queue (tables (store (sample_relay redeemed_db))) ''k'') \<le> 257 \<and>
   length (invites (tables (store (sample_relay redeemed_db)))) \<le> 256"
  using relay_limits [OF redeemed_relay, of "''k''"]
  by (simp add: Limits_default_def InviteLimits_default_def ceiling_defs default_defs)

theorem unauthorized_is_inert_witness:
  "serve sample_sha sample_parsers (at_second 1000) (PushReq sample_token [7])
     ((sample_relay redeemed_db)\<lparr>relay_token := Some ''tok''\<rparr>) =
   (Reply 401 (Code ''ERR_UNAUTHORIZED''), [], (sample_relay redeemed_db)\<lparr>relay_token := Some ''tok''\<rparr>)"
proof -
  have "\<not> auth_ok sample_sha sample_token (Some ''tok'')"
    by (simp add: auth_ok_def header_str_def sample_token_def ROUTE_TOKEN_HEADER_def INVITE_TICKET_HEADER_def)
  then show ?thesis
    using unauthorized_is_inert [of sample_sha "PushReq sample_token [7]"
        "(sample_relay redeemed_db)\<lparr>relay_token := Some ''tok''\<rparr>"]
    by (simp add: request_headers_def)
qed

theorem error_reply_inert_witness:
  "\<exists>l st. serve sample_sha sample_parsers (at_second 1000) (RedeemReq sample_token [1]) (sample_relay empty_db) =
     (Reply 404 (Code ''ERR_INVITE_NOT_FOUND''), l, st) \<and> store st = store (sample_relay empty_db)"
proof -
  obtain d where d: "conn (store (sample_relay empty_db)) = Mutex False d" "invites d = []"
    using sample_relay_fields(4,6) [of empty_db] empty_db_tables
    by (cases "conn (store (sample_relay empty_db))") auto
  have "\<exists>l st. serve sample_sha sample_parsers (at_second 1000) (RedeemReq sample_token [1]) (sample_relay empty_db) =
     (Reply 404 (Code ''ERR_INVITE_NOT_FOUND''), l, st)"
    by (simp add: serve_def app_def invite_redeem_def h_bind_def h_auth_def h_get_def h_guard_def h_return_def
        h_json_def sample_parsers_def sample_texts INVITE_REDEEM_BODY_CAP_def Let_def h_store_def run_store_def
        store_invite_redeem_def store_tx_def lock_def d invite_redeem_run redeem_refusal_def find_invite_def
        redeem_reply_def)
  then show ?thesis using error_reply_inert [OF empty_relay] by fastforce
qed

theorem push_succeeds_witness:
  "\<exists>l st. serve sample_sha sample_parsers (at_second 1000) (PushReq sample_token [7]) (sample_relay empty_db) =
    (Reply 200 (PostResp ''u''), l, st)"
  using push_succeeds [OF empty_relay, where sha = sample_sha and headers = sample_token and data = "[7]"
      and amb = "at_second 1000" and channel = "''tok''" and p = sample_parsers]
  by (simp add: Limits_default_def ceiling_defs capacity_refusal_def has_route_def drop_expired_invites_def
      relay_controls_simps empty_db_def slot_refusal_def find_invite_def)

theorem push_needs_ticket_witness:
  "\<exists>l st. serve sample_sha sample_parsers (at_second 1000) (PushReq sample_token [7]) (sample_relay redeemed_db) =
     (Reply 200 (PostResp ''u''), l, st) \<and>
   find_invite (route_key_for sample_sha ''tok'') (tables (store st)) = Some (redeemed_slot\<lparr>ticket_hash := None\<rparr>)"
proof -
  obtain l st where push: "serve sample_sha sample_parsers (at_second 1000) (PushReq sample_token [7])
      (sample_relay redeemed_db) = (Reply 200 (PostResp ''u''), l, st)"
    using redeemed_push by blast
  from push_needs_ticket [OF redeemed_relay this sample_token_simps(1) redeemed_find] push show ?thesis
    by (simp add: redeemed_slot_def consume_def new_invite_def)
qed

theorem push_then_pull_witness:
  "\<exists>l st. serve sample_sha sample_parsers (at_second 1000) (PushReq sample_token [7]) (sample_relay empty_db) =
     (Reply 200 (PostResp ''u''), l, st) \<and>
   fst (serve sample_sha sample_parsers (at_second 1001)
     (PullReq sample_token \<lparr>query_max = None, query_ack = Some ''lease''\<rparr>) st) = Reply 200 (PullResp [(''u'', [7])])"
proof -
  obtain l st where push: "serve sample_sha sample_parsers (at_second 1000) (PushReq sample_token [7])
      (sample_relay empty_db) = (Reply 200 (PostResp ''u''), l, st)"
    using empty_push by blast
  from push_then_pull [OF empty_relay this sample_token_simps(1) _ rtranclp.rtrancl_refl refl sample_token_simps(1),
      where amb' = "at_second 1001" and q = "\<lparr>query_max = None, query_ack = Some ''lease''\<rparr>"] push
  show ?thesis by (auto simp: queue_def empty_db_def)
qed

lemma sample_create_bucket:
  "fst (try_consume (invite_bucket_controls InviteLimits_default) t
     (bucket_new 0 (invite_bucket_controls InviteLimits_default)))"
  by (simp add: try_consume_def bucket_refill_def bucket_new_def invite_bucket_controls_def
      InviteLimits_default_def default_defs)

lemma sample_create_ready:
  "length [1::8 word] \<le> invite_create_body_cap (max_bundle_bytes (invite_limits (sample_relay empty_db)))"
  "\<not> blank (sha256_hex sample_sha ''c'')"
  by (simp add: invite_create_body_cap_def) code_simp

theorem publish_then_redeem_witness:
  "\<exists>x l st. serve sample_sha sample_parsers (at_second 1000) (CreateReq sample_token [1]) (sample_relay empty_db) =
     (Reply 200 x, l, st) \<and>
   fst (serve sample_sha sample_parsers (at_second 1001) (RedeemReq sample_token [1]) st) =
     Reply 200 (InviteRedeemResp ''AQ'' ''Ag'' (random_token_128 (replicate 16 0)))"
proof -
  have "\<exists>l st. serve sample_sha sample_parsers (at_second 1000) (CreateReq sample_token [1]) (sample_relay empty_db) =
    (Reply 200 (InviteCreateResp (random_token_128 (replicate 16 0))), l, st)"
    using create_accepts [OF empty_relay, where sha = sample_sha and headers = sample_token and data = "[1]"
      and amb = "at_second 1000" and p = sample_parsers and bun = "[1]" and sg = "[2]"] sample_create_bucket
      sample_create_ready
    by (simp add: sample_texts drop_expired_invites_def find_invite_def)
  then obtain x l st where create: "serve sample_sha sample_parsers (at_second 1000) (CreateReq sample_token [1])
      (sample_relay empty_db) = (Reply 200 x, l, st)"
    by blast
  from publish_then_redeem [OF empty_relay this sample_parsers_simps(1) rtranclp.rtrancl_refl refl,
      where headers' = sample_token and data' = "[1]" and amb' = "at_second 1001" and secret = "''c''"] create
  show ?thesis
    by (simp add: sample_texts INVITE_REDEEM_BODY_CAP_def trim_end_matches_def i64_sat_add_def usize_as_i64_small
        i64_min_def i64_max_def)
qed

theorem sweep_enforces_advertised_witness:
  "invites (tables (store (snd (snd (run_retention_sweep (at_second 9000) (sample_relay redeemed_db)))))) = []"
  using sweep_enforces_advertised [OF redeemed_relay, of "at_second 9000"]
  by (simp add: redeemed_db_def redeemed_slot_def consume_def new_invite_def)

theorem restart_forgets_only_rates_witness:
  "\<exists>l st evs. serve sample_sha sample_parsers (at_second 1000) (PushReq sample_token [7]) (sample_relay empty_db) =
     (Reply 200 (PostResp ''u''), l, st) \<and>
   main (sample_host empty_db\<lparr>open_file := (\<lambda>_. Some (close_store (store st))), start_ns := 9\<rparr>) no_env sample_cli =
     (evs, Some (st\<lparr>push_rates := Mutex False (\<lambda>_. None),
       invite_create_rate := Mutex False (bucket_new 9 (invite_bucket_controls (invite_limits st)))\<rparr>))"
proof -
  obtain l st where push: "serve sample_sha sample_parsers (at_second 1000) (PushReq sample_token [7])
      (sample_relay empty_db) = (Reply 200 (PostResp ''u''), l, st)"
    using empty_push by blast
  obtain evs where m: "main (sample_host empty_db) no_env sample_cli = (evs, Some (sample_relay empty_db))"
    using sample_relay_fields(1) by blast
  have "app_step\<^sup>*\<^sup>* (sample_relay empty_db) st"
    using serve_steps [of "sample_relay empty_db" sample_sha sample_parsers "at_second 1000" "PushReq sample_token [7]"]
    by (simp add: push)
  with restart_forgets_only_rates [OF m, of "sample_file empty_db" st 9] push show ?thesis
    by (auto simp: sample_host_def sample_file_def db_ok_def mail_ok_def slots_ok_def empty_db_def)
qed

text \<open>Two tenants: the slot of \<open>tok\<close>, redeemed, and the unknown invite \<open>i\<close>.\<close>

lemma two_keys: "route_key_for sample_sha ''i'' \<noteq> route_key_for sample_sha ''tok''"
  by code_simp

lemma redeem_key:
  "request_key sample_sha sample_parsers (RedeemReq sample_token [1]) = Some (route_key_for sample_sha ''i'')"
  by (simp add: request_key_def)

lemma sample_settings: "settings_of (sample_relay d) = settings_of (sample_relay d')"
  by (simp add: settings_of_def info_document_def)

theorem serve_refines_spec_witness:
  "\<exists>l st. serve sample_sha sample_parsers (at_second 1000) (PushReq sample_token [7]) (sample_relay empty_db) =
     (Reply 200 (PostResp ''u''), l, st) \<and>
   spec_serve (settings_of (sample_relay empty_db)) sample_sha sample_parsers (at_second 1000)
     (PushReq sample_token [7]) (service_of (sample_relay empty_db)) = (Reply 200 (PostResp ''u''), service_of st)"
proof -
  obtain l st where push: "serve sample_sha sample_parsers (at_second 1000) (PushReq sample_token [7])
      (sample_relay empty_db) = (Reply 200 (PostResp ''u''), l, st)"
    using empty_push by blast
  from serve_refines_spec [OF empty_relay _ _ _ this] push show ?thesis by simp
qed

theorem tenants_isolated_witness:
  "t_slot (tenant_of (route_key_for sample_sha ''tok'') (service_of (snd (snd
     (serve sample_sha sample_parsers (at_second 1000) (RedeemReq sample_token [1]) (sample_relay redeemed_db))))))
   = Some redeemed_slot"
proof -
  obtain r l st where s: "serve sample_sha sample_parsers (at_second 1000) (RedeemReq sample_token [1])
      (sample_relay redeemed_db) = (r, l, st)" by (rule prod_cases3)
  have "t_slot (tenant_of (route_key_for sample_sha ''tok'') (service_of (sample_relay redeemed_db))) = Some redeemed_slot"
    by (simp add: tenant_of_def service_of_def redeemed_find)
  moreover have "\<not> expiry redeemed_slot \<le> 1000"
    by (simp add: redeemed_slot_def consume_def new_invite_def)
  ultimately show ?thesis
    using tenants_isolated [OF redeemed_relay _ _ _ s, of "route_key_for sample_sha ''tok''"] two_keys s redeem_key
    by (auto simp: redeemed_db_def aged_def Let_def)
qed

theorem tenants_invisible_witness:
  "fst (serve sample_sha sample_parsers (at_second 1000) (RedeemReq sample_token [1]) (sample_relay empty_db)) =
   fst (serve sample_sha sample_parsers (at_second 1000) (RedeemReq sample_token [1]) (sample_relay redeemed_db))"
proof -
  obtain r1 l1 s1 r2 l2 s2 where
      s: "serve sample_sha sample_parsers (at_second 1000) (RedeemReq sample_token [1]) (sample_relay empty_db) = (r1, l1, s1)"
    "serve sample_sha sample_parsers (at_second 1000) (RedeemReq sample_token [1]) (sample_relay redeemed_db) = (r2, l2, s2)"
    by (metis prod_cases3)
  have slot: "slot_key redeemed_slot = route_key_for sample_sha ''tok''"
    by (simp add: redeemed_slot_def consume_def new_invite_def)
  have "tenant_of (route_key_for sample_sha ''i'') (service_of (sample_relay empty_db)) =
      tenant_of (route_key_for sample_sha ''i'') (service_of (sample_relay redeemed_db))"
    using two_keys by (simp add: tenant_of_def service_of_def queue_def find_invite_def redeemed_db_def slot)
  from tenants_invisible [OF empty_relay redeemed_relay sample_settings _ _ _ _ redeem_key this _ s] s
  show ?thesis by (simp add: gauges_def redeemed_db_def)
qed

theorem log_is_redacted_trail_witness:
  "\<exists>l st'. serve sample_sha sample_parsers (at_second 1000) (PushReq sample_token [7]) (sample_relay empty_db) =
      (Reply 200 (PostResp ''u''), l, st') \<and>
    outcome_events l = [Pushed (channel_log_id ''tok'') ''u'' 1] \<and> redacted (tables (store st'))"
proof -
  obtain l st' where run: "serve sample_sha sample_parsers (at_second 1000) (PushReq sample_token [7])
      (sample_relay empty_db) = (Reply 200 (PostResp ''u''), l, st')"
    using empty_push by blast
  have "redacted (tables (store (sample_relay empty_db)))" by (simp add: redacted_def)
  from log_is_redacted_trail [OF empty_relay this run] have
    "audited (log_id_of sample_parsers (PushReq sample_token [7])) (PushReq sample_token [7])
      (Reply 200 (PostResp ''u'')) (outcome_events l)" "redacted (tables (store st'))" by simp_all
  moreover have "log_id_of sample_parsers (PushReq sample_token [7]) = channel_log_id ''tok''"
    by (simp add: log_id_of_def secret_of_def)
  ultimately show ?thesis using run by (simp add: audited_def)
qed

end
