(* ===== verification/Tasks.thy ===== *)
theory Tasks imports Service begin

text \<open>
  The handlers of \<open>src/lib.rs\<close> as concurrent tasks. axum runs one task per request on a clone of
  \<open>AppState\<close>: the configuration is the task's own copy, the store and the buckets are shared
  behind mutexes. A task is cut at every access to what it shares: a store call, a gate, a
  pruning, a line of the log. Between two such points other tasks run. The sequential handlers
  of \<open>Handlers\<close> are the runs of these tasks without interference.
\<close>

subsection \<open>Tasks\<close>

text \<open>A constructor per atomic access, with what the task does next.\<close>

datatype 'r task =
  Answer 'r
| Emit log_event "'r task"
| StoreCall store_op faults "string + store_out \<Rightarrow> 'r task"
| PushGate ambient string string "response + unit \<Rightarrow> 'r task"
| CreateGate ambient "response + unit \<Rightarrow> 'r task"
| PruneBuckets "string list" "'r task"

definition remove_buckets :: "string list \<Rightarrow> AppState \<Rightarrow> AppState" where
  "remove_buckets ks = update_buckets (\<lambda>b. foldl (\<lambda>b key. b(key := None)) b ks)"

text \<open>One atomic step.\<close>

fun advance :: "'r task \<Rightarrow> AppState \<Rightarrow> 'r task \<times> log_event list \<times> AppState" where
  "advance (Answer r) st = (Answer r, [], st)"
| "advance (Emit e t) st = (t, [e], st)"
| "advance (StoreCall op fs k) st = (case exec op fs (store st) of (r, s) \<Rightarrow> (k r, [], st\<lparr>store := s\<rparr>))"
| "advance (PushGate amb key lid k) st = (case push_gate amb key lid st of (r, l, st') \<Rightarrow> (k r, l, st'))"
| "advance (CreateGate amb k) st = (case create_gate amb st of (r, l, st') \<Rightarrow> (k r, l, st'))"
| "advance (PruneBuckets ks t) st = (t, [], remove_buckets ks st)"

text \<open>All steps, one after the other.\<close>

primrec alone :: "'r task \<Rightarrow> AppState \<Rightarrow> 'r \<times> log_event list \<times> AppState" where
  "alone (Answer r) = (\<lambda>st. (r, [], st))"
| "alone (Emit e t) = (\<lambda>st. case alone t st of (r, l, st') \<Rightarrow> (r, e # l, st'))"
| "alone (StoreCall op fs k) = (\<lambda>st. case exec op fs (store st) of (x, s) \<Rightarrow> alone (k x) (st\<lparr>store := s\<rparr>))"
| "alone (PushGate amb key lid k) = (\<lambda>st. case push_gate amb key lid st of (x, l, st1) \<Rightarrow>
     (case alone (k x) st1 of (r, l', st') \<Rightarrow> (r, l @ l', st')))"
| "alone (CreateGate amb k) = (\<lambda>st. case create_gate amb st of (x, l, st1) \<Rightarrow>
     (case alone (k x) st1 of (r, l', st') \<Rightarrow> (r, l @ l', st')))"
| "alone (PruneBuckets ks t) = (\<lambda>st. alone t (remove_buckets ks st))"

subsection \<open>The pieces of the tasks\<close>

text \<open>Code that touches nothing shared runs on the task's own copy \<open>c\<close> of the state.\<close>

definition t_own :: "'a handler \<Rightarrow> AppState \<Rightarrow> ('a \<Rightarrow> response task) \<Rightarrow> response task" where
  "t_own m c k = (case fst (m c) of Inl r \<Rightarrow> Answer r | Inr x \<Rightarrow> k x)"

definition t_fail :: "nat \<Rightarrow> string \<Rightarrow> response task" where
  "t_fail n code = Answer (Reply n (Code code))"

text \<open>\<open>run_store\<close>: the error is logged by the task, after the call.\<close>

definition t_store :: "store_op \<Rightarrow> faults \<Rightarrow> (store_out \<Rightarrow> response task) \<Rightarrow> response task" where
  "t_store op fs k =
     StoreCall op fs (\<lambda>r. case r of Inl e \<Rightarrow> Emit (StoreError e) (t_fail 500 ''ERR_STORE'') | Inr out \<Rightarrow> k out)"

definition t_prune :: "AppState \<Rightarrow> SweepStats \<Rightarrow> 'r task \<Rightarrow> 'r task" where
  "t_prune c stats t =
     foldr Emit (map (\<lambda>(lid, n). RetentionExpired lid n (st_retention_ttl_secs (store c))) (expired_routes stats))
       (if removed_route_keys stats \<noteq> [] then PruneBuckets (removed_route_keys stats) t else t)"

definition t_gate :: "response task \<Rightarrow> response + unit \<Rightarrow> response task" where
  "t_gate t r = (case r of Inl refusal \<Rightarrow> Answer refusal | Inr _ \<Rightarrow> t)"

subsection \<open>The routes\<close>

text \<open>The store answers an operation with its own kind of outcome, so the last arm of each
  \<open>case\<close> on an outcome is not reached.\<close>

definition t_push_answer :: "AppState \<Rightarrow> string \<Rightarrow> string \<Rightarrow> string \<Rightarrow> nat \<Rightarrow> EnqueueOutcome \<Rightarrow> response task" where
  "t_push_answer c key lid mid len out =
     (case out of
        Accepted \<Rightarrow> Emit (Pushed lid mid len) (Answer (Reply 200 (PostResp mid)))
      | Overloaded d \<Rightarrow>
          Emit (QueueOverloaded d (max_queue_depth (app_limits c))) (t_fail 429 ''ERR_OVERLOADED'')
      | RouteCap n \<Rightarrow>
          Emit (RouteCapReached lid n (max_route_count (app_controls c)))
            (PruneBuckets [key] (t_fail 429 ''ERR_ROUTE_CAP''))
      | SlotRejected reason \<Rightarrow> Emit (InviteSlotRejected lid) (Answer (slot_reply reason)))"

definition t_enqueue :: "digest_fun \<Rightarrow> ambient \<Rightarrow> headers \<Rightarrow> bytes \<Rightarrow> string \<Rightarrow> AppState \<Rightarrow> string \<Rightarrow> string \<Rightarrow> response task" where
  "t_enqueue sha amb h data mid c key lid =
     t_store (OpEnqueue key lid mid data (now_unix_secs amb) (max_queue_depth (app_limits c))
         (max_route_count (app_controls c)) (push_ticket sha h)) (faults2 amb) (\<lambda>out.
       case out of
         OutEnqueue o' \<Rightarrow> t_push_answer c key lid mid (length data) o'
       | _ \<Rightarrow> t_fail 500 ''ERR_STORE'')"

definition push_task :: "digest_fun \<Rightarrow> ambient \<Rightarrow> headers \<Rightarrow> bytes \<Rightarrow> AppState \<Rightarrow> response task" where
  "push_task sha amb h data c =
     t_own (push_admit sha h data) c (\<lambda>channel.
     let mid = push_msg_id amb h; key = route_key_for sha channel; lid = channel_log_id channel;
         depth_cap = max_queue_depth (app_limits c); route_cap = max_route_count (app_controls c) in
     t_store (OpStatus key (now_unix_secs amb)) (faults1 amb) (\<lambda>out.
       case out of
         OutStatus status \<Rightarrow>
           t_prune c (status_sweep status)
             (if route_exists status \<and> depth_cap \<le> depth status then
                Emit (QueueOverloaded (depth status) depth_cap) (t_fail 429 ''ERR_OVERLOADED'')
              else if \<not> route_exists status \<and> route_cap \<le> live_routes status then
                Emit (RouteCapReached lid (live_routes status) route_cap) (t_fail 429 ''ERR_ROUTE_CAP'')
              else PushGate amb key lid (t_gate (t_enqueue sha amb h data mid c key lid)))
       | _ \<Rightarrow> t_fail 500 ''ERR_STORE''))"

text \<open>The tail shared by pulls and acknowledgements: prune what the sweep removed, and the
  bucket of a drained route.\<close>

definition t_drained :: "bool \<Rightarrow> string \<Rightarrow> 'r task \<Rightarrow> 'r task" where
  "t_drained drained key t = (if drained then PruneBuckets [key] t else t)"

definition t_pull_answer :: "string \<Rightarrow> StoredMsg list \<Rightarrow> response task" where
  "t_pull_answer lid items =
     (if items = [] then Answer (Reply 204 NoBody)
      else foldr Emit (map (\<lambda>(mid, b). Pulled lid mid (length b)) items) (Answer (Reply 200 (PullResp items))))"

definition pull_task :: "digest_fun \<Rightarrow> ambient \<Rightarrow> headers \<Rightarrow> PullQuery \<Rightarrow> AppState \<Rightarrow> response task" where
  "pull_task sha amb h q c =
     t_own (pull_admit sha h q) c (\<lambda>(channel, mx, mode).
     let key = route_key_for sha channel; lid = channel_log_id channel in
     t_store (OpPull key mx (max PULL_BUDGET_BYTES (max_body_bytes (app_limits c))) (now_unix_secs amb) mode)
         (faults1 amb) (\<lambda>out.
       case out of
         OutPull p \<Rightarrow>
           t_prune c (pull_sweep p) (t_drained (pull_drained p) key (t_pull_answer lid (pull_items p)))
       | _ \<Rightarrow> t_fail 500 ''ERR_STORE''))"

definition ack_admit :: "digest_fun \<Rightarrow> (bytes \<Rightarrow> string list option) \<Rightarrow> headers \<Rightarrow> bytes \<Rightarrow> (string \<times> string list) handler" where
  "ack_admit sha parse h data =
     h_bind (h_auth sha h) (\<lambda>_.
     h_bind (h_route_token h) (\<lambda>channel.
     h_bind (h_guard (ACK_BODY_CAP < length data) 413 ''ERR_TOO_LARGE'') (\<lambda>_.
     h_bind (h_json parse data ''ERR_BAD_ACK_BODY'') (\<lambda>ids.
     h_bind (h_guard (ids = [] \<or> MAX_ACK_IDS < length ids) 400 ''ERR_BAD_ACK_IDS'') (\<lambda>_.
     h_return (channel, ids))))))"

definition ack_task :: "digest_fun \<Rightarrow> (bytes \<Rightarrow> string list option) \<Rightarrow> ambient \<Rightarrow> headers \<Rightarrow> bytes \<Rightarrow> AppState \<Rightarrow> response task" where
  "ack_task sha parse amb h data c =
     t_own (ack_admit sha parse h data) c (\<lambda>(channel, ids).
     let key = route_key_for sha channel; lid = channel_log_id channel in
     t_store (OpAck key ids (now_unix_secs amb)) (faults1 amb) (\<lambda>out.
       case out of
         OutAck a \<Rightarrow>
           t_prune c (ack_sweep a) (t_drained (ack_drained a) key
             (Emit (Acknowledged lid (acked a)) (Answer (Reply 200 (AckResp (acked a))))))
       | _ \<Rightarrow> t_fail 500 ''ERR_STORE''))"

definition t_create_answer :: "string \<Rightarrow> int \<Rightarrow> string \<Rightarrow> nat \<Rightarrow> InviteCreateOutcome \<Rightarrow> response task" where
  "t_create_answer lid until token slot_cap out =
     (case out of
        Created \<Rightarrow> Emit (InviteCreated lid until) (Answer (Reply 200 (InviteCreateResp token)))
      | Duplicate \<Rightarrow> t_fail 409 ''ERR_INVITE_DUPLICATE''
      | CapFull n \<Rightarrow> Emit (InviteCapFull n slot_cap) (t_fail 429 ''ERR_INVITE_CAP_FULL''))"

definition create_admit :: "digest_fun \<Rightarrow> headers \<Rightarrow> bytes \<Rightarrow> InviteLimits handler" where
  "create_admit sha h data =
     h_bind (h_auth sha h) (\<lambda>_.
     h_bind (h_get invite_limits) (\<lambda>il.
     h_bind (h_guard (invite_create_body_cap (max_bundle_bytes il) < length data) 413 ''ERR_INVITE_TOO_LARGE'') (\<lambda>_.
     h_return il)))"

definition create_body :: "(bytes \<Rightarrow> InviteCreateReq option) \<Rightarrow> ambient \<Rightarrow> bytes \<Rightarrow> (InviteCreateReq \<times> bytes \<times> bytes \<times> int) handler" where
  "create_body parse amb data =
     h_bind (h_json parse data ''ERR_INVITE_BAD_BODY'') (\<lambda>req.
     h_bind (create_validate amb req) (\<lambda>(bun, sg, until). h_return (req, bun, sg, until)))"

definition create_task :: "digest_fun \<Rightarrow> (bytes \<Rightarrow> InviteCreateReq option) \<Rightarrow> ambient \<Rightarrow> headers \<Rightarrow> bytes \<Rightarrow> AppState \<Rightarrow> response task" where
  "create_task sha parse amb h data c =
     t_own (create_admit sha h data) c (\<lambda>il.
     CreateGate amb (t_gate (t_own (create_body parse amb data) c (\<lambda>(req, bun, sg, until).
     let slot = route_key_for sha (create_invite_id req); lid = channel_log_id (create_invite_id req);
         token = random_token_128 (uuid_bytes amb); slot_cap = max_slots il in
     t_store (OpCreate slot lid (create_cap_hash req) (sha256_hex sha token) bun sg until
         (now_unix_secs amb) slot_cap) (faults1 amb) (\<lambda>out.
       case out of
         OutCreate o' \<Rightarrow> t_create_answer lid until token slot_cap o'
       | _ \<Rightarrow> t_fail 500 ''ERR_STORE'')))))"

definition redeem_admit :: "digest_fun \<Rightarrow> (bytes \<Rightarrow> InviteRedeemReq option) \<Rightarrow> headers \<Rightarrow> bytes \<Rightarrow> InviteRedeemReq handler" where
  "redeem_admit sha parse h data =
     h_bind (h_auth sha h) (\<lambda>_.
     h_bind (h_guard (INVITE_REDEEM_BODY_CAP < length data) 413 ''ERR_TOO_LARGE'') (\<lambda>_.
     h_bind (h_json parse data ''ERR_INVITE_BAD_BODY'') (\<lambda>req.
     h_bind (h_guard (blank (redeem_invite_id req) \<or> blank (redeem_cap req)) 400 ''ERR_INVITE_BAD_BODY'') (\<lambda>_.
     h_return req))))"

definition redeem_task :: "digest_fun \<Rightarrow> (bytes \<Rightarrow> InviteRedeemReq option) \<Rightarrow> ambient \<Rightarrow> headers \<Rightarrow> bytes \<Rightarrow> AppState \<Rightarrow> response task" where
  "redeem_task sha parse amb h data c =
     t_own (redeem_admit sha parse h data) c (\<lambda>req.
     let slot = route_key_for sha (redeem_invite_id req); lid = channel_log_id (redeem_invite_id req);
         ticket = random_token_128 (uuid_bytes amb); presented = sha256_hex sha (redeem_cap req) in
     t_store (OpRedeem slot (now_unix_secs amb) (sha256_hex sha ticket) (ct_eq_secret sha presented))
         (faults1 amb) (\<lambda>out.
       case out of
         OutRedeem o' \<Rightarrow>
           (case o' of Redeemed bun sg \<Rightarrow> Emit (InviteRedeemed lid) | _ \<Rightarrow> id) (Answer (redeem_reply ticket o'))
       | _ \<Rightarrow> t_fail 500 ''ERR_STORE''))"

definition revoke_admit :: "digest_fun \<Rightarrow> (bytes \<Rightarrow> InviteRevokeReq option) \<Rightarrow> headers \<Rightarrow> bytes \<Rightarrow> InviteRevokeReq handler" where
  "revoke_admit sha parse h data =
     h_bind (h_auth sha h) (\<lambda>_.
     h_bind (h_guard (INVITE_REVOKE_BODY_CAP < length data) 413 ''ERR_TOO_LARGE'') (\<lambda>_.
     h_bind (h_json parse data ''ERR_INVITE_BAD_BODY'') (\<lambda>req.
     h_bind (h_guard (blank (revoke_invite_id req) \<or> blank (revoke_token req)) 400 ''ERR_INVITE_BAD_BODY'') (\<lambda>_.
     h_return req))))"

definition revoke_task :: "digest_fun \<Rightarrow> (bytes \<Rightarrow> InviteRevokeReq option) \<Rightarrow> ambient \<Rightarrow> headers \<Rightarrow> bytes \<Rightarrow> AppState \<Rightarrow> response task" where
  "revoke_task sha parse amb h data c =
     t_own (revoke_admit sha parse h data) c (\<lambda>req.
     let slot = route_key_for sha (revoke_invite_id req); lid = channel_log_id (revoke_invite_id req);
         presented = sha256_hex sha (revoke_token req) in
     t_store (OpRevoke slot (ct_eq_secret sha presented)) (faults1 amb) (\<lambda>out.
       case out of
         OutRevoke o' \<Rightarrow>
           (if o' = Revoked \<or> o' = AlreadyRevoked then Emit (InviteRevoked lid) else id)
             (Answer (revoke_reply o'))
       | _ \<Rightarrow> t_fail 500 ''ERR_STORE''))"

definition info_task :: "digest_fun \<Rightarrow> headers \<Rightarrow> AppState \<Rightarrow> response task" where
  "info_task sha h c = t_own (server_info_handler sha h) c Answer"

definition app_task :: "digest_fun \<Rightarrow> parsers \<Rightarrow> ambient \<Rightarrow> request \<Rightarrow> AppState \<Rightarrow> response task" where
  "app_task sha p amb req c =
     (case req of
        PushReq h b \<Rightarrow> push_task sha amb h b c
      | PullReq h q \<Rightarrow> pull_task sha amb h q c
      | AckReq h b \<Rightarrow> ack_task sha (parse_ack p) amb h b c
      | CreateReq h b \<Rightarrow> create_task sha (parse_create p) amb h b c
      | RedeemReq h b \<Rightarrow> redeem_task sha (parse_redeem p) amb h b c
      | RevokeReq h b \<Rightarrow> revoke_task sha (parse_revoke p) amb h b c
      | InfoReq h \<Rightarrow> info_task sha h c)"

text \<open>The background sweeper of \<open>main\<close>, one round.\<close>

definition sweep_task :: "ambient \<Rightarrow> AppState \<Rightarrow> SweepStats task" where
  "sweep_task amb c =
     StoreCall (OpSweep (now_unix_secs amb)) (faults1 amb) (\<lambda>r.
       case r of
         Inl e \<Rightarrow> Emit (StoreErrorSweep e) (Answer SweepStats_default)
       | Inr (OutSweep stats) \<Rightarrow> t_prune c stats (Answer stats)
       | Inr _ \<Rightarrow> Answer SweepStats_default)"

subsection \<open>A task alone is its handler\<close>

definition finished :: "(response + response) \<times> log_event list \<times> AppState \<Rightarrow> response \<times> log_event list \<times> AppState" where
  "finished = map_prod final id"

definition agrees :: "AppState \<Rightarrow> response task \<Rightarrow> response handler \<Rightarrow> bool" where
  "agrees c t m \<longleftrightarrow> (\<forall>st. config_of st = config_of c \<longrightarrow> alone t st = finished (m st))"

text \<open>Code that reads only the configuration answers alike on the shared state and on the copy.\<close>

definition own :: "AppState \<Rightarrow> 'a handler \<Rightarrow> bool" where
  "own c m \<longleftrightarrow> (\<forall>st. config_of st = config_of c \<longrightarrow> m st = (fst (m c), [], st))"

named_theorems own_rules
named_theorems agree_rules

lemma ownD: "own c m \<Longrightarrow> config_of st = config_of c \<Longrightarrow> m st = (fst (m c), [], st)"
  unfolding own_def by blast

lemma own_bind [own_rules]:
  assumes "own c m" and "\<And>x. own c (f x)"
  shows "own c (h_bind m f)"
  unfolding own_def
proof (intro allI impI)
  fix st assume c: "config_of st = config_of c"
  have m: "m st = (fst (m c), [], st)" "m c = (fst (m c), [], c)"
    using ownD [OF assms(1)] c by blast+
  show "h_bind m f st = (fst (h_bind m f c), [], st)"
  proof (cases "fst (m c)")
    case (Inl r)
    with m have "m st = (Inl r, [], st)" "m c = (Inl r, [], c)" by simp_all
    then show ?thesis by (simp add: h_run(5))
  next
    case (Inr x)
    with m have "m st = (Inr x, [], st)" "m c = (Inr x, [], c)" by simp_all
    moreover have "f x st = (fst (f x c), [], st)" by (rule ownD [OF assms(2) c])
    ultimately show ?thesis by (simp add: h_run(6))
  qed
qed

lemma own_if [own_rules]: "own c m \<Longrightarrow> own c m' \<Longrightarrow> own c (if b then m else m')"
  by simp

lemma own_basic [own_rules]: "own c (h_return x)" "own c (h_reply n q)" "own c (h_guard b n code)"
  by (simp_all add: own_def h_run h_guard_def)

lemma own_get [own_rules]: "own c (h_get app_limits)" "own c (h_get invite_limits)" "own c (h_get relay_token)"
  by (simp_all add: own_def h_run config_of_def)

lemma own_parts [own_rules]:
  "own c (h_auth sha h)" "own c (h_route_token h)" "own c (h_json parse data code)"
proof -
  show "own c (h_auth sha h)" unfolding h_auth_def by (intro own_rules)
  show "own c (h_route_token h)"
    unfolding h_route_token_def by (cases "resolve_route_token h") (auto intro: own_rules)
  show "own c (h_json parse data code)"
    unfolding h_json_def by (cases "parse data") (auto intro: own_rules)
qed

lemma own_admit [own_rules]:
  "own c (push_admit sha h data)" "own c (pull_admit sha h q)" "own c (ack_admit sha parse_a h data)"
  "own c (create_admit sha h data)" "own c (redeem_admit sha parse_r h data)" "own c (revoke_admit sha parse_v h data)"
proof -
  show "own c (pull_admit sha h q)"
    unfolding pull_admit_def Let_def by (cases "query_ack q") (auto intro!: own_rules)
qed (unfold push_admit_def ack_admit_def create_admit_def redeem_admit_def revoke_admit_def; intro own_rules)+

lemma own_validate [own_rules]: "own c (create_validate amb req)"
  unfolding create_validate_def Let_def
  by (cases "b64_decode (create_bundle_b64 req)"; cases "b64_decode (create_sig_b64 req)")
     (auto intro!: own_rules)

lemma own_body [own_rules]: "own c (create_body parse amb data)"
  unfolding create_body_def by (auto intro!: own_rules split: prod.split)

lemma own_info [own_rules]: "own c (server_info_handler sha h)"
  by (auto simp: own_def server_info_handler_def config_of_def info_document_def)

text \<open>Handlers up to the association of their steps.\<close>

lemma h_bind_reply: "h_bind (h_reply n q) k = h_reply n q"
  by (simp add: h_bind_def h_reply_def fun_eq_iff)

lemma h_bind_ret: "h_bind (h_return x) k = k x"
  by (simp add: h_bind_def h_return_def fun_eq_iff split: prod.split)

lemma h_bind_if: "h_bind (if b then m else m') g = (if b then h_bind m g else h_bind m' g)"
  by simp

lemmas h_bind_laws = h_bind_assoc h_bind_reply h_bind_ret h_bind_if

lemma finished_bind:
  "m st = (Inr x, l, st') \<Longrightarrow> finished (h_bind m f st) = (case finished (f x st') of (r, l', s) \<Rightarrow> (r, l @ l', s))"
  "m st = (Inl r, l, st') \<Longrightarrow> finished (h_bind m f st) = (r, l, st')"
  by (auto simp: finished_def h_bind_def split: prod.split)

lemma agrees_basic [agree_rules]:
  "agrees c (Answer r) (h_return r)" "agrees c (t_fail n code) (h_reply n (Code code))"
  "agrees c (t_fail n code) (h_return (Reply n (Code code)))"
  "agrees c t m \<Longrightarrow> agrees c t' m' \<Longrightarrow> agrees c (if b then t else t') (if b then m else m')"
  by (simp_all add: agrees_def finished_def h_run t_fail_def)

lemma agrees_emit [agree_rules]: "agrees c t m \<Longrightarrow> agrees c (Emit e t) (h_bind (h_info e) (\<lambda>_. m))"
  by (auto simp: agrees_def finished_bind(1) [OF h_run(3)] split: prod.split)

lemma agrees_own [agree_rules]:
  assumes "own c m" and "\<And>x. agrees c (k x) (f x)"
  shows "agrees c (t_own m c k) (h_bind m f)"
  unfolding agrees_def
proof (intro allI impI)
  fix st assume c: "config_of st = config_of c"
  then have m: "m st = (fst (m c), [], st)" by (rule ownD [OF assms(1)])
  show "alone (t_own m c k) st = finished (h_bind m f st)"
  proof (cases "fst (m c)")
    case (Inl r)
    with m have "m st = (Inl r, [], st)" by simp
    from finished_bind(2) [of m, OF this] show ?thesis by (simp add: t_own_def Inl)
  next
    case (Inr x)
    with m have "m st = (Inr x, [], st)" by simp
    from finished_bind(1) [of m, OF this] show ?thesis
      using assms(2) [of x] c by (simp add: t_own_def Inr agrees_def split: prod.split)
  qed
qed

lemma agrees_get [agree_rules]:
  "agrees c t (f (app_limits c)) \<Longrightarrow> agrees c t (h_bind (h_get app_limits) f)"
  "agrees c t (g (app_controls c)) \<Longrightarrow> agrees c t (h_bind (h_get app_controls) g)"
  "agrees c t (i (invite_limits c)) \<Longrightarrow> agrees c t (h_bind (h_get invite_limits) i)"
  by (auto simp: agrees_def finished_bind(1) [OF h_run(4)] config_of_def split: prod.split)

lemma agrees_store [agree_rules]:
  assumes "\<And>s. exec op fs s = out_as C (F s)" and "\<And>x. agrees c (k (C x)) (f x)"
  shows "agrees c (t_store op fs k) (h_bind (h_store F) f)"
  unfolding agrees_def
proof (intro allI impI)
  fix st assume c: "config_of st = config_of c"
  obtain r s where F: "F (store st) = (r, s)" by (cases "F (store st)")
  then have ex: "exec op fs (store st) = (map_sum id C r, s)" by (simp add: assms(1) out_as_def)
  have c': "config_of (st\<lparr>store := s\<rparr>) = config_of c"
    using c exec_settings [of op fs "store st"] by (simp add: ex config_of_def)
  show "alone (t_store op fs k) st = finished (h_bind (h_store F) f st)"
  proof (cases r)
    case (Inl e)
    then have "h_store F st = (Inl (Reply 500 (Code ''ERR_STORE'')), [StoreError e], st\<lparr>store := s\<rparr>)"
      using F by (simp add: h_store_def run_store_def)
    from finished_bind(2) [of "h_store F", OF this] show ?thesis using ex Inl by (simp add: t_store_def t_fail_def)
  next
    case (Inr x)
    then have "h_store F st = (Inr x, [], st\<lparr>store := s\<rparr>)"
      using F by (simp add: h_store_def run_store_def)
    from finished_bind(1) [of "h_store F", OF this] show ?thesis
      using ex Inr assms(2) [of x] c' by (simp add: t_store_def agrees_def split: prod.split)
  qed
qed

lemma alone_emits:
  "alone (foldr Emit es t) st = (case alone t st of (r, l, st') \<Rightarrow> (r, es @ l, st'))"
  by (induction es) (simp_all split: prod.split)

lemma config_step: "sound c m \<Longrightarrow> config_of st = config_of c \<Longrightarrow> config_of (snd (snd (m st))) = config_of c"
  unfolding sound_def using steps_config by metis

lemma config_remove [simp]: "config_of (remove_buckets ks st) = config_of st"
  by (simp add: remove_buckets_def update_buckets_def config_of_def split: option.split)

lemma agrees_prune [agree_rules]:
  assumes "agrees c t m"
  shows "agrees c (t_prune c stats t) (h_bind (h_prune stats) (\<lambda>_. m))"
  unfolding agrees_def
proof (intro allI impI)
  fix st assume c: "config_of st = config_of c"
  let ?g = "\<lambda>(lid, n). RetentionExpired lid n (st_retention_ttl_secs (store c))"
  let ?st = "if removed_route_keys stats \<noteq> [] then remove_buckets (removed_route_keys stats) st else st"
  have "h_prune stats st = (Inr (), map ?g (expired_routes stats), ?st)"
    using c by (simp add: h_prune_def log_and_prune_sweep_def remove_buckets_def config_of_def)
  from finished_bind(1) [of "h_prune stats", OF this]
  have "finished (h_bind (h_prune stats) (\<lambda>_. m) st) =
      (case finished (m ?st) of (r, l, s) \<Rightarrow> (r, map ?g (expired_routes stats) @ l, s))" .
  moreover have "alone t ?st = finished (m ?st)" using assms c by (simp add: agrees_def)
  moreover have "alone (t_prune c stats t) st =
      (case alone t ?st of (r, l, s) \<Rightarrow> (r, map ?g (expired_routes stats) @ l, s))"
    by (simp add: t_prune_def alone_emits)
  ultimately show "alone (t_prune c stats t) st = finished (h_bind (h_prune stats) (\<lambda>_. m) st)"
    by (simp only:)
qed

lemma agrees_drained [agree_rules]:
  assumes "agrees c t m"
  shows "agrees c (t_drained d key t) (h_bind (if d then h_drop_bucket key else h_return ()) (\<lambda>_. m))"
    and "agrees c (PruneBuckets [key] t) (h_bind (h_drop_bucket key) (\<lambda>_. m))"
proof -
  have drop: "h_drop_bucket key st = (Inr (), [], remove_buckets [key] st)" for st
    by (simp add: h_drop_bucket_def drop_rate_bucket_def remove_buckets_def)
  show two: "agrees c (PruneBuckets [key] t) (h_bind (h_drop_bucket key) (\<lambda>_. m))"
    using assms by (auto simp: agrees_def finished_bind(1) [of "h_drop_bucket key", OF drop] split: prod.split)
  show "agrees c (t_drained d key t) (h_bind (if d then h_drop_bucket key else h_return ()) (\<lambda>_. m))"
    using two assms by (simp add: t_drained_def h_bind_laws)
qed

lemma agrees_gates [agree_rules]:
  assumes "agrees c t m"
  shows "agrees c (PushGate amb key lid (t_gate t)) (h_bind (push_gate amb key lid) (\<lambda>_. m))"
    and "agrees c (CreateGate amb (t_gate t)) (h_bind (create_gate amb) (\<lambda>_. m))"
proof -
  have gate: "(case g st of (x, l, st1) \<Rightarrow> case alone (t_gate t x) st1 of (r, l', st') \<Rightarrow> (r, l @ l', st')) =
      finished (h_bind g (\<lambda>_. m) st)" if "sound c g" and c: "config_of st = config_of c" for g st
  proof -
    obtain x l st1 where g: "g st = (x, l, st1)" by (cases "g st")
    with config_step [OF that] have "config_of st1 = config_of c" by simp
    with assms show ?thesis
      using finished_bind [of g st] g by (cases x) (auto simp: agrees_def t_gate_def split: prod.split)
  qed
  show "agrees c (PushGate amb key lid (t_gate t)) (h_bind (push_gate amb key lid) (\<lambda>_. m))"
    "agrees c (CreateGate amb (t_gate t)) (h_bind (create_gate amb) (\<lambda>_. m))"
    using gate [OF sound_gates(1)] gate [OF sound_gates(2)] by (simp_all add: agrees_def)
qed

text \<open>The routes, one by one.\<close>

lemma exec_as:
  "exec (OpStatus k now) fs s = out_as OutStatus (store_route_status k now fs s)"
  "exec (OpCreate k lid ch rh bun sg until now cap) fs s =
     out_as OutCreate (store_invite_create k lid ch rh bun sg until now cap fs s)"
  "exec (OpRedeem k now th verify) fs s = out_as OutRedeem (store_invite_redeem k now th verify fs s)"
  "exec (OpRevoke k verify) fs s = out_as OutRevoke (store_invite_revoke k verify fs s)"
  "exec (OpEnqueue k lid mid b now D R ticket) fs s = out_as OutEnqueue (store_enqueue k lid mid b now D R ticket fs s)"
  "exec (OpPull k mx mb now mode) fs s = out_as OutPull (store_pull k mx mb now mode fs s)"
  "exec (OpAck k ids now) fs s = out_as OutAck (store_ack k ids now fs s)"
  by (simp_all add: exec_def)

lemma agrees_push: "agrees c (push_task sha amb h b c) (push_message sha amb h b)"
proof -
  have answer: "agrees c (t_push_answer c key lid mid n out) (push_answer key lid mid n out)" for key lid mid n out
    unfolding push_answer_def t_push_answer_def
    by (cases out) (auto intro!: agree_rules)
  have enqueue: "agrees c (t_enqueue sha amb h b mid c key lid)
      (h_bind (push_enqueue sha amb h b key lid mid) (\<lambda>out. push_answer key lid mid (length b) out))" for key lid mid
    unfolding t_enqueue_def push_enqueue_def h_bind_laws
    by (rule agree_rules answer | simp only: exec_as store_out.case)+
  show ?thesis
    unfolding push_task_def push_message_def push_status_def Let_def h_bind_laws
    by (rule agree_rules own_rules enqueue | simp only: exec_as store_out.case)+
qed

lemma agrees_pull: "agrees c (pull_task sha amb h q c) (pull_message sha amb h q)"
proof -
  have answer: "agrees c (t_pull_answer lid items) (pull_answer_items lid items)" for lid items
    by (auto simp: agrees_def t_pull_answer_def pull_answer_items_def finished_def alone_emits)
  show ?thesis
    unfolding pull_task_def pull_message_def pull_store_def Let_def h_bind_assoc case_prod_beta
    by (rule agree_rules own_rules answer | simp only: exec_as store_out.case)+
qed

lemma agrees_ack: "agrees c (ack_task sha parse amb h b c) (ack_messages sha parse amb h b)"
proof -
  have split: "ack_messages sha parse amb h b = h_bind (ack_admit sha parse h b) (\<lambda>(channel, ids).
      let key = route_key_for sha channel; lid = channel_log_id channel in
      h_bind (h_store (store_ack key ids (now_unix_secs amb) (faults1 amb))) (\<lambda>out.
      h_bind (h_prune (ack_sweep out)) (\<lambda>_.
      h_bind (if ack_drained out then h_drop_bucket key else h_return ()) (\<lambda>_.
      h_bind (h_info (Acknowledged lid (acked out))) (\<lambda>_. h_return (Reply 200 (AckResp (acked out))))))))"
    by (simp add: ack_messages_def ack_admit_def h_bind_laws)
  show ?thesis
    unfolding ack_task_def split Let_def case_prod_beta
    by (rule agree_rules own_rules | simp only: exec_as store_out.case)+
qed

lemma agrees_create: "agrees c (create_task sha parse amb h b c) (invite_create sha parse amb h b)"
proof -
  have answer: "agrees c (t_create_answer lid until token n out) (create_answer lid until token n out)"
    for lid until token n out
    unfolding create_answer_def t_create_answer_def
    by (cases out) (auto intro!: agree_rules)
  have split: "invite_create sha parse amb h b =
      h_bind (create_admit sha h b) (\<lambda>il. h_bind (create_gate amb) (\<lambda>_.
      h_bind (create_body parse amb b) (\<lambda>(req, bun, sg, until).
      let slot = route_key_for sha (create_invite_id req); lid = channel_log_id (create_invite_id req);
          token = random_token_128 (uuid_bytes amb) in
      h_bind (h_store (store_invite_create slot lid (create_cap_hash req) (sha256_hex sha token)
        bun sg until (now_unix_secs amb) (max_slots il) (faults1 amb)))
      (create_answer lid until token (max_slots il)))))"
    by (simp add: invite_create_def create_admit_def create_body_def h_bind_laws split_def)
  show ?thesis
    unfolding create_task_def split Let_def split_def
    by (rule agree_rules own_rules answer | simp only: exec_as store_out.case)+
qed

lemma agrees_redeem: "agrees c (redeem_task sha parse amb h b c) (invite_redeem sha parse amb h b)"
proof -
  have answer: "agrees c ((case out of Redeemed bun sg \<Rightarrow> Emit (InviteRedeemed lid) | _ \<Rightarrow> id) (Answer r))
      (h_bind (case out of Redeemed bun sg \<Rightarrow> h_info (InviteRedeemed lid) | _ \<Rightarrow> h_return ()) (\<lambda>_. h_return r))"
    for out lid r
    by (cases out) (auto intro: agree_rules simp: h_bind_ret)
  have split: "invite_redeem sha parse amb h b = h_bind (redeem_admit sha parse h b) (\<lambda>req.
      let slot = route_key_for sha (redeem_invite_id req); lid = channel_log_id (redeem_invite_id req);
          ticket = random_token_128 (uuid_bytes amb); presented = sha256_hex sha (redeem_cap req) in
      h_bind (h_store (store_invite_redeem slot (now_unix_secs amb) (sha256_hex sha ticket)
               (ct_eq_secret sha presented) (faults1 amb))) (\<lambda>out.
      h_bind (case out of Redeemed bun sg \<Rightarrow> h_info (InviteRedeemed lid) | _ \<Rightarrow> h_return ()) (\<lambda>_.
      h_return (redeem_reply ticket out))))"
    by (simp add: invite_redeem_def redeem_admit_def h_bind_laws)
  show ?thesis
    unfolding redeem_task_def split Let_def
    by (rule agree_rules own_rules answer | simp only: exec_as store_out.case)+
qed

lemma agrees_revoke: "agrees c (revoke_task sha parse amb h b c) (invite_revoke sha parse amb h b)"
proof -
  have answer: "agrees c ((if q then Emit e else id) (Answer r))
      (h_bind (if q then h_info e else h_return ()) (\<lambda>_. h_return r))" for q e r
    by (auto intro: agree_rules simp: h_bind_ret)
  have split: "invite_revoke sha parse amb h b = h_bind (revoke_admit sha parse h b) (\<lambda>req.
      let slot = route_key_for sha (revoke_invite_id req); lid = channel_log_id (revoke_invite_id req);
          presented = sha256_hex sha (revoke_token req) in
      h_bind (h_store (store_invite_revoke slot (ct_eq_secret sha presented) (faults1 amb))) (\<lambda>out.
      h_bind (if out = Revoked \<or> out = AlreadyRevoked then h_info (InviteRevoked lid) else h_return ()) (\<lambda>_.
      h_return (revoke_reply out))))"
    by (simp add: invite_revoke_def revoke_admit_def h_bind_laws)
  show ?thesis
    unfolding revoke_task_def split Let_def
    by (rule agree_rules own_rules answer | simp only: exec_as store_out.case)+
qed

lemma agrees_info: "agrees c (info_task sha h c) (server_info_handler sha h)"
proof -
  have "h_bind m h_return = m" for m :: "response handler"
    by (auto simp: h_bind_def h_return_def fun_eq_iff split: prod.split sum.split)
  moreover have "agrees c (t_own (server_info_handler sha h) c Answer) (h_bind (server_info_handler sha h) h_return)"
    by (intro agree_rules own_rules)
  ultimately show ?thesis by (simp add: info_task_def)
qed

lemma task_alone:
  assumes "config_of st = config_of c"
  shows "alone (app_task sha p amb req c) st = serve sha p amb req st"
proof -
  have "agrees c (app_task sha p amb req c) (app sha p amb req)"
    by (cases req) (simp_all add: app_task_def app_def agrees_push agrees_pull agrees_ack agrees_create
        agrees_redeem agrees_revoke agrees_info)
  then show ?thesis
    using assms by (auto simp: agrees_def serve_def finished_def split: prod.split sum.split)
qed

lemma sweep_alone:
  assumes "config_of st = config_of c"
  shows "alone (sweep_task amb c) st = run_retention_sweep amb st"
proof -
  obtain r s where run: "store_retention_sweep (now_unix_secs amb) (faults1 amb) (store st) = (r, s)"
    by (cases "store_retention_sweep (now_unix_secs amb) (faults1 amb) (store st)")
  then have "exec (OpSweep (now_unix_secs amb)) (faults1 amb) (store st) = (map_sum id OutSweep r, s)"
    by (simp add: exec_def out_as_def)
  then show ?thesis
    using assms exec_settings [of "OpSweep (now_unix_secs amb)" "faults1 amb" "store st"]
    by (cases r)
       (auto simp: sweep_task_def run_retention_sweep_def run t_prune_def alone_emits log_and_prune_sweep_def
         remove_buckets_def config_of_def)
qed

end
