(* ===== verification/Pool.thy ===== *)
theory Pool imports Tasks begin

text \<open>
  The running server: a pool of tasks on one shared state. Requests arrive at any time, the
  sweeper comes due at any time, the scheduler runs any task for one atomic step, and a client
  may go away, whereupon axum drops its handler where it waits. An execution is a list of such
  events, so a theorem about all lists holds for every interleaving.
\<close>

subsection \<open>The pool\<close>

datatype job =
  Client request ambient "response task"
| Lost request ambient "response task"
| Sweeper "SweepStats task"

record pool =
  shared :: AppState
  jobs :: "job list"
  trail :: "log_event list"

datatype event =
  Arrive request ambient
| SweepDue ambient
| Run nat
| Drop nat

fun job_step :: "job \<Rightarrow> AppState \<Rightarrow> job \<times> log_event list \<times> AppState" where
  "job_step (Client req amb t) st = (case advance t st of (t', l, st') \<Rightarrow> (Client req amb t', l, st'))"
| "job_step (Lost req amb t) st = (Lost req amb t, [], st)"
| "job_step (Sweeper t) st = (case advance t st of (t', l, st') \<Rightarrow> (Sweeper t', l, st'))"

text \<open>A handler that has answered cannot be dropped any more. A store call that is under way on the
  blocking pool completes when its handler is dropped: it has run before the drop.\<close>

fun drop_job :: "job \<Rightarrow> job" where
  "drop_job (Client req amb (Answer r)) = Client req amb (Answer r)"
| "drop_job (Client req amb t) = Lost req amb t"
| "drop_job j = j"

text \<open>A task starts with a clone of the state, for its configuration.\<close>

fun pool_step :: "digest_fun \<Rightarrow> parsers \<Rightarrow> event \<Rightarrow> pool \<Rightarrow> pool" where
  "pool_step sha p (Arrive req amb) P =
     P\<lparr>jobs := jobs P @ [Client req amb (app_task sha p amb req (shared P))]\<rparr>"
| "pool_step sha p (SweepDue amb) P = P\<lparr>jobs := jobs P @ [Sweeper (sweep_task amb (shared P))]\<rparr>"
| "pool_step sha p (Run i) P =
     (if i < length (jobs P)
      then case job_step (jobs P ! i) (shared P) of
          (j, l, st) \<Rightarrow> P\<lparr>shared := st, jobs := (jobs P)[i := j], trail := trail P @ l\<rparr>
      else P)"
| "pool_step sha p (Drop i) P =
     (if i < length (jobs P) then P\<lparr>jobs := (jobs P)[i := drop_job (jobs P ! i)]\<rparr> else P)"

abbreviation execute_pool :: "digest_fun \<Rightarrow> parsers \<Rightarrow> event list \<Rightarrow> pool \<Rightarrow> pool" where
  "execute_pool sha p \<equiv> run_steps (pool_step sha p)"

text \<open>The server when it starts to listen.\<close>

definition idle :: "AppState \<Rightarrow> pool" where
  "idle st = \<lparr>shared = st, jobs = [], trail = []\<rparr>"

subsection \<open>Tasks end\<close>

definition answered :: "'r task \<Rightarrow> bool" where
  "answered t \<longleftrightarrow> (case t of Answer r \<Rightarrow> True | _ \<Rightarrow> False)"

lemma answered_simps [simp]:
  "answered (Answer r)" "\<not> answered (Emit e t)" "\<not> answered (StoreCall op fs k)"
  "\<not> answered (PushGate amb key lid g)" "\<not> answered (CreateGate amb g)" "\<not> answered (PruneBuckets ks t)"
  by (simp_all add: answered_def)

definition task_next :: "('r task \<times> 'r task) set" where
  "task_next = {(t', t). \<not> answered t \<and> (\<exists>st. t' = fst (advance t st))}"

lemma task_next_acc: "t \<in> Wellfounded.acc task_next"
proof (induction t)
  case (StoreCall op fs k)
  show ?case
    by (rule accI) (use StoreCall in \<open>auto simp: task_next_def case_prod_beta\<close>)
next
  case (PushGate amb key lid k)
  show ?case
    by (rule accI) (use PushGate in \<open>auto simp: task_next_def case_prod_beta\<close>)
next
  case (CreateGate amb k)
  show ?case
    by (rule accI) (use CreateGate in \<open>auto simp: task_next_def case_prod_beta\<close>)
next
  case (Emit e t)
  show ?case
    by (rule accI) (use Emit in \<open>auto simp: task_next_def\<close>)
next
  case (PruneBuckets ks t)
  show ?case
    by (rule accI) (use PruneBuckets in \<open>auto simp: task_next_def\<close>)
next
  case (Answer r)
  show ?case
    by (rule accI) (simp add: task_next_def)
qed

lemma wf_task_next: "wf task_next"
  by (rule acc_wfI) (simp add: task_next_acc)

lemma drop_job_cases: "drop_job (Client req amb t) = (if answered t then Client req amb t else Lost req amb t)"
  by (cases t) simp_all

subsection \<open>Requests one at a time\<close>

lemma alone_advance:
  "alone t st = (case advance t st of (t1, l1, st1) \<Rightarrow> case alone t1 st1 of (r, l, s) \<Rightarrow> (r, l1 @ l, s))"
  by (cases t) (simp_all split: prod.split)

lemma run_alone:
  assumes "i < length (jobs P)" and "jobs P ! i = Client req amb t" and "alone t (shared P) = (r, l, st)"
  shows "\<exists>n. execute_pool sha p (replicate n (Run i)) P =
    P\<lparr>shared := st, jobs := (jobs P)[i := Client req amb (Answer r)], trail := trail P @ l\<rparr>"
  using wf_task_next assms
proof (induction t arbitrary: P l rule: wf_induct_rule)
  case (less t)
  show ?case
  proof (cases "answered t")
    case True
    then obtain x where t: "t = Answer x" by (cases t) simp_all
    then have "(jobs P)[i := Client req amb (Answer r)] = jobs P"
      using less.prems(2,3) by (metis alone.simps(1) list_update_id prod.inject)
    then show ?thesis using less.prems(3) t by (intro exI [of _ 0]) simp
  next
    case False
    obtain t1 l1 st1 where adv: "advance t (shared P) = (t1, l1, st1)" by (cases "advance t (shared P)")
    obtain l2 where alone1: "alone t1 st1 = (r, l2, st)" and l: "l = l1 @ l2"
      using less.prems(3) by (subst (asm) alone_advance) (auto simp: adv split: prod.splits)
    let ?P = "P\<lparr>shared := st1, jobs := (jobs P)[i := Client req amb t1], trail := trail P @ l1\<rparr>"
    have step: "pool_step sha p (Run i) P = ?P" using less.prems(1,2) adv by simp
    have "(t1, t) \<in> task_next" using False adv by (auto simp: task_next_def intro!: exI [of _ "shared P"])
    then obtain n where "execute_pool sha p (replicate n (Run i)) ?P =
        ?P\<lparr>shared := st, jobs := (jobs ?P)[i := Client req amb (Answer r)], trail := trail ?P @ l2\<rparr>"
      using less.IH [of t1 ?P l2] less.prems(1) alone1 by auto
    then show ?thesis using step l by (intro exI [of _ "Suc n"]) simp
  qed
qed

lemma run_request:
  "\<exists>n. case serve sha p amb req (shared P) of (r, l, st) \<Rightarrow>
     execute_pool sha p (Arrive req amb # replicate n (Run (length (jobs P)))) P =
     P\<lparr>shared := st, jobs := jobs P @ [Client req amb (Answer r)], trail := trail P @ l\<rparr>"
proof -
  obtain r l st where s: "serve sha p amb req (shared P) = (r, l, st)" by (cases "serve sha p amb req (shared P)")
  let ?P = "pool_step sha p (Arrive req amb) P"
  have "alone (app_task sha p amb req (shared P)) (shared ?P) = (r, l, st)"
    by (simp add: task_alone s)
  then have "\<exists>n. execute_pool sha p (replicate n (Run (length (jobs P)))) ?P =
    ?P\<lparr>shared := st, jobs := (jobs ?P)[length (jobs P) := Client req amb (Answer r)], trail := trail ?P @ l\<rparr>"
    by (intro run_alone) simp_all
  then show ?thesis by (simp add: s)
qed

text \<open>
  The concurrent server extends the sequential one. A request that arrives in any pool and
  is run without interference is answered, logs and changes the shared state exactly as
  \<open>serve\<close> says, so every theorem on \<open>serve\<close> is about the schedules in which requests do not
  overlap.
\<close>

lemma serial_run:
  "\<exists>n. case serve sha p amb req (shared P) of (r, l, st) \<Rightarrow>
     execute_pool sha p (Arrive req amb # replicate n (Run (length (jobs P)))) P =
     P\<lparr>shared := st, jobs := jobs P @ [Client req amb (Answer r)], trail := trail P @ l\<rparr>"
  by (rule run_request)

end
