(* ===== verification/Concurrent.thy ===== *)
theory Concurrent imports Pool Contract begin

text \<open>
  What holds when requests overlap. The store operations of a task stay within the caps of its
  configuration and its answers within the table of its route, wherever it is cut; so the shared
  state of every execution is one that the atomic steps reach, and every reply is in the table
  of its route.
\<close>

subsection \<open>What holds at every access of a task\<close>

text \<open>The refusals of the two gates.\<close>

definition gate_result :: "response + unit \<Rightarrow> bool" where
  "gate_result r \<longleftrightarrow> (case r of
     Inl x \<Rightarrow> x \<in> {Reply 500 (Code ''ERR_LOCK_POISON''), Reply 429 (Code ''ERR_RATE_LIMITED'')} | Inr _ \<Rightarrow> True)"

lemma gate_results: "gate_result (fst (push_gate amb key lid st))" "gate_result (fst (create_gate amb st))"
  by (simp_all add: gate_result_def push_gate_def create_gate_def Let_def split: option.split prod.split)

text \<open>All store operations of a task satisfy \<open>W\<close>, and all its answers \<open>R\<close>.\<close>

primrec keeps_to :: "(store_op \<Rightarrow> bool) \<Rightarrow> ('r \<Rightarrow> bool) \<Rightarrow> 'r task \<Rightarrow> bool" where
  "keeps_to W R (Answer r) = R r"
| "keeps_to W R (Emit e t) = keeps_to W R t"
| "keeps_to W R (StoreCall op fs k) = (W op \<and> (\<forall>x. keeps_to W R (k x)))"
| "keeps_to W R (PushGate amb key lid k) = (\<forall>x. gate_result x \<longrightarrow> keeps_to W R (k x))"
| "keeps_to W R (CreateGate amb k) = (\<forall>x. gate_result x \<longrightarrow> keeps_to W R (k x))"
| "keeps_to W R (PruneBuckets ks t) = keeps_to W R t"

lemma keeps_to_advance: "keeps_to W R t \<Longrightarrow> keeps_to W R (fst (advance t st))"
  using gate_results by (cases t) (auto simp: case_prod_beta)

lemma keeps_to_emits [simp]: "keeps_to W R (foldr Emit es t) = keeps_to W R t"
  by (induction es) simp_all

lemma keeps_to_parts [simp]:
  "keeps_to W R (t_prune c stats t) = keeps_to W R t"
  "keeps_to W R (t_drained d key t) = keeps_to W R t"
  "keeps_to W Q (t_fail n code) = Q (Reply n (Code code))"
  by (simp_all add: t_prune_def t_drained_def t_fail_def)

lemma keeps_to_own:
  assumes "early Q m" and "\<And>x. fst (m c) = Inr x \<Longrightarrow> keeps_to W Q (k x)"
  shows "keeps_to W Q (t_own m c k)"
proof -
  have "case fst (m c) of Inl r \<Rightarrow> Q r | Inr x \<Rightarrow> True" using assms(1) by (simp add: early_def)
  then show ?thesis using assms(2) by (simp add: t_own_def split: sum.split_asm sum.split)
qed

lemma keeps_to_store:
  "W op \<Longrightarrow> Q (Reply 500 (Code ''ERR_STORE'')) \<Longrightarrow> (\<And>x. keeps_to W Q (k x)) \<Longrightarrow> keeps_to W Q (t_store op fs k)"
  by (auto simp: t_store_def split: sum.split)

lemma keeps_to_gates:
  assumes "Q (Reply 500 (Code ''ERR_LOCK_POISON''))" and "Q (Reply 429 (Code ''ERR_RATE_LIMITED''))" and "keeps_to W Q t"
  shows "keeps_to W Q (PushGate amb key lid (t_gate t))" and "keeps_to W Q (CreateGate amb (t_gate t))"
  using assms by (auto simp: t_gate_def gate_result_def split: sum.splits)

lemma keeps_to_outcome:
  assumes "Q (Reply 500 (Code ''ERR_STORE''))"
  shows "(\<And>x. keeps_to W Q (g1 x)) \<Longrightarrow> keeps_to W Q (case out of OutStatus x \<Rightarrow> g1 x | _ \<Rightarrow> t_fail 500 ''ERR_STORE'')"
    and "(\<And>x. keeps_to W Q (g2 x)) \<Longrightarrow> keeps_to W Q (case out of OutEnqueue x \<Rightarrow> g2 x | _ \<Rightarrow> t_fail 500 ''ERR_STORE'')"
    and "(\<And>x. keeps_to W Q (g3 x)) \<Longrightarrow> keeps_to W Q (case out of OutPull x \<Rightarrow> g3 x | _ \<Rightarrow> t_fail 500 ''ERR_STORE'')"
    and "(\<And>x. keeps_to W Q (g4 x)) \<Longrightarrow> keeps_to W Q (case out of OutAck x \<Rightarrow> g4 x | _ \<Rightarrow> t_fail 500 ''ERR_STORE'')"
    and "(\<And>x. keeps_to W Q (g5 x)) \<Longrightarrow> keeps_to W Q (case out of OutCreate x \<Rightarrow> g5 x | _ \<Rightarrow> t_fail 500 ''ERR_STORE'')"
    and "(\<And>x. keeps_to W Q (g6 x)) \<Longrightarrow> keeps_to W Q (case out of OutRedeem x \<Rightarrow> g6 x | _ \<Rightarrow> t_fail 500 ''ERR_STORE'')"
    and "(\<And>x. keeps_to W Q (g7 x)) \<Longrightarrow> keeps_to W Q (case out of OutRevoke x \<Rightarrow> g7 x | _ \<Rightarrow> t_fail 500 ''ERR_STORE'')"
  using assms by (cases out; simp)+

lemma within_ops [simp]:
  "app_within c (OpSweep now)" "app_within c (OpStatus k now)" "app_within c (OpAck k ids now)"
  "app_within c (OpCreate k lid ch rh bun sg until now (max_slots (invite_limits c)))"
  "app_within c (OpRedeem k now th verify)" "app_within c (OpRevoke k verify)"
  "app_within c (OpEnqueue k lid mid b now (max_queue_depth (app_limits c)) (max_route_count (app_controls c)) ticket)"
  "app_within c (OpPull k mx mb now mode)"
  by (simp_all add: app_within_def within_def)

text \<open>The routes.\<close>

lemma keeps_to_push: "keeps_to (app_within c) (conforms (PushReq h b)) (push_task sha amb h b c)"
proof -
  let ?Q = "conforms (PushReq h b)" and ?W = "app_within c"
  have fail: "?Q (Reply 500 (Code ''ERR_STORE''))" "?Q (Reply 500 (Code ''ERR_LOCK_POISON''))"
    "?Q (Reply 429 (Code ''ERR_RATE_LIMITED''))" by (simp_all add: contract_defs)
  have answer: "keeps_to ?W ?Q (t_push_answer c key lid mid n out)" for key lid mid n out
    by (cases out) (simp_all add: t_push_answer_def contract_defs slot_reply_def split: SlotReject.split)
  have enqueue: "keeps_to ?W ?Q (t_enqueue sha amb h b mid c key lid)" for mid key lid
    unfolding t_enqueue_def
    by (intro keeps_to_store keeps_to_outcome fail answer) simp
  have admit: "early ?Q (push_admit sha h b)"
    unfolding push_admit_def by (auto intro!: early_rules simp: contract_defs)
  show ?thesis
    unfolding push_task_def Let_def
    by (intro keeps_to_own admit keeps_to_store keeps_to_outcome fail)
       (auto simp: contract_defs keeps_to_gates fail enqueue simp del: keeps_to.simps(4))
qed

lemma keeps_to_pull: "keeps_to (app_within c) (conforms (PullReq h q)) (pull_task sha amb h q c)"
proof -
  let ?Q = "conforms (PullReq h q)"
  have fail: "?Q (Reply 500 (Code ''ERR_STORE''))" by (simp add: contract_defs)
  have admit: "early ?Q (pull_admit sha h q)"
    unfolding pull_admit_def Let_def
    by (cases "query_ack q") (auto intro!: early_rules simp: contract_defs)
  show ?thesis
    unfolding pull_task_def Let_def split_def
    by (intro keeps_to_own admit keeps_to_store keeps_to_outcome fail)
       (simp_all add: t_pull_answer_def contract_defs)
qed

lemma keeps_to_ack: "keeps_to (app_within c) (conforms (AckReq h b)) (ack_task sha parse amb h b c)"
proof -
  let ?Q = "conforms (AckReq h b)"
  have fail: "?Q (Reply 500 (Code ''ERR_STORE''))" by (simp add: contract_defs)
  have admit: "early ?Q (ack_admit sha parse h b)"
    unfolding ack_admit_def by (auto intro!: early_rules simp: contract_defs)
  show ?thesis
    unfolding ack_task_def Let_def split_def
    by (intro keeps_to_own admit keeps_to_store keeps_to_outcome fail) (simp_all add: contract_defs)
qed

lemma keeps_to_create: "keeps_to (app_within c) (conforms (CreateReq h b)) (create_task sha parse amb h b c)"
proof -
  let ?Q = "conforms (CreateReq h b)" and ?W = "app_within c"
  have fail: "?Q (Reply 500 (Code ''ERR_STORE''))" "?Q (Reply 500 (Code ''ERR_LOCK_POISON''))"
    "?Q (Reply 429 (Code ''ERR_RATE_LIMITED''))" by (simp_all add: contract_defs)
  have il: "il = invite_limits c" if "fst (create_admit sha h b c) = Inr il" for il
    using that by (auto simp: create_admit_def h_auth_def h_guard_def h_bind_def h_run split: if_splits prod.splits)
  have admit: "early ?Q (create_admit sha h b)"
    unfolding create_admit_def by (auto intro!: early_rules simp: contract_defs)
  have valid: "early ?Q (create_validate amb req)" for req
    unfolding create_validate_def Let_def
    by (cases "b64_decode (create_bundle_b64 req)"; cases "b64_decode (create_sig_b64 req)")
       (auto intro!: early_rules simp: contract_defs)
  have body: "early ?Q (create_body parse amb b)"
    unfolding create_body_def by (auto intro!: early_rules valid simp: contract_defs split: prod.split)
  have answer: "keeps_to ?W ?Q (t_create_answer lid until token n out)" for lid until token n out
    by (cases out) (simp_all add: t_create_answer_def contract_defs)
  show ?thesis
    unfolding create_task_def Let_def split_def
    by (intro keeps_to_own admit keeps_to_gates fail body keeps_to_store keeps_to_outcome answer)
       (drule il, simp)
qed

lemma keeps_to_redeem: "keeps_to (app_within c) (conforms (RedeemReq h b)) (redeem_task sha parse amb h b c)"
proof -
  let ?Q = "conforms (RedeemReq h b)" and ?W = "app_within c"
  have fail: "?Q (Reply 500 (Code ''ERR_STORE''))" by (simp add: contract_defs)
  have admit: "early ?Q (redeem_admit sha parse h b)"
    unfolding redeem_admit_def by (auto intro!: early_rules simp: contract_defs)
  have answer: "keeps_to ?W ?Q ((case out of Redeemed bun sg \<Rightarrow> Emit e | _ \<Rightarrow> id) (Answer (redeem_reply ticket out)))"
    for out e ticket
    by (cases out) (simp_all add: redeem_reply_def contract_defs)
  show ?thesis
    unfolding redeem_task_def Let_def
    by (intro keeps_to_own admit keeps_to_store keeps_to_outcome fail answer) simp
qed

lemma keeps_to_revoke: "keeps_to (app_within c) (conforms (RevokeReq h b)) (revoke_task sha parse amb h b c)"
proof -
  let ?Q = "conforms (RevokeReq h b)" and ?W = "app_within c"
  have fail: "?Q (Reply 500 (Code ''ERR_STORE''))" by (simp add: contract_defs)
  have admit: "early ?Q (revoke_admit sha parse h b)"
    unfolding revoke_admit_def by (auto intro!: early_rules simp: contract_defs)
  have answer: "keeps_to ?W ?Q ((if q then Emit e else id) (Answer (revoke_reply out)))" for q e out
    by (cases out) (simp_all add: revoke_reply_def contract_defs)
  show ?thesis
    unfolding revoke_task_def Let_def
    by (intro keeps_to_own admit keeps_to_store keeps_to_outcome fail answer) simp
qed

lemma keeps_to_info: "keeps_to W (conforms (InfoReq h)) (info_task sha h c)"
  by (simp add: info_task_def t_own_def server_info_handler_def contract_defs)

lemma keeps_to_app: "keeps_to (app_within c) (conforms req) (app_task sha p amb req c)"
  by (cases req) (simp_all add: app_task_def keeps_to_push keeps_to_pull keeps_to_ack keeps_to_create
      keeps_to_redeem keeps_to_revoke keeps_to_info)

lemma keeps_to_sweep: "keeps_to (app_within c) (\<lambda>_. True) (sweep_task amb c)"
  by (auto simp: sweep_task_def split: sum.split store_out.split)

subsection \<open>The shared state\<close>

lemma advance_steps:
  assumes "keeps_to (app_within st) R t"
  shows "app_step\<^sup>*\<^sup>* st (snd (snd (advance t st)))"
proof (cases t)
  case (StoreCall op fs k)
  then have "app_step st (st\<lparr>store := snd (exec op fs (store st))\<rparr>)"
    using assms by (intro step_store) simp_all
  then show ?thesis using StoreCall by (auto simp: case_prod_beta)
next
  case (PushGate amb key lid k)
  then show ?thesis using sound_gates(1) [of st amb key lid] by (auto simp: sound_def case_prod_beta)
next
  case (CreateGate amb k)
  then show ?thesis using sound_gates(2) [of st amb] by (auto simp: sound_def case_prod_beta)
next
  case (PruneBuckets ks t)
  then show ?thesis
    using update_buckets_step [of "\<lambda>b. foldl (\<lambda>b key. b(key := None)) b ks" st]
    by (simp add: remove_buckets_def foldl_remove)
qed simp_all

fun job_ok :: "AppState \<Rightarrow> job \<Rightarrow> bool" where
  "job_ok c (Client req amb t) = keeps_to (app_within c) (conforms req) t"
| "job_ok c (Lost req amb t) = True"
| "job_ok c (Sweeper t) = keeps_to (app_within c) (\<lambda>_. True) t"

definition pool_ok :: "AppState \<Rightarrow> pool \<Rightarrow> bool" where
  "pool_ok c P \<longleftrightarrow> app_step\<^sup>*\<^sup>* c (shared P) \<and> list_all (job_ok c) (jobs P)"

lemma app_within_config: "config_of st = config_of c \<Longrightarrow> app_within st = app_within c"
  by (simp add: app_within_def config_of_def)

lemma job_step_ok:
  assumes "job_ok c j" and "config_of st = config_of c"
  shows "job_ok c (fst (job_step j st))" and "app_step\<^sup>*\<^sup>* st (snd (snd (job_step j st)))"
proof -
  have adv: "app_step\<^sup>*\<^sup>* st (snd (snd (advance t st)))" if "keeps_to (app_within c) R t" for R t
    by (rule advance_steps [where R = R]) (simp only: that app_within_config [OF assms(2)])
  show "job_ok c (fst (job_step j st))"
    using assms(1) by (cases j) (simp_all add: case_prod_beta keeps_to_advance)
  show "app_step\<^sup>*\<^sup>* st (snd (snd (job_step j st)))"
  proof (cases j)
    case (Client req amb t)
    then show ?thesis using assms(1) adv [of "conforms req" t] by (simp add: case_prod_beta)
  next
    case (Sweeper t)
    then show ?thesis using assms(1) adv [of "\<lambda>_. True" t] by (simp add: case_prod_beta)
  qed simp
qed

lemma job_ok_drop: "job_ok c j \<Longrightarrow> job_ok c (drop_job j)"
  by (cases j) (simp_all add: drop_job_cases)

lemma pool_step_ok:
  assumes "pool_ok c P"
  shows "pool_ok c (pool_step sha p e P)"
proof -
  have steps: "app_step\<^sup>*\<^sup>* c (shared P)" and js: "list_all (job_ok c) (jobs P)"
    using assms by (simp_all add: pool_ok_def)
  note same = steps_config [OF steps]
  show ?thesis
  proof (cases e)
    case (Arrive req amb)
    then show ?thesis
      using steps js keeps_to_app [of "shared P" req sha p amb] app_within_config [OF same]
      by (simp add: pool_ok_def)
  next
    case (SweepDue amb)
    then show ?thesis
      using steps js keeps_to_sweep [of "shared P" amb] app_within_config [OF same]
      by (simp add: pool_ok_def)
  next
    case (Run i)
    show ?thesis
    proof (cases "i < length (jobs P)")
      case True
      then have "job_ok c (jobs P ! i)" using js by (simp add: list_all_length)
      from job_step_ok [OF this same] show ?thesis
        using Run True steps js by (auto simp: pool_ok_def case_prod_beta list_all_length nth_list_update)
    qed (use Run assms in simp)
  next
    case (Drop i)
    then show ?thesis
      using steps js job_ok_drop by (auto simp: pool_ok_def list_all_length nth_list_update)
  qed
qed

lemma execute_pool_ok: "pool_ok c P \<Longrightarrow> pool_ok c (execute_pool sha p es P)"
  by (induction es arbitrary: P) (simp_all add: pool_step_ok)

lemma idle_ok: "pool_ok st (idle st)"
  by (simp add: pool_ok_def idle_def)

text \<open>The shared state of an execution is reachable by atomic steps, so the invariants and limits
  of reachable relays hold in it.\<close>

lemma pool_reachable: "app_reachable st \<Longrightarrow> app_reachable (shared (execute_pool sha p es (idle st)))"
  using execute_pool_ok [OF idle_ok [of st], of sha p es] app_reachable_steps
  by (auto simp: pool_ok_def)

text \<open>An answered request got a reply of the table of its route.\<close>

definition reply_ok :: "job \<Rightarrow> bool" where
  "reply_ok j \<longleftrightarrow> (case j of Client req amb (Answer r) \<Rightarrow> conforms req r | _ \<Rightarrow> True)"

text \<open>
  C15: Replies are well typed under concurrency. In every execution, whatever overlaps, fails or
  is dropped, every answered request is answered with a status, an error code and a body of the
  table of its route.
\<close>

theorem concurrent_contract: "list_all reply_ok (jobs (execute_pool sha p es (idle st)))"
proof -
  have "job_ok st j \<Longrightarrow> reply_ok j" for j
    by (cases j) (auto simp: reply_ok_def split: task.split)
  then show ?thesis
    using execute_pool_ok [OF idle_ok [of st], of sha p es] by (auto simp: pool_ok_def list_all_iff)
qed

end
