(* ===== verification/Linear.thy ===== *)
theory Linear imports Concurrent begin

text \<open>
  An execution of the pool is a serial run of store operations, and what those operations moved
  is what the replies report: a push answered 200 stored its message, a legacy pull answered 200
  removed the messages it lists, a create answered 200 opened a slot, a redemption answered 200
  consumed one; no other reply, and no request whose client went away before its store call,
  moved any. Through this the accounts of the store (\<open>Conservation\<close>, \<open>Slots\<close>) become theorems about
  the replies that concurrent clients see.
\<close>

subsection \<open>Deeds\<close>

datatype deed =
  Accept string StoredMsg
| Deliver string StoredMsg
| Lend string StoredMsg
| Open string
| Claim string

text \<open>What a store operation did, read off its outcome.\<close>

fun deeds :: "store_op \<Rightarrow> string + store_out \<Rightarrow> deed multiset" where
  "deeds (OpEnqueue k lid mid b now max_depth max_routes ticket) (Inr (OutEnqueue Accepted)) = {#Accept k (mid, b)#}"
| "deeds (OpPull k mx max_bytes now Legacy) (Inr (OutPull p)) = mset (map (Deliver k) (pull_items p))"
| "deeds (OpPull k mx max_bytes now Lease) (Inr (OutPull p)) = mset (map (Lend k) (pull_items p))"
| "deeds (OpCreate k lid cap_h revoke_h bun sg until now slot_cap) (Inr (OutCreate Created)) = {#Open k#}"
| "deeds (OpRedeem k now th verify) (Inr (OutRedeem (Redeemed b s))) = {#Claim k#}"
| "deeds _ _ = {#}"

text \<open>What a reply says was done.\<close>

definition reported :: "digest_fun \<Rightarrow> parsers \<Rightarrow> request \<Rightarrow> response \<Rightarrow> deed multiset" where
  "reported sha p req r =
    (case (req, reply_payload r) of
       (PushReq h b, PostResp mid) \<Rightarrow>
         (case resolve_route_token h of
            Inr channel \<Rightarrow> {#Accept (route_key_for sha channel) (mid, b)#} | Inl _ \<Rightarrow> {#})
     | (PullReq h q, PullResp items) \<Rightarrow>
         (case resolve_route_token h of
            Inr channel \<Rightarrow>
              mset (map ((if query_ack q = None then Deliver else Lend) (route_key_for sha channel)) items)
          | Inl _ \<Rightarrow> {#})
     | (CreateReq h b, InviteCreateResp _) \<Rightarrow>
         (case parse_create p b of
            Some x \<Rightarrow> {#Open (route_key_for sha (create_invite_id x))#} | None \<Rightarrow> {#})
     | (RedeemReq h b, InviteRedeemResp _ _ _) \<Rightarrow>
         (case parse_redeem p b of
            Some x \<Rightarrow> {#Claim (route_key_for sha (redeem_invite_id x))#} | None \<Rightarrow> {#})
     | _ \<Rightarrow> {#})"

text \<open>The answer of a task is settled when no more than log lines and prunings are before it.\<close>

primrec settled :: "'r task \<Rightarrow> 'r option" where
  "settled (Answer r) = Some r"
| "settled (Emit e t) = settled t"
| "settled (StoreCall op fs k) = None"
| "settled (PushGate amb key lid k) = None"
| "settled (CreateGate amb k) = None"
| "settled (PruneBuckets ks t) = settled t"

definition on_settled :: "('r \<Rightarrow> deed multiset) \<Rightarrow> 'r task \<Rightarrow> deed multiset" where
  "on_settled f t = (case settled t of None \<Rightarrow> {#} | Some r \<Rightarrow> f r)"

text \<open>A task is honest when each of its store calls settles exactly what it did.\<close>

primrec honest :: "('r \<Rightarrow> deed multiset) \<Rightarrow> 'r task \<Rightarrow> bool" where
  "honest f (Answer r) = True"
| "honest f (Emit e t) = honest f t"
| "honest f (StoreCall op fs k) = (\<forall>x. on_settled f (k x) = deeds op x \<and> honest f (k x))"
| "honest f (PushGate amb key lid k) = (\<forall>x. gate_result x \<longrightarrow> on_settled f (k x) = {#} \<and> honest f (k x))"
| "honest f (CreateGate amb k) = (\<forall>x. gate_result x \<longrightarrow> on_settled f (k x) = {#} \<and> honest f (k x))"
| "honest f (PruneBuckets ks t) = honest f t"

text \<open>A fresh task, moreover, has not settled anything yet.\<close>

definition fresh_honest :: "('r \<Rightarrow> deed multiset) \<Rightarrow> 'r task \<Rightarrow> bool" where
  "fresh_honest f t \<longleftrightarrow> honest f t \<and> on_settled f t = {#}"

lemma settled_parts [simp]:
  "settled (foldr Emit es t) = settled t" "settled (t_prune c stats t) = settled t"
  "settled (t_drained d key t) = settled t" "settled (t_fail n code) = Some (Reply n (Code code))"
proof -
  show emits: "settled (foldr Emit es t) = settled t" for es and t :: "'a task" by (induction es) simp_all
  show "settled (t_prune c stats t) = settled t" by (simp add: t_prune_def emits)
qed (simp_all add: t_drained_def t_fail_def)

lemma honest_parts [simp]:
  "honest f (foldr Emit es t) = honest f t"
  "honest f (t_prune c stats t) = honest f t"
  "honest f (t_drained d key t) = honest f t" "honest g (t_fail n code)"
proof -
  show emits: "honest f (foldr Emit es t) = honest f t" for es and t :: "'a task" by (induction es) simp_all
  show "honest f (t_prune c stats t) = honest f t" by (simp add: t_prune_def emits)
qed (simp_all add: t_drained_def t_fail_def)

lemma on_settled_simps [simp]:
  "on_settled f (Answer r) = f r" "on_settled f (Emit e t) = on_settled f t"
  "on_settled f (StoreCall op fs k) = {#}" "on_settled f (PushGate amb key lid g) = {#}"
  "on_settled f (CreateGate amb g) = {#}" "on_settled f (PruneBuckets ks t) = on_settled f t"
  "on_settled f (foldr Emit es t) = on_settled f t" "on_settled f (t_prune c stats t) = on_settled f t"
  "on_settled f (t_drained d key t) = on_settled f t"
  "on_settled h (t_fail n code) = h (Reply n (Code code))"
  by (simp_all add: on_settled_def)

lemma reported_code [simp]: "reported sha p req (Reply n (Code code)) = {#}"
  by (cases req) (simp_all add: reported_def)

lemma deeds_error [simp]: "deeds op (Inl e) = {#}"
  by (cases op) simp_all

lemma fresh_own:
  assumes "early (\<lambda>r. f r = {#}) m" and "\<And>x. fst (m c) = Inr x \<Longrightarrow> fresh_honest f (k x)"
  shows "fresh_honest f (t_own m c k)"
proof -
  have "case fst (m c) of Inl r \<Rightarrow> f r = {#} | Inr x \<Rightarrow> True" using assms(1) by (simp add: early_def)
  then show ?thesis
    using assms(2) by (simp add: t_own_def fresh_honest_def split: sum.split_asm sum.split)
qed

lemma fresh_store:
  assumes "f (Reply 500 (Code ''ERR_STORE'')) = {#}"
    and "\<And>out. on_settled f (k out) = deeds op (Inr out)" and "\<And>out. honest f (k out)"
  shows "fresh_honest f (t_store op fs k)"
  using assms by (auto simp: fresh_honest_def t_store_def split: sum.split)

lemma fresh_gates:
  assumes "\<And>n code. f (Reply n (Code code)) = {#}" and "fresh_honest f t"
  shows "fresh_honest f (PushGate amb key lid (t_gate t))" and "fresh_honest f (CreateGate amb (t_gate t))"
  using assms by (auto simp: fresh_honest_def t_gate_def gate_result_def split: sum.splits)

text \<open>The routes.\<close>

lemma push_admit_channel: "fst (push_admit sha h b c) = Inr channel \<Longrightarrow> resolve_route_token h = Inr channel"
  by (auto simp: push_admit_def h_auth_def h_route_token_def h_guard_def h_bind_def h_run
      split: if_splits prod.splits sum.splits)

lemma pull_admit_channel:
  "fst (pull_admit sha h q c) = Inr (channel, mx, mode) \<Longrightarrow>
   resolve_route_token h = Inr channel \<and> mode = (if query_ack q = None then Legacy else Lease)"
  by (auto simp: pull_admit_def h_auth_def h_route_token_def h_guard_def h_bind_def h_run Let_def
      split: if_splits prod.splits sum.splits option.splits)

lemma honest_push: "fresh_honest (reported sha p (PushReq h b)) (push_task sha amb h b c)"
proof -
  let ?f = "reported sha p (PushReq h b)"
  have answer: "honest ?f (t_push_answer c key lid mid n out)" for key lid mid n out
    by (cases out) (simp_all add: t_push_answer_def)
  have settle: "on_settled ?f (t_push_answer c (route_key_for sha channel) lid mid n out) =
      deeds (OpEnqueue (route_key_for sha channel) l mid b now D R ticket) (Inr (OutEnqueue out))"
    if "resolve_route_token h = Inr channel" for channel lid l mid n out now D R ticket
    using that
    by (cases out) (simp_all add: t_push_answer_def reported_def slot_reply_def split: SlotReject.split)
  have enqueue: "fresh_honest ?f (t_enqueue sha amb h b mid c (route_key_for sha channel) lid)"
    if "resolve_route_token h = Inr channel" for mid channel lid
    unfolding t_enqueue_def
    by (rule fresh_store) (simp_all add: settle [OF that] answer split: store_out.split)
  show ?thesis
    unfolding push_task_def Let_def
  proof (rule fresh_own)
    show "early (\<lambda>r. ?f r = {#}) (push_admit sha h b)"
      unfolding push_admit_def by (auto intro!: early_rules)
  next
    fix channel assume "fst (push_admit sha h b c) = Inr channel"
    note enq = enqueue [OF push_admit_channel [OF this]]
    have gate: "fresh_honest ?f (PushGate amb key lid (t_gate (t_enqueue sha amb h b mid c (route_key_for sha channel) lid)))"
      for key lid mid
      by (rule fresh_gates(1)) (simp_all add: enq)
    note gate' = gate [unfolded fresh_honest_def, THEN conjunct1]
    show "fresh_honest ?f (t_store (OpStatus (route_key_for sha channel) (now_unix_secs amb)) (faults1 amb) (\<lambda>out.
       case out of
         OutStatus status \<Rightarrow>
           t_prune c (status_sweep status)
             (if route_exists status \<and> max_queue_depth (app_limits c) \<le> depth status then
                Emit (QueueOverloaded (depth status) (max_queue_depth (app_limits c))) (t_fail 429 ''ERR_OVERLOADED'')
              else if \<not> route_exists status \<and> max_route_count (app_controls c) \<le> live_routes status then
                Emit (RouteCapReached (channel_log_id channel) (live_routes status) (max_route_count (app_controls c)))
                  (t_fail 429 ''ERR_ROUTE_CAP'')
              else PushGate amb (route_key_for sha channel) (channel_log_id channel)
                (t_gate (t_enqueue sha amb h b (push_msg_id amb h) c (route_key_for sha channel) (channel_log_id channel))))
       | _ \<Rightarrow> t_fail 500 ''ERR_STORE''))"
      by (rule fresh_store) (simp_all add: gate' split: store_out.split del: honest.simps(4))
  qed
qed

lemma honest_pull: "fresh_honest (reported sha p (PullReq h q)) (pull_task sha amb h q c)"
proof -
  let ?f = "reported sha p (PullReq h q)"
  have admit: "early (\<lambda>r. ?f r = {#}) (pull_admit sha h q)"
    unfolding pull_admit_def Let_def by (cases "query_ack q") (auto intro!: early_rules)
  have settle: "on_settled ?f (t_pull_answer lid (pull_items o')) =
      deeds (OpPull (route_key_for sha channel) mx mb now mode) (Inr (OutPull o'))"
    if "fst (pull_admit sha h q c) = Inr (channel, mx', mode)" for channel lid o' mx mx' mb now mode
    using pull_admit_channel [OF that] by (auto simp: t_pull_answer_def reported_def)
  show ?thesis
    unfolding pull_task_def Let_def
  proof (rule fresh_own [OF admit], clarify)
    fix channel mx mode assume "fst (pull_admit sha h q c) = Inr (channel, mx, mode)"
    note settle' = settle [OF this]
    have answer: "honest ?f (t_pull_answer lid items)" for lid items by (simp add: t_pull_answer_def)
    show "fresh_honest ?f (t_store (OpPull (route_key_for sha channel) mx
          (max PULL_BUDGET_BYTES (max_body_bytes (app_limits c))) (now_unix_secs amb) mode) (faults1 amb) (\<lambda>out.
        case out of
          OutPull o' \<Rightarrow> t_prune c (pull_sweep o') (t_drained (pull_drained o') (route_key_for sha channel)
            (t_pull_answer (channel_log_id channel) (pull_items o')))
        | _ \<Rightarrow> t_fail 500 ''ERR_STORE''))"
      by (rule fresh_store) (simp_all add: settle' answer split: store_out.split)
  qed
qed

lemma honest_ack: "fresh_honest (reported sha p (AckReq h b)) (ack_task sha parse amb h b c)"
proof -
  have silent: "reported sha p (AckReq h b) r = {#}" for r by (simp add: reported_def)
  have admit: "early (\<lambda>r. reported sha p (AckReq h b) r = {#}) (ack_admit sha parse h b)"
    by (simp add: early_def silent split: sum.split)
  show ?thesis
    unfolding ack_task_def Let_def split_def
    by (intro fresh_own [OF admit] fresh_store) (simp_all add: silent split: store_out.split)
qed

lemma honest_create: "fresh_honest (reported sha p (CreateReq h b)) (create_task sha (parse_create p) amb h b c)"
proof -
  let ?f = "reported sha p (CreateReq h b)"
  have admit: "early (\<lambda>r. ?f r = {#}) (create_admit sha h b)"
    unfolding create_admit_def by (auto intro!: early_rules)
  have valid: "early (\<lambda>r. ?f r = {#}) (create_validate amb req)" for req
    unfolding create_validate_def Let_def
    by (cases "b64_decode (create_bundle_b64 req)"; cases "b64_decode (create_sig_b64 req)")
       (auto intro!: early_rules)
  have bod: "early (\<lambda>r. ?f r = {#}) (create_body (parse_create p) amb b)"
    unfolding create_body_def by (auto intro!: early_rules valid split: prod.split)
  have parsed: "parse_create p b = Some req"
    if "fst (create_body (parse_create p) amb b c) = Inr (req, bun, sg, until)" for req bun sg until
    using that by (auto simp: create_body_def h_json_def h_bind_def h_run split: option.splits prod.splits sum.splits)
  have answer: "honest ?f (t_create_answer lid until token n out)" for lid until token n out
    by (cases out) (simp_all add: t_create_answer_def)
  have settle: "on_settled ?f (t_create_answer lid until token n out) =
      deeds (OpCreate (route_key_for sha (create_invite_id req)) l ch rh bun sg until now m) (Inr (OutCreate out))"
    if "parse_create p b = Some req" for req lid until token n out l ch rh bun sg now m
    using that by (cases out) (simp_all add: t_create_answer_def reported_def)
  show ?thesis
    unfolding create_task_def Let_def
    by (intro fresh_own [OF admit] fresh_gates fresh_own [OF bod], simp, clarify, rule fresh_store)
       (simp_all add: settle [OF parsed] answer split: store_out.split)
qed

lemma honest_redeem: "fresh_honest (reported sha p (RedeemReq h b)) (redeem_task sha (parse_redeem p) amb h b c)"
proof -
  let ?f = "reported sha p (RedeemReq h b)"
  have admit: "early (\<lambda>r. ?f r = {#}) (redeem_admit sha (parse_redeem p) h b)"
    unfolding redeem_admit_def by (auto intro!: early_rules)
  have parsed: "parse_redeem p b = Some req" if "fst (redeem_admit sha (parse_redeem p) h b c) = Inr req" for req
    using that
    by (auto simp: redeem_admit_def h_auth_def h_guard_def h_json_def h_bind_def h_run
        split: option.splits prod.splits sum.splits if_splits)
  have answer: "honest ?f ((case out of Redeemed bun sg \<Rightarrow> Emit e | _ \<Rightarrow> id) (Answer r))" for out e r
    by (cases out) simp_all
  have settle: "on_settled ?f ((case out of Redeemed bun sg \<Rightarrow> Emit e | _ \<Rightarrow> id) (Answer (redeem_reply ticket out))) =
      deeds (OpRedeem (route_key_for sha (redeem_invite_id req)) now th verify) (Inr (OutRedeem out))"
    if "parse_redeem p b = Some req" for req out e ticket now th verify
    using that by (cases out) (simp_all add: redeem_reply_def reported_def)
  show ?thesis
    unfolding redeem_task_def Let_def
    by (intro fresh_own [OF admit] fresh_store)
       (simp_all add: settle [OF parsed] answer split: store_out.split)
qed

lemma honest_revoke: "fresh_honest (reported sha p (RevokeReq h b)) (revoke_task sha parse amb h b c)"
proof -
  have silent: "reported sha p (RevokeReq h b) r = {#}" for r by (simp add: reported_def)
  have admit: "early (\<lambda>r. reported sha p (RevokeReq h b) r = {#}) (revoke_admit sha parse h b)"
    by (simp add: early_def silent split: sum.split)
  show ?thesis
    unfolding revoke_task_def Let_def
    by (intro fresh_own [OF admit] fresh_store) (simp_all add: silent split: store_out.split)
qed

lemma honest_app: "fresh_honest (reported sha p req) (app_task sha p amb req c)"
proof -
  have "fresh_honest (reported sha p (InfoReq h)) (info_task sha h c)" for h
    by (simp add: fresh_honest_def info_task_def t_own_def reported_def split: sum.split)
  then show ?thesis
    by (cases req) (simp_all add: app_task_def honest_push honest_pull honest_ack honest_create
        honest_redeem honest_revoke)
qed

lemma honest_sweep: "fresh_honest (\<lambda>_. {#}) (sweep_task amb c)"
  by (auto simp: fresh_honest_def sweep_task_def split: sum.split store_out.split)

subsection \<open>The serial run behind an execution\<close>

definition did :: "step \<Rightarrow> Store \<Rightarrow> deed multiset" where
  "did s st = deeds (fst s) (outcome s st)"

text \<open>One atomic step makes no store operation or one.\<close>

lemma advance_honest:
  assumes "honest f t" and "keeps_to W R t"
  shows "honest f (fst (advance t st))"
    and "\<exists>ss. list_all (\<lambda>s. W (fst s)) ss \<and> store (snd (snd (advance t st))) = run_steps perform ss (store st) \<and>
      on_settled f (fst (advance t st)) = on_settled f t + tally perform did ss (store st)"
proof -
  show "honest f (fst (advance t st))"
    using assms(1) gate_results by (cases t) (auto simp: case_prod_beta)
  show "\<exists>ss. list_all (\<lambda>s. W (fst s)) ss \<and> store (snd (snd (advance t st))) = run_steps perform ss (store st) \<and>
      on_settled f (fst (advance t st)) = on_settled f t + tally perform did ss (store st)"
  proof (cases t)
    case (StoreCall op fs k)
    then show ?thesis
      using assms by (intro exI [of _ "[(op, fs)]"]) (simp add: perform_def did_def outcome_def case_prod_beta)
  next
    case (PushGate amb key lid k)
    have "store (snd (snd (push_gate amb key lid st))) = store st"
      using keeps_store_basic(9) [of amb key lid] by (simp add: keeps_store_def)
    then show ?thesis
      using PushGate assms gate_results(1) by (intro exI [of _ "[]"]) (simp add: case_prod_beta)
  next
    case (CreateGate amb k)
    have "store (snd (snd (create_gate amb st))) = store st"
      using keeps_store_basic(6) [of amb] by (simp add: keeps_store_def)
    then show ?thesis
      using CreateGate assms gate_results(2) by (intro exI [of _ "[]"]) (simp add: case_prod_beta)
  qed (intro exI [of _ "[]"], simp add: remove_buckets_def)+
qed

text \<open>A job is honest, and its store operations satisfy \<open>W\<close>.\<close>

fun job_honest :: "digest_fun \<Rightarrow> parsers \<Rightarrow> (store_op \<Rightarrow> bool) \<Rightarrow> job \<Rightarrow> bool" where
  "job_honest sha p W (Client req amb t) = (honest (reported sha p req) t \<and> keeps_to W (\<lambda>_. True) t)"
| "job_honest sha p W (Lost req amb t) = True"
| "job_honest sha p W (Sweeper t) = (honest (\<lambda>_. {#}) t \<and> keeps_to W (\<lambda>_. True) t)"

text \<open>What a job has done: for a request, what its settled answer reports, whether or not the
  client is still there to read it.\<close>

fun job_deeds :: "digest_fun \<Rightarrow> parsers \<Rightarrow> job \<Rightarrow> deed multiset" where
  "job_deeds sha p (Client req amb t) = on_settled (reported sha p req) t"
| "job_deeds sha p (Lost req amb t) = on_settled (reported sha p req) t"
| "job_deeds sha p (Sweeper t) = {#}"

definition pool_deeds :: "digest_fun \<Rightarrow> parsers \<Rightarrow> pool \<Rightarrow> deed multiset" where
  "pool_deeds sha p P = sum_list (map (job_deeds sha p) (jobs P))"

lemma on_settled_nothing [simp]: "on_settled (\<lambda>_. {#}) t = {#}"
  by (simp add: on_settled_def split: option.split)

lemma job_step_honest:
  assumes "job_honest sha p W j"
  shows "job_honest sha p W (fst (job_step j st))"
    and "\<exists>ss. list_all (\<lambda>s. W (fst s)) ss \<and> store (snd (snd (job_step j st))) = run_steps perform ss (store st) \<and>
      job_deeds sha p (fst (job_step j st)) = job_deeds sha p j + tally perform did ss (store st)"
proof -
  show "job_honest sha p W (fst (job_step j st))"
    using assms by (cases j) (auto simp: case_prod_beta intro: advance_honest(1) keeps_to_advance)
  show "\<exists>ss. list_all (\<lambda>s. W (fst s)) ss \<and> store (snd (snd (job_step j st))) = run_steps perform ss (store st) \<and>
      job_deeds sha p (fst (job_step j st)) = job_deeds sha p j + tally perform did ss (store st)"
  proof (cases j)
    case (Client req amb t)
    then show ?thesis
      using assms advance_honest(2) [of "reported sha p req" t W "\<lambda>_. True" st] by (simp add: case_prod_beta)
  next
    case (Lost req amb t)
    then show ?thesis by (intro exI [of _ "[]"]) simp
  next
    case (Sweeper t)
    then show ?thesis
      using assms advance_honest(2) [of "\<lambda>_. {#}" t W "\<lambda>_. True" st] by (simp add: case_prod_beta)
  qed
qed

lemma job_drop_honest [simp]:
  "job_deeds sha p (drop_job j) = job_deeds sha p j"
  "job_honest sha p W j \<Longrightarrow> job_honest sha p W (drop_job j)"
  by (cases j; simp add: drop_job_cases)+

lemma sum_list_replace:
  fixes f :: "'a \<Rightarrow> 'b::comm_monoid_add"
  assumes "i < length xs" and "f y = f (xs ! i) + d"
  shows "sum_list (map f (xs[i := y])) = sum_list (map f xs) + d"
  using assms
proof (induction xs arbitrary: i)
  case (Cons x xs)
  then show ?case by (cases i) (simp_all add: ac_simps)
qed simp

definition event_keeps :: "digest_fun \<Rightarrow> parsers \<Rightarrow> (store_op \<Rightarrow> bool) \<Rightarrow> event \<Rightarrow> bool" where
  "event_keeps sha p W e \<longleftrightarrow>
    (case e of
       Arrive req amb \<Rightarrow> (\<forall>c. keeps_to W (\<lambda>_. True) (app_task sha p amb req c))
     | SweepDue amb \<Rightarrow> (\<forall>c. keeps_to W (\<lambda>_. True) (sweep_task amb c))
     | _ \<Rightarrow> True)"

definition serialized :: "digest_fun \<Rightarrow> parsers \<Rightarrow> (store_op \<Rightarrow> bool) \<Rightarrow> Store \<Rightarrow> pool \<Rightarrow> bool" where
  "serialized sha p W s P \<longleftrightarrow> list_all (job_honest sha p W) (jobs P) \<and>
     (\<exists>ss. list_all (\<lambda>s. W (fst s)) ss \<and> store (shared P) = run_steps perform ss s \<and>
        pool_deeds sha p P = tally perform did ss s)"

lemma pool_step_serialized:
  assumes "serialized sha p W s P" and "event_keeps sha p W e"
  shows "serialized sha p W s (pool_step sha p e P)"
proof -
  obtain ss where js: "list_all (job_honest sha p W) (jobs P)" and W: "list_all (\<lambda>s. W (fst s)) ss"
    and run: "store (shared P) = run_steps perform ss s" and acc: "pool_deeds sha p P = tally perform did ss s"
    using assms(1) by (auto simp: serialized_def)
  show ?thesis
  proof (cases e)
    case (Arrive req amb)
    then show ?thesis
      using js W run acc honest_app [of sha p req amb "shared P"] assms(2)
      by (auto simp: serialized_def pool_deeds_def fresh_honest_def event_keeps_def)
  next
    case (SweepDue amb)
    then show ?thesis
      using js W run acc honest_sweep [of amb "shared P"] assms(2)
      by (auto simp: serialized_def pool_deeds_def fresh_honest_def event_keeps_def)
  next
    case (Run i)
    show ?thesis
    proof (cases "i < length (jobs P)")
      case True
      let ?next = "job_step (jobs P ! i) (shared P)"
      have "job_honest sha p W (jobs P ! i)" using js True by (simp add: list_all_length)
      from job_step_honest [OF this, of "shared P"] obtain ss' where
        ok: "job_honest sha p W (fst ?next)" and W': "list_all (\<lambda>s. W (fst s)) ss'" and more: "store (snd (snd ?next)) = run_steps perform ss' (store (shared P))"
        and deeds: "job_deeds sha p (fst ?next) = job_deeds sha p (jobs P ! i) + tally perform did ss' (store (shared P))"
        by auto
      have "store (shared (pool_step sha p e P)) = run_steps perform (ss @ ss') s"
        using Run True more run by (simp add: case_prod_beta run_steps_append)
      moreover have "pool_deeds sha p (pool_step sha p e P) = tally perform did (ss @ ss') s"
        using Run True acc run sum_list_replace [where f = "job_deeds sha p", OF True deeds]
        by (simp add: case_prod_beta pool_deeds_def tally_append)
      moreover have "list_all (job_honest sha p W) (jobs (pool_step sha p e P))"
        using Run True js ok by (auto simp: case_prod_beta list_all_length nth_list_update)
      moreover have "list_all (\<lambda>s. W (fst s)) (ss @ ss')" using W W' by simp
      ultimately show ?thesis unfolding serialized_def by blast
    qed (use Run assms(1) in simp)
  next
    case (Drop i)
    have "sum_list (map (job_deeds sha p) ((jobs P)[i := drop_job (jobs P ! i)])) = sum_list (map (job_deeds sha p) (jobs P))"
      if "i < length (jobs P)"
      using sum_list_replace [where f = "job_deeds sha p", OF that, of "drop_job (jobs P ! i)" "{#}"] by simp
    then show ?thesis
      using Drop js W run acc by (auto simp: serialized_def pool_deeds_def list_all_length nth_list_update)
  qed
qed

lemma execute_serialized:
  "list_all (event_keeps sha p W) es \<Longrightarrow> serialized sha p W s P \<Longrightarrow> serialized sha p W s (execute_pool sha p es P)"
  by (induction es arbitrary: P) (simp_all add: pool_step_serialized)

lemma idle_serialized: "serialized sha p W (store st) (idle st)"
  by (auto simp: serialized_def idle_def pool_deeds_def intro!: exI [of _ "[]"])

text \<open>The serial run makes only operations that the requests of the execution make.\<close>

lemma execution_serial_ops:
  assumes "list_all (event_keeps sha p W) es"
  obtains ss where "list_all (\<lambda>s. W (fst s)) ss"
    and "store (shared (execute_pool sha p es (idle st))) = run_steps perform ss (store st)"
    and "pool_deeds sha p (execute_pool sha p es (idle st)) = tally perform did ss (store st)"
  using execute_serialized [OF assms idle_serialized [of sha p W st]] by (auto simp: serialized_def)

lemma keeps_to_any [simp]: "keeps_to (\<lambda>_. True) (\<lambda>_. True) t"
  by (induction t) simp_all

lemma execution_serial:
  obtains ss where "store (shared (execute_pool sha p es (idle st))) = run_steps perform ss (store st)"
    and "pool_deeds sha p (execute_pool sha p es (idle st)) = tally perform did ss (store st)"
proof -
  have "list_all (event_keeps sha p (\<lambda>_. True)) es"
    by (simp add: list_all_iff event_keeps_def split: event.split)
  from execution_serial_ops [OF this, of st] show thesis using that by blast
qed

text \<open>
  C4: Executions are serializable. However requests and sweeps overlap, fail or lose their
  clients, there is a serial order of store operations that ends in the same store, and what
  those operations did (messages accepted, removed by legacy pulls and lent by lease
  pulls, slots opened and claimed) is, counted with multiplicity, exactly what the settled answers report.
\<close>

theorem executions_serialize:
  "\<exists>ss. store (shared (execute_pool sha p es (idle st))) = run_steps perform ss (store st) \<and>
     pool_deeds sha p (execute_pool sha p es (idle st)) = tally perform did ss (store st)"
  using execution_serial by metis

subsection \<open>Accounts over the replies\<close>

definition pick :: "(deed \<Rightarrow> 'x option) \<Rightarrow> deed multiset \<Rightarrow> 'x multiset" where
  "pick g D = image_mset (\<lambda>d. the (g d)) (filter_mset (\<lambda>d. g d \<noteq> None) D)"

lemma pick_simps [simp]:
  "pick g {#} = {#}" "pick g (add_mset d D) = (case g d of None \<Rightarrow> {#} | Some x \<Rightarrow> {#x#}) + pick g D"
  "pick g (D + D') = pick g D + pick g D'"
  by (auto simp: pick_def split: option.split)

lemma pick_mono: "D \<subseteq># D' \<Longrightarrow> pick g D \<subseteq># pick g D'"
  by (simp add: pick_def image_mset_subseteq_mono multiset_filter_mono)

lemma pick_tally: "tally step (\<lambda>op s. pick g (f op s)) ops s = pick g (tally step f ops s)"
  by (induction ops arbitrary: s) simp_all

fun accepted_at :: "string \<Rightarrow> deed \<Rightarrow> StoredMsg option" where
  "accepted_at k (Accept j m) = (if j = k then Some m else None)"
| "accepted_at k _ = None"

fun delivered_at :: "string \<Rightarrow> deed \<Rightarrow> StoredMsg option" where
  "delivered_at k (Deliver j m) = (if j = k then Some m else None)"
| "delivered_at k _ = None"

text \<open>A message handed to a reader, for good or on a lease.\<close>

fun handed_at :: "string \<Rightarrow> deed \<Rightarrow> StoredMsg option" where
  "handed_at k (Deliver j m) = (if j = k then Some m else None)"
| "handed_at k (Lend j m) = (if j = k then Some m else None)"
| "handed_at k _ = None"

fun opened :: "deed \<Rightarrow> string option" where
  "opened (Open k) = Some k"
| "opened _ = None"

fun claimed :: "deed \<Rightarrow> string option" where
  "claimed (Claim k) = Some k"
| "claimed _ = None"

lemma pick_delivered [simp]:
  "pick (delivered_at k) (image_mset (Deliver j) M) = (if j = k then M else {#})"
  "pick (accepted_at k) (image_mset (Deliver j) M) = {#}"
  "pick opened (image_mset (Deliver j) M) = {#}" "pick claimed (image_mset (Deliver j) M) = {#}"
  "pick (handed_at k) (image_mset (Deliver j) M) = (if j = k then M else {#})"
  by (induction M) simp_all

lemma pick_lent [simp]:
  "pick (handed_at k) (image_mset (Lend j) M) = (if j = k then M else {#})"
  "pick (delivered_at k) (image_mset (Lend j) M) = {#}" "pick (accepted_at k) (image_mset (Lend j) M) = {#}"
  "pick opened (image_mset (Lend j) M) = {#}" "pick claimed (image_mset (Lend j) M) = {#}"
  by (induction M) simp_all

lemma deeds_accounts:
  "delivered_in k op r = pick (delivered_at k) (deeds op r)"
  "accepted_in k op r = pick (accepted_at k) (deeds op r)"
  "created_in op r = pick opened (deeds op r)" "redeemed_in op r = pick claimed (deeds op r)"
  by (induction op r rule: deeds.induct) simp_all

lemma tally_accounts:
  "tally perform (delivered_mail k) ss s = pick (delivered_at k) (tally perform did ss s)"
  "tally perform (accepted_mail k) ss s = pick (accepted_at k) (tally perform did ss s)"
  "tally perform creations ss s = pick opened (tally perform did ss s)"
  "tally perform redemptions ss s = pick claimed (tally perform did ss s)"
  by (simp_all add: pick_tally [symmetric] delivered_mail_def [abs_def] accepted_mail_def [abs_def]
      creations_def [abs_def] redemptions_def [abs_def] deeds_accounts did_def [abs_def])

text \<open>What the clients have been told: the answers that were given.\<close>

fun told :: "digest_fun \<Rightarrow> parsers \<Rightarrow> job \<Rightarrow> deed multiset" where
  "told sha p (Client req amb (Answer r)) = reported sha p req r"
| "told sha p _ = {#}"

definition pool_told :: "digest_fun \<Rightarrow> parsers \<Rightarrow> pool \<Rightarrow> deed multiset" where
  "pool_told sha p P = sum_list (map (told sha p) (jobs P))"

lemma told_deeds: "told sha p j \<subseteq># job_deeds sha p j"
  by (induction sha p j rule: told.induct) simp_all

lemma pool_told_deeds: "pool_told sha p P \<subseteq># pool_deeds sha p P"
proof -
  have "sum_list (map (told sha p) js) \<subseteq># sum_list (map (job_deeds sha p) js)" for js
    by (induction js) (simp_all add: told_deeds subset_mset.add_mono)
  then show ?thesis by (simp add: pool_told_def pool_deeds_def)
qed

text \<open>When all requests are answered, and no client was lost, the clients know all that was done.\<close>

definition heard :: "job \<Rightarrow> bool" where
  "heard j \<longleftrightarrow> (case j of Client req amb t \<Rightarrow> answered t | Lost req amb t \<Rightarrow> False | Sweeper t \<Rightarrow> True)"

lemma all_told:
  assumes "list_all heard (jobs P)"
  shows "pool_told sha p P = pool_deeds sha p P"
proof -
  have same: "told sha p j = job_deeds sha p j" if "heard j" for j
    using that by (cases j) (auto simp: heard_def answered_def split: task.splits)
  have "map (told sha p) (jobs P) = map (job_deeds sha p) (jobs P)"
    using assms same by (auto simp: list_all_iff)
  then show ?thesis by (simp only: pool_told_def pool_deeds_def)
qed

text \<open>
  C5: Nothing is delivered twice or invented, under concurrency. Over any execution, whatever
  overlaps, fails or loses its client, the messages that legacy pulls of a route were answered
  with are, counted with multiplicity and with their identifiers and bodies, among those queued
  for the route at the start and those that pushes to it were answered 200 for (or would have
  been, had the client stayed).
\<close>

theorem concurrent_delivery:
  assumes "app_reachable st"
  shows "pick (delivered_at k) (pool_told sha p (execute_pool sha p es (idle st))) \<subseteq>#
    mailbox k (store st) + pick (accepted_at k) (pool_deeds sha p (execute_pool sha p es (idle st)))"
proof -
  let ?P = "execute_pool sha p es (idle st)"
  obtain ss where ss: "pool_deeds sha p ?P = tally perform did ss (store st)" by (rule execution_serial)
  have "store_wf (store st)" using app_reachable_ok [OF assms] by (simp add: app_ok_def)
  from mail.part_covered [OF this refl, of k ss]
  have "pick (delivered_at k) (pool_deeds sha p ?P) \<subseteq># mailbox k (store st) + pick (accepted_at k) (pool_deeds sha p ?P)"
    by (simp only: tally_accounts ss)
  then show ?thesis using pick_mono [OF pool_told_deeds] subset_mset.order_trans by blast
qed

text \<open>
  C8: A lost race cannot yield two winners. Over any execution, however many redemptions of one
  slot overlap, with whatever capabilities, those answered 200 are at most the slots that were
  active under that key at the start and those that creates were answered 200 for.
\<close>

theorem one_winner:
  assumes "app_reachable st"
  shows "count (pick claimed (pool_told sha p (execute_pool sha p es (idle st)))) k \<le>
    count (live is_active (tables (store st))) k +
    count (pick opened (pool_deeds sha p (execute_pool sha p es (idle st)))) k"
proof -
  let ?P = "execute_pool sha p es (idle st)"
  obtain ss where ss: "pool_deeds sha p ?P = tally perform did ss (store st)" by (rule execution_serial)
  have "store_wf (store st)" using app_reachable_ok [OF assms] by (simp add: app_ok_def)
  from capability.part_covered [OF this refl, of ss]
  have "pick claimed (pool_deeds sha p ?P) \<subseteq># live is_active (tables (store st)) + pick opened (pool_deeds sha p ?P)"
    by (simp only: tally_accounts ss)
  then have "pick claimed (pool_told sha p ?P) \<subseteq># live is_active (tables (store st)) + pick opened (pool_deeds sha p ?P)"
    using pick_mono [OF pool_told_deeds] subset_mset.order_trans by blast
  from mset_subset_eq_count [OF this, of k] show ?thesis by simp
qed

end
