(* ===== verification/Lossless.thy ===== *)
theory Lossless imports Linear Slot_Machine begin

text \<open>
  No message is lost to concurrency: as long as nothing expires and nothing is acknowledged,
  what was queued for a route and what pushes to it were answered 200 for is, counted with
  multiplicity, what legacy pulls were answered with and what is still queued.
\<close>

subsection \<open>The store operations of a request\<close>

text \<open>They carry the time the request read, and only an acknowledgement on a route
  acknowledges there.\<close>

definition calls :: "digest_fun \<Rightarrow> ambient \<Rightarrow> request \<Rightarrow> store_op \<Rightarrow> bool" where
  "calls sha amb req op \<longleftrightarrow>
    (case op of OpRevoke k verify \<Rightarrow> True | _ \<Rightarrow> op_time op = now_unix_secs amb) \<and>
    (case (op, req) of
       (OpAck k ids now, AckReq h b) \<Rightarrow> (\<exists>channel. resolve_route_token h = Inr channel \<and> k = route_key_for sha channel)
     | (OpAck k ids now, _) \<Rightarrow> False
     | _ \<Rightarrow> True)"

lemma calls_simps [simp]:
  "calls sha amb req (OpStatus k now) \<longleftrightarrow> now = now_unix_secs amb"
  "calls sha amb req (OpCreate k lid ch rh bun sg until now m) \<longleftrightarrow> now = now_unix_secs amb"
  "calls sha amb req (OpRedeem k now th verify) \<longleftrightarrow> now = now_unix_secs amb"
  "calls sha amb req (OpRevoke k verify)"
  "calls sha amb req (OpEnqueue k lid mid b now D R ticket) \<longleftrightarrow> now = now_unix_secs amb"
  "calls sha amb req (OpPull k mx mb now mode) \<longleftrightarrow> now = now_unix_secs amb"
  "calls sha amb (AckReq h b) (OpAck k ids now) \<longleftrightarrow> now = now_unix_secs amb \<and>
     (\<exists>channel. resolve_route_token h = Inr channel \<and> k = route_key_for sha channel)"
  by (simp_all add: calls_def op_time_def)

lemma early_any [simp]: "early (\<lambda>_. True) m"
  by (simp add: early_def split: sum.split)

lemma ack_admit_channel: "fst (ack_admit sha parse h b c) = Inr (channel, ids) \<Longrightarrow> resolve_route_token h = Inr channel"
  by (auto simp: ack_admit_def h_auth_def h_route_token_def h_guard_def h_json_def h_bind_def h_run
      split: if_splits prod.splits sum.splits option.splits)

lemma keeps_calls: "keeps_to (calls sha amb req) (\<lambda>_. True) (app_task sha p amb req c)"
proof -
  let ?W = "\<lambda>req. calls sha amb req" and ?Q = "\<lambda>_::response. True"
  have push: "keeps_to (?W r) ?Q (t_push_answer c key lid mid n out)" for r c key lid mid n out
    by (cases out) (simp_all add: t_push_answer_def)
  have enqueue: "keeps_to (?W r) ?Q (t_enqueue sha amb h b mid c key lid)" for r h b mid c key lid
    unfolding t_enqueue_def by (intro keeps_to_store keeps_to_outcome push) simp_all
  have create: "keeps_to (?W r) ?Q (t_create_answer lid until token n out)" for r lid until token n out
    by (cases out) (simp_all add: t_create_answer_def)
  have "keeps_to (?W (PushReq h b)) ?Q (push_task sha amb h b c)" for h b
    unfolding push_task_def Let_def
    by (intro keeps_to_own keeps_to_store keeps_to_outcome)
       (auto simp: keeps_to_gates enqueue simp del: keeps_to.simps(4))
  moreover have "keeps_to (?W (PullReq h q)) ?Q (pull_task sha amb h q c)" for h q
    unfolding pull_task_def Let_def split_def
    by (intro keeps_to_own keeps_to_store keeps_to_outcome) (simp_all add: t_pull_answer_def)
  moreover have "keeps_to (?W (AckReq h b)) ?Q (ack_task sha (parse_ack p) amb h b c)" for h b
    unfolding ack_task_def Let_def split_def
    by (intro keeps_to_own keeps_to_store keeps_to_outcome) (auto dest!: ack_admit_channel)
  moreover have "keeps_to (?W (CreateReq h b)) ?Q (create_task sha (parse_create p) amb h b c)" for h b
    unfolding create_task_def Let_def split_def
    by (intro keeps_to_own keeps_to_gates keeps_to_store keeps_to_outcome) (simp_all add: create)
  moreover have "keeps_to (?W (RedeemReq h b)) ?Q (redeem_task sha (parse_redeem p) amb h b c)" for h b
    unfolding redeem_task_def Let_def
    by (intro keeps_to_own keeps_to_store keeps_to_outcome) (simp_all split: InviteRedeemOutcome.split)
  moreover have "keeps_to (?W (RevokeReq h b)) ?Q (revoke_task sha (parse_revoke p) amb h b c)" for h b
    unfolding revoke_task_def Let_def
    by (intro keeps_to_own keeps_to_store keeps_to_outcome) (simp_all)
  moreover have "keeps_to (?W (InfoReq h)) ?Q (info_task sha h c)" for h
    by (simp add: info_task_def t_own_def split: sum.split)
  ultimately show ?thesis by (cases req) (simp_all add: app_task_def)
qed

subsection \<open>Quiet operations\<close>

text \<open>An operation that comes in the seconds from \<open>T\<close> on and before \<open>U\<close>; and one that comes within
  the retention of \<open>T\<close> and does not acknowledge on the route.\<close>

definition timed :: "int \<Rightarrow> int \<Rightarrow> store_op \<Rightarrow> bool" where
  "timed T U op \<longleftrightarrow> (case op of OpRevoke j verify \<Rightarrow> True | _ \<Rightarrow> T \<le> op_time op \<and> op_time op < U)"

definition quiet_op :: "string \<Rightarrow> int \<Rightarrow> int \<Rightarrow> store_op \<Rightarrow> bool" where
  "quiet_op k T ttl op \<longleftrightarrow> timed T (T + ttl) op \<and> (case op of OpAck j ids now \<Rightarrow> j \<noteq> k | _ \<Rightarrow> True)"

definition young :: "string \<Rightarrow> int \<Rightarrow> db \<Rightarrow> bool" where
  "young k T d \<longleftrightarrow> list_all (\<lambda>m. msg_route m = k \<longrightarrow> T \<le> enqueued_at m) (messages d)"

lemma young_parts [simp]:
  "young k T (drop_expired_invites now d) = young k T d" "young k T (touch j now d) = young k T d"
  "young k T (map_invites q f d) = young k T d" "young k T (add_invite i d) = young k T d"
  "young k T (drop_idle_routes d) = young k T d" "young k T (lease_seqs seqs until d) = young k T d"
  by (simp_all add: young_def drop_expired_invites_def touch_def map_invites_def add_invite_def drop_idle_routes_def
      lease_seqs_def list.pred_map o_def if_distrib [of msg_route] if_distrib [of enqueued_at])

lemma young_drops:
  assumes "young k T d"
  shows "young k T (swept ttl now d)" "young k T (legacy_delivered j now ms d)" "young k T (lease_delivered j now t ms d)"
    "young k T (acknowledged j ids d)" "T \<le> now \<Longrightarrow> young k T (accepted j lid mid b now d)"
proof -
  have sub: "young k T d' \<Longrightarrow> young k T (drop_route j d')" "young k T (drop_seqs seqs d)" "young k T (drop_acked j ids d)"
    "young k T (drop_expired ttl now d)" for d' seqs
    using assms by (auto simp: young_def list_all_iff drop_route_def drop_seqs_def drop_acked_def drop_expired_def split: if_splits)
  show "young k T (swept ttl now d)" using sub by (simp add: swept_def)
  show "young k T (legacy_delivered j now ms d)" using sub by (simp add: legacy_delivered_def Let_def)
  show "young k T (lease_delivered j now t ms d)" using assms by (simp add: lease_delivered_def)
  show "young k T (acknowledged j ids d)" using sub by (simp add: acknowledged_def Let_def)
  show "young k T (accepted j lid mid b now d)" if "T \<le> now"
    using assms that by (auto simp: young_def list_all_iff accepted_def append_message_def touch_def new_message_def)
qed

lemma young_op:
  assumes "db_ok d" and "young k T d" and "quiet_op k T ttl op"
  shows "young k T (op_effect ttl lease_secs op d)"
proof -
  have dist: "distinct (map slot_key (invites d))" using assms(1) by (simp add: db_ok_def slots_ok_def)
  note d = young_drops [OF assms(2)] and dd = young_drops [OF young_drops(1) [OF assms(2)]]
  note unfold = op_effect_def run_op_def out_as_def
  show ?thesis
  proof (cases op)
    case (OpPull j mx mb now mode)
    then show ?thesis
      using dd by (cases mode) (simp_all add: unfold pull_legacy_run pull_lease_run Let_def)
  qed (use assms d dd in \<open>auto simp: unfold retention_sweep_run route_status_run invite_create_run Let_def
        invite_redeem_run [OF dist] invite_revoke_run enqueue_run ack_run consume_slot_def revoke_slot_def
        quiet_op_def timed_def op_time_def split: option.split\<close>)
qed

text \<open>Such an operation neither expires nor acknowledges a message of the route.\<close>

lemma quiet_keeps:
  assumes "young k T d" and "quiet_op k T ttl op"
  shows "acked_in ttl k op r d = {#}" and "expired_in ttl k op r d = {#}"
proof -
  show "acked_in ttl k op r d = {#}"
    using assms(2) by (induction ttl k op r d rule: acked_in.induct) (auto simp: quiet_op_def)
  have "sweep_time op r = Some now \<Longrightarrow> now < T + ttl" for now
    using assms(2) by (induction op r rule: sweep_time.induct) (auto simp: quiet_op_def timed_def op_time_def)
  moreover have "filter (expired ttl now) (queue d k) = []" if "now < T + ttl" for now
    using assms(1) that by (fastforce simp: young_def list_all_iff queue_def expired_def filter_empty_conv)
  ultimately show "expired_in ttl k op r d = {#}"
    by (auto simp: expired_in_def split: option.split)
qed

lemma quiet_run:
  assumes "store_wf s" and "young k T (tables s)" and "list_all (\<lambda>x. quiet_op k T (st_retention_ttl_secs s) (fst x)) ss"
  shows "tally perform (acked_mail k) ss s = {#} \<and> tally perform (expired_mail k) ss s = {#}"
  using assms
proof (induction ss arbitrary: s)
  case (Cons x ss)
  have live: "alive s" and ok: "db_ok (tables s)" using Cons.prems(1) by (simp_all add: store_wf_def)
  have x: "quiet_op k T (st_retention_ttl_secs s) (fst x)" using Cons.prems(3) by simp
  have "young k T (tables (perform x s)) \<and> st_retention_ttl_secs (perform x s) = st_retention_ttl_secs s"
    using live
  proof (cases rule: perform_cases [of s x])
    case (2 d')
    then have "d' = op_effect (st_retention_ttl_secs s) (st_pull_lease_secs s) (fst x) (tables s)"
      by (simp add: op_effect_def)
    then show ?thesis using 2 young_op [OF ok Cons.prems(2) x] by simp
  qed (use Cons.prems in simp)
  then show ?case
    using Cons.IH [OF perform_wf [OF Cons.prems(1)]] Cons.prems(3) quiet_keeps [OF Cons.prems(2) x]
    by (simp add: acked_mail_def expired_mail_def)
qed simp

subsection \<open>Executions\<close>

text \<open>The clocks that the requests and sweeps of an execution read, and requests that acknowledge on
  a route.\<close>

fun timed_event :: "int \<Rightarrow> int \<Rightarrow> event \<Rightarrow> bool" where
  "timed_event T U (Arrive req amb) \<longleftrightarrow> T \<le> now_unix_secs amb \<and> now_unix_secs amb < U"
| "timed_event T U (SweepDue amb) \<longleftrightarrow> T \<le> now_unix_secs amb \<and> now_unix_secs amb < U"
| "timed_event T U _ \<longleftrightarrow> True"

fun acks_on :: "digest_fun \<Rightarrow> string \<Rightarrow> event \<Rightarrow> bool" where
  "acks_on sha k (Arrive (AckReq h b) amb) \<longleftrightarrow>
     (case resolve_route_token h of Inr channel \<Rightarrow> route_key_for sha channel = k | Inl _ \<Rightarrow> False)"
| "acks_on sha k _ \<longleftrightarrow> False"

lemma keeps_to_mono: "keeps_to W R t \<Longrightarrow> (\<And>op. W op \<Longrightarrow> W' op) \<Longrightarrow> keeps_to W' R t"
  by (induction t) auto

lemma event_keeps_calls:
  assumes "\<And>req amb op. e = Arrive req amb \<Longrightarrow> calls sha amb req op \<Longrightarrow> W op"
    and "\<And>amb. e = SweepDue amb \<Longrightarrow> W (OpSweep (now_unix_secs amb))"
  shows "event_keeps sha p W e"
proof (cases e)
  case (Arrive req amb)
  from assms(1) [OF this] keeps_to_mono [OF keeps_calls] show ?thesis
    unfolding event_keeps_def Arrive by (simp only: event.case) blast
next
  case (SweepDue amb)
  with assms(2) have "keeps_to W (\<lambda>_. True) (sweep_task amb c)" for c
    by (auto simp: sweep_task_def split: sum.split store_out.split)
  then show ?thesis by (simp add: event_keeps_def SweepDue)
qed (simp_all add: event_keeps_def)

lemma timed_event_keeps: "timed_event T U e \<Longrightarrow> event_keeps sha p (timed T U) e"
  by (rule event_keeps_calls) (auto simp: timed_def calls_def op_time_def split: store_op.splits)

lemma quiet_event_keeps:
  assumes "timed_event T (T + ttl) e" and "\<not> acks_on sha k e"
  shows "event_keeps sha p (quiet_op k T ttl) e"
proof (rule event_keeps_calls)
  fix req amb op assume "e = Arrive req amb" "calls sha amb req op"
  with assms show "quiet_op k T ttl op"
    by (cases op) (auto simp: quiet_op_def timed_def calls_def op_time_def split: request.splits)
qed (use assms in \<open>auto simp: quiet_op_def timed_def op_time_def\<close>)

text \<open>
  C6: Nothing is lost under concurrency. Over any execution whose clocks stay within the
  retention of the oldest queued message and in which nobody acknowledges on the route, however
  requests overlap, fail or lose their clients, the messages queued for the route at the start and
  those that pushes to it stored are, counted with multiplicity, those that legacy pulls of it
  took and those still queued. When every client has heard its answer, the pushes that stored and
  the messages taken are those that the answers report.
\<close>

theorem nothing_lost:
  fixes p :: parsers
  assumes "app_reachable st" and "\<forall>m \<in> set (queue (tables (store st)) k). T \<le> enqueued_at m"
    and "list_all (timed_event T (T + st_retention_ttl_secs (store st))) es" and "\<not> list_ex (acks_on sha k) es"
  defines "P \<equiv> execute_pool sha p es (idle st)"
  shows "mailbox k (store st) + pick (accepted_at k) (pool_deeds sha p P) =
      mailbox k (store (shared P)) + pick (delivered_at k) (pool_deeds sha p P) \<and>
    (list_all heard (jobs P) \<longrightarrow> pool_told sha p P = pool_deeds sha p P)"
proof
  let ?W = "quiet_op k T (st_retention_ttl_secs (store st))"
  have wf: "store_wf (store st)" using app_reachable_ok [OF assms(1)] by (simp add: app_ok_def)
  have "list_all (event_keeps sha p ?W) es"
    using assms(3,4) quiet_event_keeps by (auto simp: list_all_iff list_ex_iff)
  then obtain ss where W: "list_all (\<lambda>s. ?W (fst s)) ss" and run: "store (shared P) = run_steps perform ss (store st)"
    and acc: "pool_deeds sha p P = tally perform did ss (store st)"
    unfolding P_def by (rule execution_serial_ops)
  have "young k T (tables (store st))"
    using assms(2) by (auto simp: young_def list_all_iff queue_def)
  from quiet_run [OF wf this W] mail.conserved [OF wf, of k ss]
  show "mailbox k (store st) + pick (accepted_at k) (pool_deeds sha p P) =
      mailbox k (store (shared P)) + pick (delivered_at k) (pool_deeds sha p P)"
    by (simp add: run acc tally_accounts [symmetric] tally_add)
  show "list_all heard (jobs P) \<longrightarrow> pool_told sha p P = pool_deeds sha p P"
    by (simp add: all_told)
qed

end
