(* ===== verification/Leases.thy ===== *)
theory Leases imports Lossless begin

text \<open>
  Leases under concurrency. Within the length of one lease no copy of a message is handed to two
  readers, however pulls of both modes, acknowledgements, pushes and sweeps overlap.
\<close>

subsection \<open>The copies a reader can still be handed before a time\<close>

definition unlent :: "int \<Rightarrow> msg_row \<Rightarrow> bool" where
  "unlent U m \<longleftrightarrow> (case leased_until m of None \<Rightarrow> True | Some t \<Rightarrow> t < U)"

definition within_reach :: "string \<Rightarrow> int \<Rightarrow> db \<Rightarrow> StoredMsg multiset" where
  "within_reach k U d = mset (map stored (filter (unlent U) (queue d k)))"

lemma within_reach_filter:
  assumes "queue d' k = filter q (queue d k)"
  shows "within_reach k U d' \<subseteq># within_reach k U d"
proof -
  have "within_reach k U d = mset (map stored (filter q (filter (unlent U) (queue d k)))) +
      mset (map stored (filter (\<lambda>m. \<not> q m) (filter (unlent U) (queue d k))))"
    unfolding within_reach_def by (rule mset_filter_split [symmetric])
  moreover have "filter (unlent U) (queue d' k) = filter q (filter (unlent U) (queue d k))"
    by (simp add: assms conj_commute)
  ultimately show ?thesis by (simp only: within_reach_def mset_subset_eq_add_left)
qed

lemma within_reach_simps [simp]:
  "within_reach k U (touch j now d) = within_reach k U d"
  "within_reach k U (map_invites q f d) = within_reach k U d"
  "within_reach k U (add_invite i d) = within_reach k U d"
  by (simp_all add: within_reach_def add_invite_def queue_def map_invites_def)

lemma within_reach_swept: "mail_ok d \<Longrightarrow> within_reach k U (swept ttl now d) \<subseteq># within_reach k U d"
  by (rule within_reach_filter [where q = "\<lambda>m. \<not> expired ttl now m"]) (simp add: queue_swept)

lemma within_reach_acknowledged: "mail_ok d \<Longrightarrow> within_reach k U (acknowledged j ids d) \<subseteq># within_reach k U d"
  by (rule within_reach_filter [where q = "\<lambda>m. \<not> acked_by j ids m"]) (simp add: acknowledged_keep)

lemma within_reach_accepted:
  "within_reach k U (accepted j lid mid b now d) = within_reach k U d + (if j = k then {#(mid, b)#} else {#})"
  by (simp add: within_reach_def queue_accepted unlent_def stored_def new_message_def)

text \<open>Taking some of the copies in reach out of reach.\<close>

lemma taken_out:
  assumes "distinct xs" and "distinct ms" and "set ms \<subseteq> {m \<in> set xs. q m}"
  shows "mset (map f (filter (\<lambda>m. q m \<and> m \<notin> set ms) xs)) + mset (map f ms) = mset (map f (filter q xs))"
proof -
  have "set (filter (\<lambda>m. m \<in> set ms) (filter q xs)) = set ms" using assms(3) by auto
  then have "mset (filter (\<lambda>m. m \<in> set ms) (filter q xs)) = mset ms"
    using assms(1,2) set_eq_iff_mset_eq_distinct distinct_filter by metis
  then have "mset (map f ms) = mset (map f (filter (\<lambda>m. m \<in> set ms) (filter q xs)))" by (simp add: mset_map)
  then show ?thesis
    using mset_filter_split [of f "\<lambda>m. m \<in> set ms" "filter q xs"] by (simp add: ac_simps conj_commute)
qed

lemma within_reach_pull:
  assumes "mail_ok d" and "now < U" and "U \<le> dl"
  shows "within_reach k U (legacy_delivered j now (pulled now j mx mb d) d) +
      (if j = k then mset (map stored (pulled now j mx mb d)) else {#}) \<subseteq># within_reach k U d"
    and "within_reach k U (lease_delivered j now dl (pulled now j mx mb d) d) +
      (if j = k then mset (map stored (pulled now j mx mb d)) else {#}) \<subseteq># within_reach k U d"
proof -
  let ?ms = "pulled now j mx mb d" and ?q = "queue d j"
  have sub: "set ?ms \<subseteq> set ?q" using pulled_subset by blast
  have "set ?ms \<subseteq> {m \<in> set ?q. unlent U m}"
    using pulled_subset [of now j mx mb d] assms(2) by (force simp: unlent_def available_def split: option.splits)
  from taken_out [OF queue_distinct(1) [OF assms(1)] pulled_distinct [OF assms(1)] this, of stored]
  have out: "mset (map stored (filter (\<lambda>m. unlent U m \<and> m \<notin> set ?ms) ?q)) + mset (map stored ?ms) = within_reach j U d"
    by (simp add: within_reach_def)
  have other: "m \<notin> set ?ms" if "m \<in> set (queue d k)" "j \<noteq> k" for m
    using sub that by (auto simp: queue_def)
  have "queue (legacy_delivered j now ?ms d) k = filter (\<lambda>m. m \<notin> set ?ms) (queue d k)"
    by (simp add: legacy_delivered_keep [OF assms(1) sub] Let_def)
  then have "within_reach k U (legacy_delivered j now ?ms d) =
      mset (map stored (filter (\<lambda>m. unlent U m \<and> m \<notin> set ?ms) (queue d k)))"
    by (simp add: within_reach_def conj_commute)
  then show "within_reach k U (legacy_delivered j now ?ms d) + (if j = k then mset (map stored ?ms) else {#})
      \<subseteq># within_reach k U d"
    using out other by (cases "j = k") (auto simp: within_reach_def intro!: arg_cong [where f = mset] cong: filter_cong)
  let ?lend = "\<lambda>m. if m \<in> set ?ms then m\<lparr>leased_until := Some dl\<rparr> else m"
  have "queue (lease_delivered j now dl ?ms d) k = map ?lend (queue d k)"
  proof (cases "?ms = []")
    case False
    have "seq m \<in> set (map seq ?ms) \<longleftrightarrow> m \<in> set ?ms" if "m \<in> set (queue d k)" for m
      using seq_in_pulled [OF assms(1) sub, of m] that by (simp add: queue_def)
    then show ?thesis using False by (simp add: lease_delivered_def queue_lease_seqs)
  qed (simp add: lease_delivered_def)
  moreover have "map stored (filter (unlent U) (map ?lend xs)) = map stored (filter (\<lambda>m. unlent U m \<and> m \<notin> set ?ms) xs)" for xs
    using assms(3) by (induction xs) (auto simp: unlent_def stored_def)
  ultimately have "within_reach k U (lease_delivered j now dl ?ms d) =
      mset (map stored (filter (\<lambda>m. unlent U m \<and> m \<notin> set ?ms) (queue d k)))"
    by (simp only: within_reach_def)
  then show "within_reach k U (lease_delivered j now dl ?ms d) + (if j = k then mset (map stored ?ms) else {#})
      \<subseteq># within_reach k U d"
    using out other by (cases "j = k") (auto simp: within_reach_def cong: filter_cong)
qed

subsection \<open>One operation\<close>

lemma i64_add_window: "0 \<le> T \<Longrightarrow> T + 2 * L < 2 ^ 63 \<Longrightarrow> T \<le> t \<Longrightarrow> t < T + L \<Longrightarrow> i64_add t L = t + L"
  by (simp add: i64_add_def)

lemma reach_pull:
  assumes "mail_ok d" and "run_op ttl L op d = (r, d')" and "timed T (T + L) op" and "0 \<le> T" "T + 2 * L < 2 ^ 63"
    and op: "op = OpPull j mx mb now mode"
  shows "within_reach k (T + L) d' + pick (handed_at k) (deeds op r) \<subseteq># within_reach k (T + L) d"
proof -
  let ?s = "swept ttl now d" and ?ms = "pulled now j mx mb (swept ttl now d)"
  have now: "T \<le> now" "now < T + L" using assms(3) by (simp_all add: op timed_def op_time_def)
  then have dl: "T + L \<le> i64_add now L" using i64_add_window assms(4,5) by simp
  have taken: "within_reach k (T + L) d' + (if j = k then mset (map stored ?ms) else {#}) \<subseteq># within_reach k (T + L) ?s"
    using assms(2) within_reach_pull [OF mail_ok_swept [OF assms(1)] now(2) dl, where k = k and j = j and mx = mx and mb = mb]
    by (cases mode) (auto simp: op run_op_def out_as_def pull_legacy_run pull_lease_run Let_def)
  have "pick (handed_at k) (deeds op r) = (if j = k then mset (map stored ?ms) else {#})"
  proof -
    obtain x where "r = Inr (OutPull x)" "pull_items x = map stored ?ms"
      using assms(2) by (cases mode) (auto simp: op run_op_def out_as_def pull_legacy_run pull_lease_run Let_def stored_eta)
    moreover have "pick (handed_at k) (deeds op (Inr (OutPull y))) = (if j = k then mset (pull_items y) else {#})" for y
      by (cases mode) (simp_all add: op)
    ultimately show ?thesis by (simp only:)
  qed
  with subset_mset.order_trans [OF taken within_reach_swept [OF assms(1)]] show ?thesis by (simp only:)
qed

lemma reach_op:
  assumes "db_ok d" and "run_op ttl L op d = (r, d')" and "timed T (T + L) op" and "0 \<le> T" "T + 2 * L < 2 ^ 63"
  shows "within_reach k (T + L) d' + pick (handed_at k) (deeds op r) \<subseteq># within_reach k (T + L) d + accepted_in k op r"
proof -
  have mail: "mail_ok d" and dist: "distinct (map slot_key (invites d))"
    using assms(1) by (simp_all add: db_ok_def slots_ok_def)
  note sw = within_reach_swept [OF mail] and ack = within_reach_acknowledged [OF mail_ok_swept [OF mail]]
  show ?thesis
  proof (cases op)
    case (OpPull j mx mb now mode)
    from reach_pull [OF mail assms(2-5) this] show ?thesis by (simp add: OpPull)
  next
    case (OpAck j ids now)
    have "within_reach k (T + L) (acknowledged j ids (swept ttl now d)) \<subseteq># within_reach k (T + L) d"
      using sw ack by (metis subset_mset.order_trans)
    then show ?thesis using assms(2) by (auto simp: OpAck run_op_def out_as_def ack_run Let_def)
  next
    case (OpEnqueue j lid mid b now D R ticket)
    have no: "accepted_in k op (Inr (OutEnqueue c)) = {#}" "deeds op (Inr (OutEnqueue c)) = {#}"
      if "capacity_refusal j D R d = Some c" for c
      using that OpEnqueue by (auto simp: capacity_refusal_def split: if_splits)
    show ?thesis
      using assms(2) OpEnqueue no
      by (auto simp: run_op_def out_as_def enqueue_run within_reach_accepted split: option.splits if_splits)
  next
    case (OpSweep now)
    then show ?thesis using assms(2) sw by (auto simp: run_op_def out_as_def retention_sweep_run)
  next
    case (OpStatus j now)
    then show ?thesis using assms(2) sw by (auto simp: run_op_def out_as_def route_status_run)
  next
    case (OpCreate j lid ch rh bun sg until now m)
    then show ?thesis
      using assms(2) sw by (auto simp: run_op_def out_as_def invite_create_run Let_def split: if_splits)
  next
    case (OpRedeem j now th verify)
    have none: "within_reach k U (consume_slot j now th d) = within_reach k U d" for U by (simp add: consume_slot_def)
    moreover have "pick (handed_at k) (deeds op (Inr (OutRedeem x))) = {#}" for x
      by (cases x) (simp_all add: OpRedeem)
    ultimately show ?thesis
      using assms(2) OpRedeem by (auto simp: run_op_def out_as_def invite_redeem_run [OF dist] split: option.splits)
  next
    case (OpRevoke j verify)
    then show ?thesis
      using assms(2) by (auto simp: run_op_def out_as_def invite_revoke_run revoke_slot_def split: option.splits)
  qed
qed

subsection \<open>Executions\<close>

definition reach :: "string \<Rightarrow> int \<Rightarrow> Store \<Rightarrow> StoredMsg multiset" where
  "reach k U st = within_reach k U (tables st)"

definition handed :: "string \<Rightarrow> step \<Rightarrow> Store \<Rightarrow> StoredMsg multiset" where
  "handed k s st = pick (handed_at k) (did s st)"

text \<open>A store whose leases last \<open>L\<close> seconds, and a step in the \<open>L\<close> seconds from \<open>T\<close> on.\<close>

definition lends_for :: "int \<Rightarrow> Store \<Rightarrow> bool" where
  "lends_for L st \<longleftrightarrow> store_wf st \<and> st_pull_lease_secs st = L"

definition in_window :: "int \<Rightarrow> int \<Rightarrow> step \<Rightarrow> Store \<Rightarrow> bool" where
  "in_window T L s st \<longleftrightarrow> timed T (T + L) (fst s) \<and> 0 \<le> T \<and> T + 2 * L < 2 ^ 63"

interpretation lease: spending "lends_for L" perform "in_window T L" "reach k (T + L)" "accepted_mail k" "handed k"
  for k T L
proof unfold_locales
  fix s st
  assume wf: "lends_for L st" and window: "in_window T L s st"
  then have live: "alive st" and ok: "db_ok (tables st)" and L: "st_pull_lease_secs st = L"
    by (simp_all add: lends_for_def store_wf_def)
  have "st_pull_lease_secs (perform s st) = st_pull_lease_secs st"
    using live by (cases rule: perform_cases [of st s]) simp_all
  then show "lends_for L (perform s st)"
    using wf perform_wf by (simp add: lends_for_def)
  from live show "reach k (T + L) (perform s st) + handed k s st \<subseteq># reach k (T + L) st + accepted_mail k s st"
  proof (cases rule: perform_cases [of st s])
    case (1 e)
    then show ?thesis by (simp add: handed_def did_def accepted_mail_def)
  next
    case (2 d')
    from reach_op [OF ok 2(1) [unfolded L]] window 2(2) show ?thesis
      by (simp add: in_window_def reach_def handed_def did_def accepted_mail_def)
  qed
qed

lemma window_run:
  "list_all (\<lambda>s. timed T (T + L) (fst s)) ss \<Longrightarrow> 0 \<le> T \<Longrightarrow> T + 2 * L < 2 ^ 63 \<Longrightarrow> calm_run perform (in_window T L) ss st"
  by (induction ss arbitrary: st) (simp_all add: in_window_def)

lemma reach_mailbox: "reach k U st \<subseteq># mailbox k st"
  by (simp add: reach_def within_reach_def mailbox_def held_def image_mset_subseteq_mono)

text \<open>
  C7: Leases are exclusive under concurrency. Over any execution whose clocks stay within the
  length of one lease, however pulls, pushes, acknowledgements and sweeps of any clients overlap
  and whatever fails, the messages that pulls of a route were answered with, legacy and leased
  together, are, counted with multiplicity, among those queued for the route at the start and
  not leased beyond that time, and those that pushes to it were answered 200 for: no copy is
  handed to two readers.
\<close>

theorem lease_race:
  fixes p :: parsers
  assumes "app_reachable st" and "0 \<le> T" "T + 2 * st_pull_lease_secs (store st) < 2 ^ 63"
    and "list_all (timed_event T (T + st_pull_lease_secs (store st))) es"
  shows "pick (handed_at k) (pool_told sha p (execute_pool sha p es (idle st))) \<subseteq>#
    reach k (T + st_pull_lease_secs (store st)) (store st) +
    pick (accepted_at k) (pool_deeds sha p (execute_pool sha p es (idle st)))"
proof -
  let ?P = "execute_pool sha p es (idle st)" and ?L = "st_pull_lease_secs (store st)"
  have wf: "lends_for ?L (store st)"
    using app_reachable_ok [OF assms(1)] by (simp add: app_ok_def lends_for_def)
  have "list_all (event_keeps sha p (timed T (T + ?L))) es"
    using assms(4) timed_event_keeps by (auto simp: list_all_iff)
  then obtain ss where W: "list_all (\<lambda>s. timed T (T + ?L) (fst s)) ss"
    and acc: "pool_deeds sha p ?P = tally perform did ss (store st)" by (rule execution_serial_ops)
  note spent = lease.spent [OF wf window_run [OF W assms(2,3)], of k]
  have "tally perform (handed k) ss (store st) \<subseteq>#
      reach k (T + ?L) (run_steps perform ss (store st)) + tally perform (handed k) ss (store st)"
    by (rule mset_subset_eq_add_right)
  note spent = subset_mset.order_trans [OF this spent]
  have "tally perform (handed k) ss (store st) = pick (handed_at k) (pool_deeds sha p ?P)"
    by (simp add: acc handed_def [abs_def] pick_tally)
  with spent have "pick (handed_at k) (pool_deeds sha p ?P) \<subseteq>#
      reach k (T + ?L) (store st) + pick (accepted_at k) (pool_deeds sha p ?P)"
    by (simp only: tally_accounts acc)
  from subset_mset.order_trans [OF pick_mono [OF pool_told_deeds] this] show ?thesis .
qed

end
