(* ===== verification/Expiry.thy ===== *)
theory Expiry imports Lossless Clients begin

text \<open>
  When a push can find its slot expired. A push sweeps the expired slots in its first store call,
  at its own time, so the slot it finds in its second store call has expired only if a create put
  it there in between, with an expiry that was over already.
\<close>

subsection \<open>Creates of a slot\<close>

text \<open>A request that creates the slot \<open>k\<close> with an expiry not after \<open>T\<close>. A create refuses an expiry
  that is not after the clock it read, so it read a clock before \<open>T\<close>.\<close>

definition opens_late :: "digest_fun \<Rightarrow> parsers \<Rightarrow> AppState \<Rightarrow> string \<Rightarrow> int \<Rightarrow> request \<Rightarrow> ambient \<Rightarrow> bool" where
  "opens_late sha p c k T req amb =
    (case req of
       CreateReq h b \<Rightarrow>
         (case parse_create p b of
            None \<Rightarrow> False
          | Some x \<Rightarrow> route_key_for sha (create_invite_id x) = k \<and> slot_until c amb x \<le> T)
     | _ \<Rightarrow> False)"

text \<open>The store operations of a request that create a slot: the one its body names, until the
  clamped expiry.\<close>

definition creates_own :: "digest_fun \<Rightarrow> parsers \<Rightarrow> AppState \<Rightarrow> request \<Rightarrow> ambient \<Rightarrow> store_op \<Rightarrow> bool" where
  "creates_own sha p c req amb op =
    (case op of
       OpCreate k lid ch rh bun sg until now m \<Rightarrow>
         (case req of
            CreateReq h b \<Rightarrow>
              (case parse_create p b of
                 None \<Rightarrow> False
               | Some x \<Rightarrow> k = route_key_for sha (create_invite_id x) \<and> until = slot_until c amb x)
          | _ \<Rightarrow> False)
     | _ \<Rightarrow> True)"

lemma creates_own_simps [simp]:
  "creates_own sha p c req amb (OpStatus k now)" "creates_own sha p c req amb (OpSweep now)"
  "creates_own sha p c req amb (OpRedeem k now th verify)" "creates_own sha p c req amb (OpRevoke k v)"
  "creates_own sha p c req amb (OpEnqueue k lid mid b now D R ticket)"
  "creates_own sha p c req amb (OpPull k mx mb now mode)" "creates_own sha p c req amb (OpAck k ids now)"
  by (simp_all add: creates_own_def)

lemma create_body_until:
  assumes "fst (create_body parse amb b c) = Inr (x, bun, sg, until)"
  shows "parse b = Some x" and "until = slot_until c amb x"
  using assms
  by (auto simp: create_body_def create_validate_def h_json_def h_guard_def h_bind_def h_run Let_def
      split: option.splits prod.splits sum.splits if_splits)

lemma keeps_creates: "keeps_to (creates_own sha p c req amb) (\<lambda>_. True) (app_task sha p amb req c)"
proof -
  let ?W = "\<lambda>req. creates_own sha p c req amb" and ?Q = "\<lambda>_::response. True"
  have push: "keeps_to (?W r) ?Q (t_push_answer c key lid mid n out)" for r key lid mid n out
    by (cases out) (simp_all add: t_push_answer_def)
  have enqueue: "keeps_to (?W r) ?Q (t_enqueue sha amb h b mid c key lid)" for r h b mid key lid
    unfolding t_enqueue_def by (intro keeps_to_store keeps_to_outcome push) simp_all
  have create: "keeps_to (?W r) ?Q (t_create_answer lid until token n out)" for r lid until token n out
    by (cases out) (simp_all add: t_create_answer_def)
  have "keeps_to (?W (PushReq h b)) ?Q (push_task sha amb h b c)" for h b
    unfolding push_task_def Let_def
    by (intro keeps_to_own keeps_to_store keeps_to_outcome)
       (auto simp: keeps_to_gates enqueue simp del: keeps_to.simps(4))
  moreover have "keeps_to (?W (PullReq h q)) ?Q (pull_task sha amb h q c)" for h q
    unfolding pull_task_def Let_def split_def
    by (intro keeps_to_own keeps_to_store keeps_to_outcome) (simp_all add: t_pull_answer_def)
  moreover have "keeps_to (?W (AckReq h b)) ?Q (ack_task sha (parse_ack p) amb h b c)" for h b
    unfolding ack_task_def Let_def split_def
    by (intro keeps_to_own keeps_to_store keeps_to_outcome) simp_all
  moreover have "keeps_to (?W (CreateReq h b)) ?Q (create_task sha (parse_create p) amb h b c)" for h b
    unfolding create_task_def Let_def
  proof (intro keeps_to_own keeps_to_gates early_any TrueI, clarify)
    fix x bun sg until il
    assume "fst (create_body (parse_create p) amb b c) = Inr (x, bun, sg, until)"
    note parsed = create_body_until [OF this]
    show "keeps_to (?W (CreateReq h b)) ?Q (t_store (OpCreate (route_key_for sha (create_invite_id x))
        (channel_log_id (create_invite_id x)) (create_cap_hash x) (sha256_hex sha (random_token_128 (uuid_bytes amb)))
        bun sg until (now_unix_secs amb) (max_slots il)) (faults1 amb) (\<lambda>out.
          case out of
            OutCreate o' \<Rightarrow> t_create_answer (channel_log_id (create_invite_id x)) until
              (random_token_128 (uuid_bytes amb)) (max_slots il) o'
          | _ \<Rightarrow> t_fail 500 ''ERR_STORE''))"
      by (intro keeps_to_store keeps_to_outcome create) (simp_all add: creates_own_def parsed)
  qed
  moreover have "keeps_to (?W (RedeemReq h b)) ?Q (redeem_task sha (parse_redeem p) amb h b c)" for h b
    unfolding redeem_task_def Let_def
    by (intro keeps_to_own keeps_to_store keeps_to_outcome) (simp_all split: InviteRedeemOutcome.split)
  moreover have "keeps_to (?W (RevokeReq h b)) ?Q (revoke_task sha (parse_revoke p) amb h b c)" for h b
    unfolding revoke_task_def Let_def
    by (intro keeps_to_own keeps_to_store keeps_to_outcome) simp_all
  moreover have "keeps_to (?W (InfoReq h)) ?Q (info_task sha h c)" for h
    by (simp add: info_task_def t_own_def split: sum.split)
  ultimately show ?thesis by (cases req) (simp_all add: app_task_def)
qed

subsection \<open>A slot that has not expired\<close>

text \<open>The slot \<open>k\<close>, if there is one, lives after \<open>T\<close>; and operations that keep it so.\<close>

definition unexpired :: "string \<Rightarrow> int \<Rightarrow> db \<Rightarrow> bool" where
  "unexpired k T d \<longleftrightarrow> (\<forall>i. find_invite k d = Some i \<longrightarrow> T < expiry i)"

definition opens_in_time :: "string \<Rightarrow> int \<Rightarrow> store_op \<Rightarrow> bool" where
  "opens_in_time k T op =
    (case op of OpCreate j lid ch rh bun sg until now m \<Rightarrow> j = k \<longrightarrow> T < until | _ \<Rightarrow> True)"

lemma unexpired_swept: "db_ok d \<Longrightarrow> unexpired k now (swept ttl now d)"
  by (auto simp: unexpired_def find_invite_swept split: option.splits if_splits)

lemma unexpired_sweeps: "db_ok d \<Longrightarrow> unexpired k T d \<Longrightarrow> unexpired k T (swept ttl now d)"
  by (auto simp: unexpired_def find_invite_swept split: option.splits if_splits)

lemma unexpired_op:
  assumes "db_ok d" and "unexpired k T d" and "opens_in_time k T op"
  shows "unexpired k T (op_effect ttl lease_secs op d)"
proof -
  have dist: "distinct (map slot_key (invites d))" using assms(1) by (simp add: db_ok_def slots_ok_def)
  have mails: "mail_ok (swept ttl now d)" for now
    using db_ok_swept [OF assms(1)] by (simp add: db_ok_def)
  note sw = unexpired_sweeps [OF assms(1,2), of ttl]
  have mapped: "unexpired k T (map_invites (\<lambda>i. slot_key i = j \<and> q i) f d)"
    if "\<And>i. slot_key (f i) = slot_key i" "\<And>i. expiry (f i) = expiry i" for f j q
    using assms(2) find_invite_map [OF that(1), of k j q d] that(2)
    by (auto simp: unexpired_def split: if_splits option.splits)
  note unfold = op_effect_def run_op_def out_as_def
  show ?thesis
  proof (cases op)
    case (OpSweep now)
    then show ?thesis by (simp add: unfold retention_sweep_run sw)
  next
    case (OpStatus j now)
    then show ?thesis by (simp add: unfold route_status_run sw)
  next
    case (OpCreate j lid ch rh bun sg until now m)
    then show ?thesis
      using assms(2,3) sw [of now]
      by (auto simp: unfold invite_create_run Let_def unexpired_def opens_in_time_def find_invite_add
          new_invite_def split: option.splits if_splits)
  next
    case (OpRedeem j now th verify)
    have "unexpired k T (consume_slot j now th d)"
      unfolding consume_slot_def by (rule mapped) (simp_all add: consume_def)
    then show ?thesis
      using assms(2) OpRedeem by (simp add: unfold invite_redeem_run [OF dist] split: option.split)
  next
    case (OpRevoke j verify)
    have "unexpired k T (revoke_slot j d)"
      unfolding revoke_slot_def using mapped [of revoke j "\<lambda>_. True"] by (simp add: revoke_def)
    then show ?thesis
      using assms(2) OpRevoke by (simp add: unfold invite_revoke_run split: option.split)
  next
    case (OpEnqueue j lid mid b now D R ticket)
    have "unexpired k T (accepted j lid mid b now d)"
      using assms(2) by (auto simp: unexpired_def find_invite_accepted burn_def)
    then show ?thesis
      using assms(2) OpEnqueue by (simp add: unfold enqueue_run split: option.split)
  next
    case (OpPull j mx mb now mode)
    then show ?thesis
      using sw [of now]
      by (cases mode) (simp_all add: unfold pull_legacy_run pull_lease_run Let_def unexpired_def
          find_invite_deliveries [OF mails])
  next
    case (OpAck j ids now)
    then show ?thesis
      using sw [of now] by (simp add: unfold ack_run Let_def unexpired_def find_invite_deliveries [OF mails])
  qed
qed

lemma unexpired_exec:
  assumes "store_wf s" and "unexpired k T (tables s)" and "opens_in_time k T op"
  shows "unexpired k T (tables (snd (exec op fs s)))"
  using exec_step [of s op fs "fst (exec op fs s)" "snd (exec op fs s)"] assms unexpired_op
  by (auto simp: store_wf_def)

subsection \<open>The push\<close>

abbreviation invite_expired :: response where
  "invite_expired \<equiv> Reply 410 (Code ''ERR_INVITE_EXPIRED'')"

text \<open>The store calls that find a slot expired, and those that sweep the slots at \<open>T\<close>.\<close>

definition finds_expired :: "string \<Rightarrow> int \<Rightarrow> store_op \<Rightarrow> string + store_out \<Rightarrow> bool" where
  "finds_expired k T op x \<longleftrightarrow> x = Inr (OutEnqueue (SlotRejected SlotExpired)) \<and>
    (case op of OpEnqueue j lid mid b now D R ticket \<Rightarrow> j = k \<and> now = T | _ \<Rightarrow> False)"

definition sweeps_slots :: "int \<Rightarrow> store_op \<Rightarrow> string + store_out \<Rightarrow> bool" where
  "sweeps_slots T op x \<longleftrightarrow> (\<exists>y. x = Inr y) \<and> (case op of OpStatus j now \<Rightarrow> now = T | _ \<Rightarrow> False)"

text \<open>A task that answers \<open>invite_expired\<close> only when its slot expires between its sweep and its
  enqueue; the flag says that it has swept.\<close>

primrec careful :: "string \<Rightarrow> int \<Rightarrow> response task \<Rightarrow> bool \<Rightarrow> bool" where
  "careful k T (Answer r) = (\<lambda>b. r \<noteq> invite_expired)"
| "careful k T (Emit e t) = careful k T t"
| "careful k T (StoreCall op fs g) =
    (\<lambda>b. \<forall>x. \<not> (b \<and> finds_expired k T op x) \<longrightarrow> careful k T (g x) (b \<or> sweeps_slots T op x))"
| "careful k T (PushGate amb key lid g) = (\<lambda>b. \<forall>x. gate_result x \<longrightarrow> careful k T (g x) b)"
| "careful k T (CreateGate amb g) = (\<lambda>b. \<forall>x. gate_result x \<longrightarrow> careful k T (g x) b)"
| "careful k T (PruneBuckets ks t) = careful k T t"

lemma careful_parts [simp]:
  "careful k T (foldr Emit es t) = careful k T t"
  "careful k T (t_prune c stats t) = careful k T t"
  "careful k T (t_fail n code) = (\<lambda>b. Reply n (Code code) \<noteq> invite_expired)"
proof -
  show emits: "careful k T (foldr Emit es t) = careful k T t" for es and t by (induction es) simp_all
  show "careful k T (t_prune c stats t) = careful k T t" by (simp add: t_prune_def emits)
qed (simp add: t_fail_def)

lemma careful_push:
  assumes "resolve_route_token h = Inr channel" and "k = route_key_for sha channel" and "T = now_unix_secs amb"
  shows "careful k T (push_task sha amb h b c) False"
proof -
  have answer: "careful k T (t_push_answer c key lid mid n out) flag" if "out \<noteq> SlotRejected SlotExpired"
    for key lid mid n out flag
    using that by (cases out) (auto simp: t_push_answer_def slot_reply_def split: SlotReject.split)
  have enqueue: "careful k T (t_enqueue sha amb h b mid c k lid) True" for mid lid
    by (auto simp: t_enqueue_def t_store_def finds_expired_def assms(3) answer [unfolded assms(3)] split: sum.split store_out.split)
  have gate: "careful k T (PushGate amb k lid (t_gate (t_enqueue sha amb h b mid c k lid))) True" for lid mid
    by (auto simp: t_gate_def gate_result_def enqueue split: sum.splits)
  have admit: "early (\<lambda>r. r \<noteq> invite_expired) (push_admit sha h b)"
    unfolding push_admit_def by (auto intro!: early_rules)
  have rest: "careful k T (t_store (OpStatus k (now_unix_secs amb)) (faults1 amb) (\<lambda>out. case out of
         OutStatus status \<Rightarrow>
           t_prune c (status_sweep status)
             (if route_exists status \<and> max_queue_depth (app_limits c) \<le> depth status then
                Emit (QueueOverloaded (depth status) (max_queue_depth (app_limits c))) (t_fail 429 ''ERR_OVERLOADED'')
              else if \<not> route_exists status \<and> max_route_count (app_controls c) \<le> live_routes status then
                Emit (RouteCapReached lid (live_routes status) (max_route_count (app_controls c))) (t_fail 429 ''ERR_ROUTE_CAP'')
              else PushGate amb k lid (t_gate (t_enqueue sha amb h b mid c k lid)))
       | _ \<Rightarrow> t_fail 500 ''ERR_STORE'')) False" for lid mid
    using gate
    by (auto simp: t_store_def sweeps_slots_def assms(3) simp del: careful.simps(4) split: sum.split store_out.split)
  show ?thesis
  proof (cases "fst (push_admit sha h b c)")
    case (Inl r)
    then show ?thesis using admit by (auto simp: push_task_def t_own_def early_def split: sum.splits dest: spec [of _ c])
  next
    case (Inr ch)
    then have "ch = channel" using push_admit_channel assms(1) by fastforce
    with Inr have "fst (push_admit sha h b c) = Inr channel" by simp
    then show ?thesis
      using rest [of "channel_log_id channel" "push_msg_id amb h"]
      unfolding push_task_def t_own_def Let_def assms(2) by (simp only: sum.case)
  qed
qed

text \<open>What holds of such a task on a state: if it has swept, its slot lives after \<open>T\<close>.\<close>

definition on_guard :: "string \<Rightarrow> int \<Rightarrow> response task \<Rightarrow> AppState \<Rightarrow> bool" where
  "on_guard k T t st \<longleftrightarrow> (\<exists>b. careful k T t b \<and> (b \<longrightarrow> unexpired k T (tables (store st))))"

lemma finds_none_expired:
  assumes "store_wf s" and "unexpired k T (tables s)"
  shows "\<not> finds_expired k T op (fst (exec op fs s))"
proof (cases op)
  case (OpEnqueue j lid mid b now D R ticket)
  have cap: "c \<noteq> SlotRejected reason" if "capacity_refusal j D R d = Some c" for c d reason
    using that by (auto simp: capacity_refusal_def split: if_splits)
  have slot: "slot_refusal k T ticket (tables s) \<noteq> Some SlotExpired"
    using assms(2)
    by (auto simp: unexpired_def slot_refusal_def slot_admission_def Let_def split: option.splits if_splits)
  have live: "alive s" using assms(1) by (simp add: store_wf_def)
  show ?thesis
    using exec_cases [OF live, of op fs] slot cap
    by (auto simp: OpEnqueue finds_expired_def run_op_def out_as_def enqueue_run split: option.splits if_splits)
qed (simp_all add: finds_expired_def)

lemma sweep_done:
  assumes "store_wf s" and "sweeps_slots T op (fst (exec op fs s))"
  shows "unexpired k T (tables (snd (exec op fs s)))"
proof -
  obtain j where op: "op = OpStatus j T" using assms(2) by (cases op) (auto simp: sweeps_slots_def)
  have live: "alive s" and ok: "db_ok (tables s)" using assms(1) by (simp_all add: store_wf_def)
  obtain y where "exec op fs s = (Inr y, snd (exec op fs s))"
    using assms(2) by (auto simp: sweeps_slots_def prod_eq_iff)
  from exec_effect(2) [OF live this] show ?thesis
    by (simp add: op op_effect_def run_op_def out_as_def route_status_run unexpired_swept [OF ok])
qed

lemma advance_store:
  "\<not> (\<exists>op fs g. t = StoreCall op fs g) \<Longrightarrow> store (snd (snd (advance t st))) = store st"
  using keeps_store_basic(6,9)
  by (cases t) (auto simp: case_prod_beta keeps_store_def remove_buckets_def)

lemma advance_unexpired:
  assumes "store_wf (store st)" and "unexpired k T (tables (store st))" and "keeps_to (opens_in_time k T) R t"
  shows "unexpired k T (tables (store (snd (snd (advance t st)))))"
proof (cases "\<exists>op fs g. t = StoreCall op fs g")
  case True
  then show ?thesis using assms unexpired_exec by (auto simp: case_prod_beta)
qed (simp add: advance_store assms(2))

lemma advance_on_guard:
  assumes "store_wf (store st)" and "on_guard k T t st" and "keeps_to (opens_in_time k T) R t"
  shows "on_guard k T (fst (advance t st)) (snd (snd (advance t st)))"
proof -
  obtain b where b: "careful k T t b" "b \<longrightarrow> unexpired k T (tables (store st))"
    using assms(2) by (auto simp: on_guard_def)
  show ?thesis
  proof (cases t)
    case (StoreCall op fs g)
    let ?x = "fst (exec op fs (store st))"
    have "careful k T (g ?x) (b \<or> sweeps_slots T op ?x)"
      using b StoreCall finds_none_expired [OF assms(1)] by auto
    moreover have "unexpired k T (tables (snd (exec op fs (store st))))" if "b \<or> sweeps_slots T op ?x"
      using that b(2) StoreCall assms(3) unexpired_exec [OF assms(1)] sweep_done [OF assms(1)] by auto
    ultimately show ?thesis by (auto simp: StoreCall on_guard_def case_prod_beta)
  next
    case (Answer r)
    then show ?thesis using assms(2) by simp
  next
    case (PushGate amb key lid g)
    then have "careful k T (fst (advance t st)) b" using b(1) gate_results(1) by (simp add: case_prod_beta)
    moreover have "store (snd (snd (advance t st))) = store st" by (rule advance_store) (simp add: PushGate)
    ultimately show ?thesis unfolding on_guard_def using b(2) by auto
  next
    case (CreateGate amb g)
    then have "careful k T (fst (advance t st)) b" using b(1) gate_results(2) by (simp add: case_prod_beta)
    moreover have "store (snd (snd (advance t st))) = store st" by (rule advance_store) (simp add: CreateGate)
    ultimately show ?thesis unfolding on_guard_def using b(2) by auto
  next
    case (Emit e t')
    then show ?thesis using b by (auto simp: on_guard_def)
  next
    case (PruneBuckets ks t')
    then show ?thesis using b by (auto simp: on_guard_def remove_buckets_def)
  qed
qed

subsection \<open>Executions\<close>

text \<open>While a push runs: the state is one the pool reaches, all tasks open the slot in time, and
  the push is on its guard.\<close>

fun in_time :: "string \<Rightarrow> int \<Rightarrow> job \<Rightarrow> bool" where
  "in_time k T (Client req amb t) = keeps_to (opens_in_time k T) (\<lambda>_. True) t"
| "in_time k T (Lost req amb t) = True"
| "in_time k T (Sweeper t) = keeps_to (opens_in_time k T) (\<lambda>_. True) t"

fun guarded :: "string \<Rightarrow> int \<Rightarrow> job \<Rightarrow> AppState \<Rightarrow> bool" where
  "guarded k T (Client req amb t) st = on_guard k T t st"
| "guarded k T _ st = True"

definition watched :: "AppState \<Rightarrow> string \<Rightarrow> int \<Rightarrow> nat \<Rightarrow> pool \<Rightarrow> bool" where
  "watched st k T i P \<longleftrightarrow> pool_ok st P \<and> i < length (jobs P) \<and> list_all (in_time k T) (jobs P) \<and>
     guarded k T (jobs P ! i) (shared P)"

lemma job_step_guard:
  assumes "store_wf (store st)" and "in_time k T j"
  shows "in_time k T (fst (job_step j st))"
    and "guarded k T j st \<Longrightarrow> guarded k T (fst (job_step j st)) (snd (snd (job_step j st)))"
    and "on_guard k T t st \<Longrightarrow> on_guard k T t (snd (snd (job_step j st)))"
proof -
  show "in_time k T (fst (job_step j st))"
    using assms(2) by (cases j) (simp_all add: case_prod_beta keeps_to_advance)
  show "guarded k T (fst (job_step j st)) (snd (snd (job_step j st)))" if "guarded k T j st"
    using assms that advance_on_guard by (cases j) (auto simp: case_prod_beta)
  have "unexpired k T (tables (store (snd (snd (job_step j st)))))" if "unexpired k T (tables (store st))"
  proof (cases j)
    case (Client req amb t)
    then show ?thesis using advance_unexpired [OF assms(1) that, of "\<lambda>_. True" t] assms(2) by (simp add: case_prod_beta)
  next
    case (Sweeper t)
    then show ?thesis using advance_unexpired [OF assms(1) that, of "\<lambda>_. True" t] assms(2) by (simp add: case_prod_beta)
  qed (use that in simp)
  then show "on_guard k T t (snd (snd (job_step j st)))" if "on_guard k T t st"
    using that by (auto simp: on_guard_def)
qed

lemma keeps_in_time:
  assumes "\<not> opens_late sha p c k T req amb" and "keeps_to (creates_own sha p c req amb) R t"
  shows "keeps_to (opens_in_time k T) R t"
proof (rule keeps_to_mono [OF assms(2)])
  fix op assume "creates_own sha p c req amb op"
  then show "opens_in_time k T op"
    using assms(1) by (cases op) (auto simp: creates_own_def opens_in_time_def opens_late_def split: request.splits option.splits)
qed

lemma sweeper_in_time: "keeps_to (opens_in_time k T) R (sweep_task amb c) \<longleftrightarrow> keeps_to (\<lambda>_. True) R (sweep_task amb c)"
  by (simp add: sweep_task_def t_prune_def opens_in_time_def split: sum.split store_out.split)

text \<open>An event that brings no such create.\<close>

fun brings_late :: "digest_fun \<Rightarrow> parsers \<Rightarrow> AppState \<Rightarrow> string \<Rightarrow> int \<Rightarrow> event \<Rightarrow> bool" where
  "brings_late sha p c k T (Arrive req amb) = opens_late sha p c k T req amb"
| "brings_late sha p c k T _ = False"

lemma opens_late_config:
  "config_of c = config_of c' \<Longrightarrow> opens_late sha p c k T req amb = opens_late sha p c' k T req amb"
  by (simp add: opens_late_def config_of_def split: request.split option.split)

lemma creates_own_config:
  "config_of c = config_of c' \<Longrightarrow> creates_own sha p c req amb = creates_own sha p c' req amb"
  by (simp add: fun_eq_iff creates_own_def config_of_def split: store_op.split request.split option.split)

lemma watched_step:
  assumes "app_reachable st" and "watched st k T i P" and "\<not> brings_late sha p st k T e"
  shows "watched st k T i (pool_step sha p e P)"
proof -
  have ok: "pool_ok st P" and i: "i < length (jobs P)" and js: "list_all (in_time k T) (jobs P)"
    and g: "guarded k T (jobs P ! i) (shared P)"
    using assms(2) by (simp_all add: watched_def)
  have ok': "pool_ok st (pool_step sha p e P)" by (rule pool_step_ok [OF ok])
  have steps: "app_step\<^sup>*\<^sup>* st (shared P)" using ok by (simp add: pool_ok_def)
  have wf: "store_wf (store (shared P))"
    using app_reachable_ok [OF app_reachable_steps [OF steps assms(1)]] by (simp add: app_ok_def)
  show ?thesis
  proof (cases e)
    case (Arrive req amb)
    have "\<not> opens_late sha p (shared P) k T req amb"
      using assms(3) Arrive opens_late_config [OF steps_config [OF steps]] by simp
    from keeps_in_time [OF this keeps_creates] show ?thesis
      using ok' i js g Arrive by (simp add: watched_def nth_append)
  next
    case (SweepDue amb)
    then show ?thesis
      using ok' i js g by (simp add: watched_def nth_append sweeper_in_time)
  next
    case (Run n)
    show ?thesis
    proof (cases "n < length (jobs P)")
      case True
      then have n: "in_time k T (jobs P ! n)" using js by (simp add: list_all_length)
      note step = job_step_guard [OF wf n]
      have "guarded k T (jobs (pool_step sha p e P) ! i) (shared (pool_step sha p e P))"
        using Run True i g step(2,3) by (cases "n = i"; cases "jobs P ! i") (auto simp: case_prod_beta)
      moreover have "list_all (in_time k T) (jobs (pool_step sha p e P))"
        using Run True js step(1) by (auto simp: case_prod_beta list_all_length nth_list_update)
      ultimately show ?thesis using ok' i Run True by (simp add: watched_def case_prod_beta)
    qed (use Run assms(2) in simp)
  next
    case (Drop n)
    have drop: "in_time k T j \<Longrightarrow> in_time k T (drop_job j)" for j by (cases j) (simp_all add: drop_job_cases)
    have "guarded k T j (shared P) \<Longrightarrow> guarded k T (drop_job j) (shared P)" for j
      by (cases j) (simp_all add: drop_job_cases)
    then show ?thesis
      using Drop ok' i js g drop by (auto simp: watched_def list_all_length nth_list_update)
  qed
qed

lemma watched_run:
  assumes "app_reachable st" and "watched st k T i P" and "\<forall>e \<in> set es. \<not> brings_late sha p st k T e"
  shows "watched st k T i (execute_pool sha p es P)"
  using assms(2,3) by (induction es arbitrary: P) (simp_all add: watched_step [OF assms(1)])

text \<open>Every task of an execution opens only the slot that its request names, as long as that says.\<close>

fun opens_own :: "digest_fun \<Rightarrow> parsers \<Rightarrow> AppState \<Rightarrow> job \<Rightarrow> bool" where
  "opens_own sha p c (Client req amb t) = keeps_to (creates_own sha p c req amb) (\<lambda>_. True) t"
| "opens_own sha p c (Lost req amb t) = True"
| "opens_own sha p c (Sweeper t) = keeps_to (\<lambda>op. \<forall>k T. opens_in_time k T op) (\<lambda>_. True) t"

lemma opens_own_run:
  assumes "pool_ok st P" and "list_all (opens_own sha p st) (jobs P)"
  shows "list_all (opens_own sha p st) (jobs (execute_pool sha p es P))"
  using assms
proof (induction es arbitrary: P)
  case (Cons e es)
  note ok = pool_step_ok [OF Cons.prems(1)]
  have steps: "app_step\<^sup>*\<^sup>* st (shared P)" using Cons.prems(1) by (simp add: pool_ok_def)
  have step: "opens_own sha p st (fst (job_step j s))" if "opens_own sha p st j" for j s
    using that by (cases j) (simp_all add: case_prod_beta keeps_to_advance)
  have "keeps_to (\<lambda>op. \<forall>k T. opens_in_time k T op) (\<lambda>_. True) (sweep_task amb c)" for amb c
    by (simp add: sweep_task_def opens_in_time_def split: sum.split store_out.split)
  moreover have "opens_own sha p st (drop_job j)" if "opens_own sha p st j" for j
    using that by (cases j) (simp_all add: drop_job_cases)
  ultimately have "list_all (opens_own sha p st) (jobs (pool_step sha p e P))"
    using Cons.prems(2) step keeps_creates [of sha p "shared P"] creates_own_config [OF steps_config [OF steps]]
    by (cases e) (auto simp: list_all_length nth_list_update nth_append case_prod_beta)
  then show ?case using Cons.IH [OF ok] by simp
qed simp

text \<open>A create of the slot that has not been answered, until a time not after \<open>T\<close>.\<close>

fun opening_late :: "digest_fun \<Rightarrow> parsers \<Rightarrow> AppState \<Rightarrow> string \<Rightarrow> int \<Rightarrow> job \<Rightarrow> bool" where
  "opening_late sha p c k T (Client req amb t) = (\<not> answered t \<and> opens_late sha p c k T req amb)"
| "opening_late sha p c k T _ = False"

text \<open>
  C33: A push is answered \<open>410 ERR_INVITE_EXPIRED\<close> only if a create of its slot overlaps it. In any
  execution, whatever else overlaps, fails or is dropped: if no create of the push's slot until a
  time not after the clock of the push is unanswered when the push arrives or arrives later, the
  push is not answered \<open>410 ERR_INVITE_EXPIRED\<close>, even if its slot has expired: it sweeps the
  expired slots before it asks for the slot, and the route of an expired slot is an ordinary
  route again. The execution \<open>overtaken\<close> of \<open>Races\<close> shows that with such a create the answer is
  given.
\<close>

theorem push_expired_needs_overlap:
  assumes "app_reachable st" and "resolve_route_token h = Inr channel"
    and "k = route_key_for sha channel" and "T = now_unix_secs amb"
    and "P = execute_pool sha p es (idle st)" and "\<forall>j \<in> set (jobs P). \<not> opening_late sha p st k T j"
    and "\<forall>e \<in> set es'. \<not> brings_late sha p st k T e"
    and "P' = execute_pool sha p (Arrive (PushReq h b) amb # es') P"
    and "jobs P' ! length (jobs P) = Client (PushReq h b) amb (Answer r)"
  shows "r \<noteq> Reply 410 (Code ''ERR_INVITE_EXPIRED'')"
proof -
  let ?P1 = "pool_step sha p (Arrive (PushReq h b) amb) P"
  have ok: "pool_ok st P" unfolding assms(5) by (rule execute_pool_ok [OF idle_ok])
  have steps: "app_step\<^sup>*\<^sup>* st (shared P)" using ok by (simp add: pool_ok_def)
  have "list_all (opens_own sha p st) (jobs P)"
    unfolding assms(5) by (rule opens_own_run [OF idle_ok]) (simp add: idle_def)
  moreover have "in_time k T j" if "opens_own sha p st j" "\<not> opening_late sha p st k T j" for j
    using that
  proof (cases j)
    case (Client req amb t)
    then show ?thesis
      using that keeps_in_time [of sha p st k T req amb "\<lambda>_. True" t] by (cases "answered t"; cases t) auto
  qed (auto intro: keeps_to_mono)
  ultimately have js: "list_all (in_time k T) (jobs P)" using assms(6) by (auto simp: list_all_iff)
  have "\<not> brings_late sha p st k T (Arrive (PushReq h b) amb)" by (simp add: opens_late_def)
  then have "keeps_to (opens_in_time k T) (\<lambda>_. True) (app_task sha p amb (PushReq h b) (shared P))"
    using keeps_in_time [OF _ keeps_creates, of sha p "shared P" k T "PushReq h b" amb] by (simp add: opens_late_def)
  moreover have "on_guard k T (app_task sha p amb (PushReq h b) (shared P)) (shared P)"
    using careful_push [OF assms(2-4)] by (auto simp: on_guard_def app_task_def)
  ultimately have "watched st k T (length (jobs P)) ?P1"
    using pool_step_ok [OF ok, of sha p "Arrive (PushReq h b) amb"] js by (simp add: watched_def)
  from watched_run [OF assms(1) this assms(7)] have "watched st k T (length (jobs P)) P'"
    by (simp add: assms(8))
  then show ?thesis by (auto simp: watched_def assms(9) on_guard_def)
qed

end
