(* ===== verification/Costs.thy ===== *)
theory Costs imports Concurrent begin

text \<open>
  What a request costs the store. The reply of a request tells how often it called the store, in
  every execution: refusals for the bearer token, the route token, the size or the form of a
  request cost no store call, a create over its rate costs none, a push over its rate costs one,
  and no request costs more than two.
\<close>

subsection \<open>The table of costs\<close>

text \<open>The codes of the refusals that come before any store call.\<close>

definition free_refusals :: "request \<Rightarrow> string list" where
  "free_refusals req =
    (case req of
       PushReq _ _ \<Rightarrow> [''ERR_UNAUTHORIZED'', ''ERR_MISSING_ROUTE_TOKEN'', ''ERR_BAD_ROUTE_TOKEN'', ''ERR_EMPTY_BODY'', ''ERR_TOO_LARGE'']
     | PullReq _ _ \<Rightarrow> [''ERR_UNAUTHORIZED'', ''ERR_MISSING_ROUTE_TOKEN'', ''ERR_BAD_ROUTE_TOKEN'', ''ERR_BAD_MAX'', ''ERR_BAD_ACK_MODE'']
     | AckReq _ _ \<Rightarrow> [''ERR_UNAUTHORIZED'', ''ERR_MISSING_ROUTE_TOKEN'', ''ERR_BAD_ROUTE_TOKEN'', ''ERR_TOO_LARGE'', ''ERR_BAD_ACK_BODY'', ''ERR_BAD_ACK_IDS'']
     | CreateReq _ _ \<Rightarrow> [''ERR_UNAUTHORIZED'', ''ERR_INVITE_TOO_LARGE'', ''ERR_LOCK_POISON'', ''ERR_RATE_LIMITED'', ''ERR_INVITE_BAD_BODY'', ''ERR_INVITE_EXPIRED'']
     | RedeemReq _ _ \<Rightarrow> [''ERR_UNAUTHORIZED'', ''ERR_TOO_LARGE'', ''ERR_INVITE_BAD_BODY'']
     | RevokeReq _ _ \<Rightarrow> [''ERR_UNAUTHORIZED'', ''ERR_TOO_LARGE'', ''ERR_INVITE_BAD_BODY'']
     | InfoReq _ \<Rightarrow> [])"

text \<open>The refusals of a push by the gate, after its first store call, and those that its first and
  its second store call can give.\<close>

definition gate_refusals :: "string list" where
  "gate_refusals = [''ERR_RATE_LIMITED'', ''ERR_LOCK_POISON'']"

definition cap_refusals :: "string list" where
  "cap_refusals = [''ERR_OVERLOADED'', ''ERR_ROUTE_CAP'', ''ERR_STORE'']"

definition store_cost :: "request \<Rightarrow> response \<Rightarrow> nat set" where
  "store_cost req r =
    (case (req, reply_payload r) of
       (InfoReq _, _) \<Rightarrow> {0}
     | (PushReq _ _, Code code) \<Rightarrow>
         if code \<in> set (free_refusals req) then {0}
         else if code \<in> set gate_refusals then {1}
         else if code \<in> set cap_refusals then {1, 2}
         else {2}
     | (PushReq _ _, _) \<Rightarrow> {2}
     | (_, Code code) \<Rightarrow> if code \<in> set (free_refusals req) then {0} else {1}
     | _ \<Rightarrow> {1})"

lemma cost_code:
  "n \<in> store_cost req (Reply m (Code code)) \<longleftrightarrow>
    (case req of
       InfoReq _ \<Rightarrow> n = 0
     | PushReq _ _ \<Rightarrow>
         if code \<in> set (free_refusals req) then n = 0
         else if code \<in> set gate_refusals then n = 1
         else if code \<in> set cap_refusals then n = 1 \<or> n = 2 else n = 2
     | _ \<Rightarrow> if code \<in> set (free_refusals req) then n = 0 else n = 1)"
  by (cases req) (simp_all add: store_cost_def)

lemma cost_success:
  "n \<in> store_cost (PushReq h b) (Reply m (PostResp x)) \<longleftrightarrow> n = 2"
  "n \<in> store_cost (PullReq h q) (Reply m NoBody) \<longleftrightarrow> n = 1"
  "n \<in> store_cost (PullReq h q) (Reply m (PullResp items)) \<longleftrightarrow> n = 1"
  "n \<in> store_cost (AckReq h b) (Reply m (AckResp a)) \<longleftrightarrow> n = 1"
  "n \<in> store_cost (CreateReq h b) (Reply m (InviteCreateResp t)) \<longleftrightarrow> n = 1"
  "n \<in> store_cost (RedeemReq h b) (Reply m (InviteRedeemResp u v w)) \<longleftrightarrow> n = 1"
  "n \<in> store_cost (RevokeReq h b) (Reply m (InviteRevokeResp d)) \<longleftrightarrow> n = 1"
  "n \<in> store_cost (InfoReq h) r \<longleftrightarrow> n = 0"
  by (simp_all add: store_cost_def)

lemmas cost_defs = cost_code cost_success free_refusals_def gate_refusals_def cap_refusals_def

lemma cost_le: "n \<in> store_cost req r \<Longrightarrow> n \<le> 2"
  by (cases req; cases "reply_payload r") (auto simp: store_cost_def split: if_splits)

subsection \<open>Tasks\<close>

text \<open>A task that has made \<open>n\<close> store calls, and whose answer will have cost what \<open>f\<close> says.\<close>

primrec spends :: "('r \<Rightarrow> nat set) \<Rightarrow> 'r task \<Rightarrow> nat \<Rightarrow> bool" where
  "spends f (Answer r) = (\<lambda>n. n \<in> f r)"
| "spends f (Emit e t) = spends f t"
| "spends f (StoreCall op fs k) = (\<lambda>n. \<forall>x. spends f (k x) (Suc n))"
| "spends f (PushGate amb key lid k) = (\<lambda>n. \<forall>x. gate_result x \<longrightarrow> spends f (k x) n)"
| "spends f (CreateGate amb k) = (\<lambda>n. \<forall>x. gate_result x \<longrightarrow> spends f (k x) n)"
| "spends f (PruneBuckets ks t) = spends f t"

definition at_store :: "'r task \<Rightarrow> bool" where
  "at_store t \<longleftrightarrow> (case t of StoreCall op fs k \<Rightarrow> True | _ \<Rightarrow> False)"

lemma spends_advance: "spends f t n \<Longrightarrow> spends f (fst (advance t st)) (n + (if at_store t then 1 else 0))"
  using gate_results by (cases t) (auto simp: at_store_def case_prod_beta)

lemma spends_le:
  assumes "\<And>r n. n \<in> f r \<Longrightarrow> n \<le> (m::nat)"
  shows "spends f t n \<Longrightarrow> n \<le> m"
proof (induction t arbitrary: n)
  case (StoreCall op fs k)
  have "spends f (k (Inl [])) (Suc n)" using StoreCall.prems by simp
  then show ?case using StoreCall.IH [OF rangeI] Suc_leD by blast
next
  case (PushGate amb key lid k)
  have "spends f (k (Inr ())) n" using PushGate.prems by (simp add: gate_result_def)
  then show ?case using PushGate.IH [OF rangeI] by blast
next
  case (CreateGate amb k)
  have "spends f (k (Inr ())) n" using CreateGate.prems by (simp add: gate_result_def)
  then show ?case using CreateGate.IH [OF rangeI] by blast
qed (auto intro: assms)

lemma spends_parts [simp]:
  "spends f (foldr Emit es t) = spends f t"
  "spends f (t_prune c stats t) = spends f t"
  "spends f (t_drained d key t) = spends f t"
  "spends g (t_fail m code) = (\<lambda>n. n \<in> g (Reply m (Code code)))"
proof -
  show emits: "spends f (foldr Emit es t) = spends f t" for es and t :: "'a task" by (induction es) simp_all
  show "spends f (t_prune c stats t) = spends f t" by (simp add: t_prune_def emits)
qed (simp_all add: t_drained_def t_fail_def)

lemma spends_own:
  assumes "early (\<lambda>r. n \<in> f r) m" and "\<And>x. fst (m c) = Inr x \<Longrightarrow> spends f (k x) n"
  shows "spends f (t_own m c k) n"
proof -
  have "case fst (m c) of Inl r \<Rightarrow> n \<in> f r | Inr x \<Rightarrow> True" using assms(1) by (simp add: early_def)
  then show ?thesis using assms(2) by (simp add: t_own_def split: sum.split_asm sum.split)
qed

lemma spends_store:
  "Suc n \<in> f (Reply 500 (Code ''ERR_STORE'')) \<Longrightarrow> (\<And>x. spends f (k x) (Suc n)) \<Longrightarrow> spends f (t_store op fs k) n"
  by (auto simp: t_store_def split: sum.split)

lemma spends_gates:
  assumes "n \<in> f (Reply 500 (Code ''ERR_LOCK_POISON''))" and "n \<in> f (Reply 429 (Code ''ERR_RATE_LIMITED''))" and "spends f t n"
  shows "spends f (PushGate amb key lid (t_gate t)) n" and "spends f (CreateGate amb (t_gate t)) n"
  using assms by (auto simp: t_gate_def gate_result_def split: sum.splits)

subsection \<open>The routes\<close>

lemma spends_push: "spends (store_cost (PushReq h b)) (push_task sha amb h b c) 0"
proof -
  let ?f = "store_cost (PushReq h b)"
  have answer: "spends ?f (t_push_answer c key lid mid n out) 2" for key lid mid n out
    by (cases out) (simp_all add: t_push_answer_def cost_defs slot_reply_def split: SlotReject.split)
  have enqueue: "spends ?f (t_enqueue sha amb h b mid c key lid) 1" for mid key lid
    unfolding t_enqueue_def using answer
    by (intro spends_store) (simp_all add: cost_defs numeral_2_eq_2 split: store_out.split)
  have gate: "spends ?f (PushGate amb key lid (t_gate (t_enqueue sha amb h b mid c key lid))) 1" for mid key lid
    by (intro spends_gates enqueue) (simp_all add: cost_defs)
  have admit: "early (\<lambda>r. 0 \<in> ?f r) (push_admit sha h b)"
    unfolding push_admit_def by (auto intro!: early_rules simp: cost_defs)
  show ?thesis
    unfolding push_task_def Let_def using gate
    by (intro spends_own [OF admit] spends_store)
       (auto simp: cost_defs simp del: spends.simps(4) split: store_out.split)
qed

lemma spends_pull: "spends (store_cost (PullReq h q)) (pull_task sha amb h q c) 0"
proof -
  have admit: "early (\<lambda>r. 0 \<in> store_cost (PullReq h q) r) (pull_admit sha h q)"
    unfolding pull_admit_def Let_def by (cases "query_ack q") (auto intro!: early_rules simp: cost_defs)
  show ?thesis
    unfolding pull_task_def Let_def split_def
    by (intro spends_own [OF admit] spends_store) (simp_all add: t_pull_answer_def cost_defs split: store_out.split)
qed

lemma spends_ack: "spends (store_cost (AckReq h b)) (ack_task sha parse amb h b c) 0"
proof -
  have admit: "early (\<lambda>r. 0 \<in> store_cost (AckReq h b) r) (ack_admit sha parse h b)"
    unfolding ack_admit_def by (auto intro!: early_rules simp: cost_defs)
  show ?thesis
    unfolding ack_task_def Let_def split_def
    by (intro spends_own [OF admit] spends_store) (simp_all add: cost_defs split: store_out.split)
qed

lemma spends_create: "spends (store_cost (CreateReq h b)) (create_task sha parse amb h b c) 0"
proof -
  let ?f = "store_cost (CreateReq h b)"
  have admit: "early (\<lambda>r. 0 \<in> ?f r) (create_admit sha h b)"
    unfolding create_admit_def by (auto intro!: early_rules simp: cost_defs)
  have valid: "early (\<lambda>r. 0 \<in> ?f r) (create_validate amb req)" for req
    unfolding create_validate_def Let_def
    by (cases "b64_decode (create_bundle_b64 req)"; cases "b64_decode (create_sig_b64 req)")
       (auto intro!: early_rules simp: cost_defs)
  have body: "early (\<lambda>r. 0 \<in> ?f r) (create_body parse amb b)"
    unfolding create_body_def by (auto intro!: early_rules valid simp: cost_defs split: prod.split)
  have answer: "spends ?f (t_create_answer lid until token m out) 1" for lid until token m out
    by (cases out) (simp_all add: t_create_answer_def cost_defs)
  show ?thesis
    unfolding create_task_def Let_def split_def using answer
    by (intro spends_own [OF admit] spends_gates spends_own [OF body] spends_store)
       (simp_all add: cost_defs split: store_out.split)
qed

lemma spends_redeem: "spends (store_cost (RedeemReq h b)) (redeem_task sha parse amb h b c) 0"
proof -
  have admit: "early (\<lambda>r. 0 \<in> store_cost (RedeemReq h b) r) (redeem_admit sha parse h b)"
    unfolding redeem_admit_def by (auto intro!: early_rules simp: cost_defs)
  show ?thesis
    unfolding redeem_task_def Let_def
    by (intro spends_own [OF admit] spends_store)
       (simp_all add: cost_defs redeem_reply_def split: store_out.split InviteRedeemOutcome.split)
qed

lemma spends_revoke: "spends (store_cost (RevokeReq h b)) (revoke_task sha parse amb h b c) 0"
proof -
  have admit: "early (\<lambda>r. 0 \<in> store_cost (RevokeReq h b) r) (revoke_admit sha parse h b)"
    unfolding revoke_admit_def by (auto intro!: early_rules simp: cost_defs)
  show ?thesis
    unfolding revoke_task_def Let_def
    by (intro spends_own [OF admit] spends_store)
       (simp_all add: cost_defs revoke_reply_def split: store_out.split InviteRevokeOutcome.split)
qed

lemma spends_app: "spends (store_cost req) (app_task sha p amb req c) 0"
proof -
  have "spends (store_cost (InfoReq h)) (info_task sha h c) 0" for h
    by (simp add: info_task_def t_own_def cost_defs split: sum.split)
  then show ?thesis
    by (cases req) (simp_all add: app_task_def spends_push spends_pull spends_ack spends_create
        spends_redeem spends_revoke)
qed

lemma spends_sweep: "spends (\<lambda>_. {1}) (sweep_task amb c) 0"
  by (simp add: sweep_task_def split: sum.split store_out.split)

subsection \<open>Counting store calls\<close>

fun job_at_store :: "job \<Rightarrow> bool" where
  "job_at_store (Client req amb t) = at_store t"
| "job_at_store (Lost req amb t) = False"
| "job_at_store (Sweeper t) = at_store t"

fun creating :: "job \<Rightarrow> bool" where
  "creating (Client req amb t) = (case req of CreateReq h b \<Rightarrow> True | _ \<Rightarrow> False)"
| "creating _ = False"

text \<open>The events of an execution that run a job that satisfies \<open>q\<close> in the state it finds.\<close>

fun runs_of :: "(nat \<Rightarrow> job \<Rightarrow> AppState \<Rightarrow> bool) \<Rightarrow> event \<Rightarrow> pool \<Rightarrow> nat" where
  "runs_of q (Run i) P = (if i < length (jobs P) \<and> q i (jobs P ! i) (shared P) then 1 else 0)"
| "runs_of q _ P = 0"

fun count_runs :: "digest_fun \<Rightarrow> parsers \<Rightarrow> (nat \<Rightarrow> job \<Rightarrow> AppState \<Rightarrow> bool) \<Rightarrow> event list \<Rightarrow> pool \<Rightarrow> nat" where
  "count_runs sha p q [] P = 0"
| "count_runs sha p q (e # es) P = runs_of q e P + count_runs sha p q es (pool_step sha p e P)"

text \<open>The store calls that the job at \<open>i\<close> makes in an execution, and those that all creates make.\<close>

definition store_calls :: "digest_fun \<Rightarrow> parsers \<Rightarrow> nat \<Rightarrow> event list \<Rightarrow> pool \<Rightarrow> nat" where
  "store_calls sha p i = count_runs sha p (\<lambda>n j st. n = i \<and> job_at_store j)"

definition create_calls :: "digest_fun \<Rightarrow> parsers \<Rightarrow> event list \<Rightarrow> pool \<Rightarrow> nat" where
  "create_calls sha p = count_runs sha p (\<lambda>n j st. creating j \<and> job_at_store j)"

subsection \<open>Each request\<close>

fun job_spends :: "job \<Rightarrow> nat \<Rightarrow> bool" where
  "job_spends (Client req amb t) n = spends (store_cost req) t n"
| "job_spends (Lost req amb t) n = spends (store_cost req) t n"
| "job_spends (Sweeper t) n = spends (\<lambda>_. {1}) t n"

lemma job_spends_step:
  "job_spends j n \<Longrightarrow> job_spends (fst (job_step j st)) (n + (if job_at_store j then 1 else 0))"
proof (cases j)
  case (Client req amb t)
  then show "job_spends j n \<Longrightarrow> ?thesis" using spends_advance [of "store_cost req" t n st] by (simp add: case_prod_beta)
next
  case (Sweeper t)
  then show "job_spends j n \<Longrightarrow> ?thesis" using spends_advance [of "\<lambda>_. {1}" t n st] by (simp add: case_prod_beta)
qed simp

lemma job_spends_drop: "job_spends j n \<Longrightarrow> job_spends (drop_job j) n"
  by (cases j) (simp_all add: drop_job_cases)

lemma store_calls_run:
  assumes "i < length (jobs P) \<Longrightarrow> job_spends (jobs P ! i) n" and "\<not> i < length (jobs P) \<Longrightarrow> n = 0"
    and "i < length (jobs (execute_pool sha p es P))"
  shows "job_spends (jobs (execute_pool sha p es P) ! i) (n + store_calls sha p i es P)"
  using assms
proof (induction es arbitrary: P n)
  case Nil
  then show ?case by (simp add: store_calls_def)
next
  case (Cons e es)
  let ?d = "runs_of (\<lambda>n j st. n = i \<and> job_at_store j) e P" and ?P = "pool_step sha p e P"
  have new: "job_spends (jobs ?P ! i) (n + ?d)" if "i < length (jobs ?P)"
  proof (cases e)
    case (Arrive req amb)
    then show ?thesis
      using Cons.prems(1,2) that spends_app by (cases "i < length (jobs P)") (auto simp: nth_append less_Suc_eq)
  next
    case (SweepDue amb)
    then show ?thesis
      using Cons.prems(1,2) that spends_sweep by (cases "i < length (jobs P)") (auto simp: nth_append less_Suc_eq)
  next
    case (Run m)
    then show ?thesis
      using Cons.prems(1) that job_spends_step [of "jobs P ! i" n "shared P"]
      by (auto simp: case_prod_beta nth_list_update split: if_splits)
  next
    case (Drop m)
    then show ?thesis
      using Cons.prems(1) that job_spends_drop by (auto simp: nth_list_update split: if_splits)
  qed
  have none: "n + ?d = 0" if "\<not> i < length (jobs ?P)"
    using that Cons.prems(2) by (cases e) (auto simp: case_prod_beta split: if_splits)
  from Cons.IH [OF new none] Cons.prems(3) show ?case by (simp add: store_calls_def add.assoc)
qed

lemma each_cost:
  assumes "i < length (jobs (execute_pool sha p es (idle st)))"
  shows "case jobs (execute_pool sha p es (idle st)) ! i of
      Client req amb (Answer r) \<Rightarrow> store_calls sha p i es (idle st) \<in> store_cost req r
    | Sweeper (Answer x) \<Rightarrow> store_calls sha p i es (idle st) = 1
    | _ \<Rightarrow> store_calls sha p i es (idle st) \<le> 2"
proof -
  have "job_spends (jobs (execute_pool sha p es (idle st)) ! i) (0 + store_calls sha p i es (idle st))"
    by (rule store_calls_run [OF _ _ assms]) (simp_all add: idle_def)
  moreover have "n \<le> 2" if "job_spends j n" for j n
  proof (cases j)
    case (Sweeper t)
    then show ?thesis using that spends_le [of "\<lambda>_. {1}" 2 t n] by simp
  qed (use that spends_le [of "store_cost _" 2] cost_le in auto)
  ultimately show ?thesis by (auto split: job.split task.split)
qed

subsection \<open>Creates and their gate\<close>

text \<open>A task that makes at most \<open>m\<close> store calls, beside one for each time it passes the create gate.\<close>

primrec owes :: "'r task \<Rightarrow> nat \<Rightarrow> bool" where
  "owes (Answer r) = (\<lambda>m. True)"
| "owes (Emit e t) = owes t"
| "owes (StoreCall op fs k) = (\<lambda>m. 0 < m \<and> (\<forall>x. owes (k x) (m - 1)))"
| "owes (PushGate amb key lid k) = (\<lambda>m. \<forall>x. owes (k x) m)"
| "owes (CreateGate amb k) = (\<lambda>m. (\<forall>r. owes (k (Inl r)) m) \<and> owes (k (Inr ())) (Suc m))"
| "owes (PruneBuckets ks t) = owes t"

definition passes :: "'r task \<Rightarrow> AppState \<Rightarrow> bool" where
  "passes t st \<longleftrightarrow> (case t of CreateGate amb k \<Rightarrow> fst (create_gate amb st) = Inr () | _ \<Rightarrow> False)"

lemma owes_advance:
  assumes "owes t m"
  obtains m' where "owes (fst (advance t st)) m'" "m' + (if at_store t then 1 else 0) = m + (if passes t st then 1 else 0)"
proof (cases t)
  case (StoreCall op fs k)
  then show thesis using assms by (intro that [of "m - 1"]) (auto simp: at_store_def passes_def case_prod_beta)
next
  case (CreateGate amb k)
  show thesis
  proof (cases "fst (create_gate amb st)")
    case (Inl r)
    then show thesis using CreateGate assms by (intro that [of m]) (auto simp: at_store_def passes_def case_prod_beta)
  next
    case (Inr u)
    then show thesis using CreateGate assms by (intro that [of "Suc m"]) (auto simp: at_store_def passes_def case_prod_beta)
  qed
qed (use assms in \<open>auto intro!: that [of m] simp: at_store_def passes_def case_prod_beta\<close>)

lemma owes_parts [simp]:
  "owes (foldr Emit es t) = owes t" "owes (t_fail m code) = (\<lambda>m. True)"
  by (induction es) (simp_all add: t_fail_def)

lemma owes_create: "owes (create_task sha parse amb h b c) 0"
proof -
  have "owes (t_create_answer lid until token m out) 0" for lid until token m out
    by (cases out) (simp_all add: t_create_answer_def)
  then show ?thesis
    by (auto simp: create_task_def t_own_def t_gate_def t_store_def Let_def split: sum.split store_out.split)
qed

text \<open>The create gates of a task are asked at times that satisfy \<open>q\<close>.\<close>

primrec gates_in :: "(nat \<Rightarrow> bool) \<Rightarrow> 'r task \<Rightarrow> bool" where
  "gates_in q (Answer r) = True"
| "gates_in q (Emit e t) = gates_in q t"
| "gates_in q (StoreCall op fs k) = (\<forall>x. gates_in q (k x))"
| "gates_in q (PushGate amb key lid k) = (\<forall>x. gates_in q (k x))"
| "gates_in q (CreateGate amb k) = (q (mono_ns amb) \<and> (\<forall>x. gates_in q (k x)))"
| "gates_in q (PruneBuckets ks t) = gates_in q t"

lemma gates_in_advance: "gates_in q t \<Longrightarrow> gates_in q (fst (advance t st))"
  by (cases t) (simp_all add: case_prod_beta)

lemma gates_in_parts [simp]:
  "gates_in q (foldr Emit es t) = gates_in q t" "gates_in q (t_prune c stats t) = gates_in q t"
  "gates_in q (t_drained d key t) = gates_in q t" "gates_in q (t_fail m code)"
proof -
  show emits: "gates_in q (foldr Emit es t) = gates_in q t" for es and t :: "'a task" by (induction es) simp_all
  show "gates_in q (t_prune c stats t) = gates_in q t" by (simp add: t_prune_def emits)
qed (simp_all add: t_drained_def t_fail_def)

text \<open>Only a create asks, at the time it read.\<close>

definition asks_in :: "(nat \<Rightarrow> bool) \<Rightarrow> request \<Rightarrow> ambient \<Rightarrow> bool" where
  "asks_in q req amb \<longleftrightarrow> (case req of CreateReq h b \<Rightarrow> q (mono_ns amb) | _ \<Rightarrow> True)"

lemma gates_in_app:
  assumes "asks_in q req amb"
  shows "gates_in q (app_task sha p amb req c)"
proof -
  have push: "gates_in q (t_push_answer c key lid mid n out)" for key lid mid n out
    by (cases out) (simp_all add: t_push_answer_def)
  have create: "gates_in q (t_create_answer lid until token n out)" for lid until token n out
    by (cases out) (simp_all add: t_create_answer_def)
  note tasks = push_task_def pull_task_def ack_task_def create_task_def redeem_task_def revoke_task_def info_task_def
    t_enqueue_def t_pull_answer_def
  show ?thesis
    using assms push create
    by (cases req) (auto simp: asks_in_def app_task_def tasks t_own_def t_gate_def t_store_def Let_def
        split: sum.split store_out.split InviteRedeemOutcome.split)
qed

lemma gates_in_sweep: "gates_in q (sweep_task amb c)"
  by (simp add: sweep_task_def split: sum.split store_out.split)

subsection \<open>Executions\<close>

fun job_owes :: "job \<Rightarrow> nat \<Rightarrow> bool" where
  "job_owes (Client req amb t) m = ((case req of CreateReq h b \<Rightarrow> True | _ \<Rightarrow> False) \<longrightarrow> owes t m)"
| "job_owes _ m = True"

fun job_passes :: "job \<Rightarrow> AppState \<Rightarrow> bool" where
  "job_passes (Client req amb t) st = passes t st"
| "job_passes (Lost req amb t) st = False"
| "job_passes (Sweeper t) st = passes t st"

fun job_gates :: "(nat \<Rightarrow> bool) \<Rightarrow> job \<Rightarrow> bool" where
  "job_gates q (Client req amb t) = gates_in q t"
| "job_gates q (Lost req amb t) = True"
| "job_gates q (Sweeper t) = gates_in q t"

abbreviation gate_passes :: "digest_fun \<Rightarrow> parsers \<Rightarrow> event list \<Rightarrow> pool \<Rightarrow> nat" where
  "gate_passes sha p \<equiv> count_runs sha p (\<lambda>n j st. job_passes j st)"

lemma job_owes_step:
  assumes "job_owes j m"
  obtains m' where "job_owes (fst (job_step j st)) m'"
    "m' + (if creating j \<and> job_at_store j then 1 else 0) \<le> m + (if job_passes j st then 1 else 0)"
proof (cases j)
  case (Client req amb t)
  show thesis
  proof (cases "creating j")
    case True
    then have "owes t m" using assms Client by simp
    then obtain m' where "owes (fst (advance t st)) m'"
      "m' + (if at_store t then 1 else 0) = m + (if passes t st then 1 else 0)" by (rule owes_advance)
    then show thesis using Client True by (intro that [of m']) (simp_all add: case_prod_beta)
  next
    case False
    then show thesis using Client by (intro that [of m]) (simp_all add: case_prod_beta)
  qed
qed (use that [of m] in \<open>simp_all add: case_prod_beta\<close>)

lemma create_calls_passes:
  "list_all2 job_owes (jobs P) ms \<Longrightarrow> create_calls sha p es P \<le> sum_list ms + gate_passes sha p es P"
proof (induction es arbitrary: P ms)
  case (Cons e es)
  let ?P = "pool_step sha p e P"
  have "\<exists>ms'. list_all2 job_owes (jobs ?P) ms' \<and>
      sum_list ms' + runs_of (\<lambda>n j st. creating j \<and> job_at_store j) e P \<le> sum_list ms + runs_of (\<lambda>n j st. job_passes j st) e P"
  proof (cases e)
    case (Arrive req amb)
    have "job_owes (Client req amb (app_task sha p amb req (shared P))) 0"
      by (cases req) (simp_all add: app_task_def owes_create)
    then show ?thesis using Arrive Cons.prems by (intro exI [of _ "ms @ [0]"]) (simp add: list_all2_appendI)
  next
    case (SweepDue amb)
    then show ?thesis using Cons.prems by (intro exI [of _ "ms @ [0]"]) (simp add: list_all2_appendI)
  next
    case (Run i)
    show ?thesis
    proof (cases "i < length (jobs P)")
      case True
      then have owes: "job_owes (jobs P ! i) (ms ! i)" and len: "i < length ms"
        using Cons.prems by (auto simp: list_all2_conv_all_nth)
      from owes obtain m' where m': "job_owes (fst (job_step (jobs P ! i) (shared P))) m'"
        "m' + (if creating (jobs P ! i) \<and> job_at_store (jobs P ! i) then 1 else 0) \<le>
          ms ! i + (if job_passes (jobs P ! i) (shared P) then 1 else 0)" by (rule job_owes_step)
      have "sum_list (ms[i := m']) + ms ! i = sum_list ms + m'"
        using len elem_le_sum_list [OF len] by (simp add: sum_list_update)
      with m'(2) have "sum_list (ms[i := m']) + runs_of (\<lambda>n j st. creating j \<and> job_at_store j) e P \<le>
          sum_list ms + runs_of (\<lambda>n j st. job_passes j st) e P"
        using Run True by simp
      moreover have "list_all2 job_owes (jobs ?P) (ms[i := m'])"
        using Run True m'(1) Cons.prems by (simp add: case_prod_beta list_all2_update_cong)
      ultimately show ?thesis by blast
    qed (use Run Cons.prems in auto)
  next
    case (Drop i)
    have "job_owes j m \<Longrightarrow> job_owes (drop_job j) m" for j m by (cases j) (simp_all add: drop_job_cases)
    then show ?thesis
      using Drop Cons.prems by (intro exI [of _ ms]) (auto simp: list_all2_conv_all_nth nth_list_update)
  qed
  then obtain ms' where "list_all2 job_owes (jobs ?P) ms'" and le: "sum_list ms' + runs_of (\<lambda>n j st. creating j \<and> job_at_store j) e P
      \<le> sum_list ms + runs_of (\<lambda>n j st. job_passes j st) e P" by blast
  from Cons.IH [OF this(1)] le show ?case by (simp add: create_calls_def)
qed (simp add: create_calls_def)

lemma create_gate_consumes:
  assumes "lock (invite_create_rate st) = Some b"
  obtains b' where "try_consume (invite_bucket_controls (invite_limits st)) (mono_ns amb) b =
      (passes (CreateGate amb k) st, b')"
    "invite_create_rate (snd (snd (create_gate amb st))) = Mutex False b'"
  using assms
  by (cases "try_consume (invite_bucket_controls (invite_limits st)) (mono_ns amb) b")
     (simp add: passes_def create_gate_def Let_def)

lemma advance_keeps_rate:
  assumes "\<And>amb k. t \<noteq> CreateGate amb k"
  shows "\<not> passes t st" and "invite_create_rate (snd (snd (advance t st))) = invite_create_rate st"
  using assms
  by (cases t; simp add: passes_def case_prod_beta push_gate_def remove_buckets_def update_buckets_def Let_def
      split: option.split)+

lemma job_gates_step: "job_gates q j \<Longrightarrow> job_gates q (fst (job_step j st))"
  by (cases j) (simp_all add: case_prod_beta gates_in_advance)

text \<open>One job: if it asks the create gate, its bucket is asked once, at a time that satisfies \<open>q\<close>.\<close>

lemma advance_admits:
  assumes "gates_in q t" and "lock (invite_create_rate st) = Some b"
  obtains ts where "\<forall>x \<in> set ts. q x"
    "\<And>us. fst (admissions (try_consume (invite_bucket_controls (invite_limits st))) (ts @ us) b) =
       (if passes t st then 1 else 0) +
       fst (admissions (try_consume (invite_bucket_controls (invite_limits st))) us
         (inner (invite_create_rate (snd (snd (advance t st))))))"
proof (cases "\<exists>amb k. t = CreateGate amb k")
  case True
  then obtain amb k where t: "t = CreateGate amb k" by blast
  obtain b' where b': "try_consume (invite_bucket_controls (invite_limits st)) (mono_ns amb) b = (passes t st, b')"
    "invite_create_rate (snd (snd (create_gate amb st))) = Mutex False b'"
    by (rule create_gate_consumes [OF assms(2), of amb k, folded t])
  show thesis
    using assms(1) b' by (intro that [of "[mono_ns amb]"]) (simp_all add: t case_prod_beta)
next
  case False
  have "inner (invite_create_rate st) = b" using assms(2) by (cases "invite_create_rate st") (simp add: lock_def split: if_splits)
  with advance_keeps_rate [of t st] False show thesis by (intro that [of "[]"]) simp_all
qed

lemma job_admits:
  assumes "job_gates q j" and "lock (invite_create_rate st) = Some b"
  obtains ts where "\<forall>x \<in> set ts. q x"
    "\<And>us. fst (admissions (try_consume (invite_bucket_controls (invite_limits st))) (ts @ us) b) =
       (if job_passes j st then 1 else 0) +
       fst (admissions (try_consume (invite_bucket_controls (invite_limits st))) us
         (inner (invite_create_rate (snd (snd (job_step j st))))))"
proof (cases j)
  case (Client req amb t)
  then have "gates_in q t" using assms(1) by simp
  from advance_admits [OF this assms(2)] obtain ts where "\<forall>x \<in> set ts. q x"
    "\<And>us. fst (admissions (try_consume (invite_bucket_controls (invite_limits st))) (ts @ us) b) =
       (if passes t st then 1 else 0) +
       fst (admissions (try_consume (invite_bucket_controls (invite_limits st))) us
         (inner (invite_create_rate (snd (snd (advance t st))))))" by blast
  then show thesis by (intro that [of ts]) (simp_all add: Client case_prod_beta)
next
  case (Sweeper t)
  then have "gates_in q t" using assms(1) by simp
  from advance_admits [OF this assms(2)] obtain ts where "\<forall>x \<in> set ts. q x"
    "\<And>us. fst (admissions (try_consume (invite_bucket_controls (invite_limits st))) (ts @ us) b) =
       (if passes t st then 1 else 0) +
       fst (admissions (try_consume (invite_bucket_controls (invite_limits st))) us
         (inner (invite_create_rate (snd (snd (advance t st))))))" by blast
  then show thesis by (intro that [of ts]) (simp_all add: Sweeper case_prod_beta)
next
  case (Lost req amb t)
  have "inner (invite_create_rate st) = b" using assms(2) by (cases "invite_create_rate st") (simp add: lock_def split: if_splits)
  then show thesis using that [of "[]"] Lost by simp
qed

fun create_times :: "(nat \<Rightarrow> bool) \<Rightarrow> event \<Rightarrow> bool" where
  "create_times q (Arrive req amb) = asks_in q req amb"
| "create_times q _ = True"

lemma passes_admitted:
  assumes "app_reachable st" and "pool_ok st P" and "list_all (job_gates q) (jobs P)" and "\<forall>e \<in> set es. create_times q e"
  shows "\<exists>ts. (\<forall>x \<in> set ts. q x) \<and> gate_passes sha p es P =
    fst (admissions (try_consume (invite_bucket_controls (invite_limits st))) ts (inner (invite_create_rate (shared P))))"
  using assms(2-4)
proof (induction es arbitrary: P)
  case Nil
  then show ?case by (intro exI [of _ "[]"]) simp
next
  case (Cons e es)
  let ?P = "pool_step sha p e P" and ?n = "runs_of (\<lambda>n j st. job_passes j st) e P"
  have steps: "app_step\<^sup>*\<^sup>* st (shared P)" using Cons.prems(1) by (simp add: pool_ok_def)
  have il: "invite_limits (shared P) = invite_limits st"
    using steps_config [OF steps] by (simp add: config_of_def)
  have "\<not> poisoned (invite_create_rate (shared P))"
    using app_reachable_ok [OF app_reachable_steps [OF steps assms(1)]] by (simp add: app_ok_def)
  then obtain b where b: "lock (invite_create_rate (shared P)) = Some b" "inner (invite_create_rate (shared P)) = b"
    by (cases "invite_create_rate (shared P)") (simp add: lock_def)
  have gates: "list_all (job_gates q) (jobs ?P)"
    using Cons.prems(2,3) job_gates_step [of q] gates_in_app [of q] gates_in_sweep [of q]
    by (cases e) (auto simp: list_all_length nth_list_update nth_append case_prod_beta, case_tac "jobs P ! x4", auto simp: drop_job_cases)
  obtain us where us: "\<forall>x \<in> set us. q x" "gate_passes sha p es ?P =
      fst (admissions (try_consume (invite_bucket_controls (invite_limits st))) us (inner (invite_create_rate (shared ?P))))"
    using Cons.IH [OF pool_step_ok [OF Cons.prems(1)] gates] Cons.prems(3) by auto
  show ?case
  proof (cases "\<exists>i. e = Run i \<and> i < length (jobs P)")
    case True
    then obtain i where i: "e = Run i" "i < length (jobs P)" by blast
    then have "job_gates q (jobs P ! i)" using Cons.prems(2) by (simp add: list_all_length)
    from job_admits [OF this b(1), unfolded il] obtain ts where ts: "\<forall>x \<in> set ts. q x"
      "\<And>us. fst (admissions (try_consume (invite_bucket_controls (invite_limits st))) (ts @ us) b) =
         (if job_passes (jobs P ! i) (shared P) then 1 else 0) +
         fst (admissions (try_consume (invite_bucket_controls (invite_limits st))) us
           (inner (invite_create_rate (snd (snd (job_step (jobs P ! i) (shared P)))))))" by blast
    show ?thesis
      using us ts(1) ts(2) [of us] i b(2) by (intro exI [of _ "ts @ us"]) (auto simp: case_prod_beta)
  next
    case False
    then have "shared ?P = shared P" "?n = 0" by (cases e; auto)+
    then show ?thesis using us by (intro exI [of _ us]) simp
  qed
qed

text \<open>
  C16: Refusals are cheap, and a flood of creates is bounded. In every execution, however requests
  overlap, fail or lose their clients: the reply of a request tells how many store calls it made
  (none for a refusal of the bearer token, the route token, the size or the form, and none for
  a create refused by the rate gate; one for a push refused by its rate gate; at most two for
  any), and no request makes more than two whatever becomes of it. If the creates read the
  monotonic clock between \<open>lo\<close> and \<open>hi\<close>, all creates together call the store at most as often
  as the burst of the create gate and its refill in the started seconds of that time, however
  many of them arrive.
\<close>

theorem store_costs:
  assumes "app_reachable st" and "\<forall>e \<in> set es. create_times (\<lambda>t. lo \<le> t \<and> t \<le> hi) e"
    and "P = execute_pool sha p es (idle st)" and "i < length (jobs P)"
  shows "(case jobs P ! i of
      Client req amb (Answer r) \<Rightarrow> store_calls sha p i es (idle st) \<in> store_cost req r
    | Sweeper (Answer x) \<Rightarrow> store_calls sha p i es (idle st) = 1
    | _ \<Rightarrow> store_calls sha p i es (idle st) \<le> 2) \<and>
    create_calls sha p es (idle st) \<le> create_burst (invite_limits st) +
      create_refill_per_sec (invite_limits st) * Suc (elapsed_secs hi lo)"
proof
  show "case jobs P ! i of
      Client req amb (Answer r) \<Rightarrow> store_calls sha p i es (idle st) \<in> store_cost req r
    | Sweeper (Answer x) \<Rightarrow> store_calls sha p i es (idle st) = 1
    | _ \<Rightarrow> store_calls sha p i es (idle st) \<le> 2"
    using each_cost assms(3,4) by blast
  let ?c = "invite_bucket_controls (invite_limits st)"
  have "create_calls sha p es (idle st) \<le> gate_passes sha p es (idle st)"
    using create_calls_passes [of "idle st" "[]"] by (simp add: idle_def)
  also obtain ts where "\<forall>t \<in> set ts. lo \<le> t \<and> t \<le> hi"
    "gate_passes sha p es (idle st) = fst (admissions (try_consume ?c) ts (inner (invite_create_rate st)))"
    using passes_admitted [OF assms(1) idle_ok _ assms(2), of sha p] by (auto simp: idle_def)
  then have "gate_passes sha p es (idle st) \<le> push_rate_burst ?c + push_rate_refill_per_sec ?c * Suc (elapsed_secs hi lo)"
    using window_bound [of ts lo hi ?c] app_reachable_ok [OF assms(1)] app_reachable_wf [OF assms(1)]
    by (simp add: app_ok_def invite_limits_wf_def invite_bucket_controls_def)
  finally show "create_calls sha p es (idle st) \<le> create_burst (invite_limits st) +
      create_refill_per_sec (invite_limits st) * Suc (elapsed_secs hi lo)"
    by (simp add: invite_bucket_controls_def)
qed

end
