(* ===== verification/Races.thy ===== *)
theory Races imports Samples Leases Expiry Costs begin

text \<open>
  Executions of the pool on concrete relays: a legacy pull of a queued message, and two
  redemptions of one slot that overlap.
\<close>

subsection \<open>A queued message\<close>

definition sample_key :: string where
  "sample_key = route_key_for sample_sha ''tok''"

definition queued_db :: db where
  "queued_db = accepted sample_key ''lid'' ''m'' [7] 1000 empty_db"

lemma queued_relay: "app_reachable (sample_relay queued_db)"
proof (rule relay_reachable)
  have rows: "messages queued_db = [new_message empty_db ''m'' sample_key [7] 1000]" "invites queued_db = []"
    "map rt_key (routes queued_db) = [sample_key]" "last_seq queued_db = 1"
    by (simp_all add: queued_db_def accepted_def append_message_def add_route_def burn_ticket_def has_route_def
        touch_def map_invites_def new_message_def)
  show "db_ok queued_db"
    unfolding db_ok_def mail_ok_def slots_ok_def rows by (simp add: new_message_def)
  show "capped 257 256 256 queued_db"
    using arg_cong [OF rows(3), of length] by (simp add: capped_def queue_def rows(1,2))
qed

lemma queued_mailbox: "mailbox sample_key (store (sample_relay queued_db)) = {#(''m'', [7])#}"
  by (simp add: mailbox_def held_def queue_def stored_def)
     (simp add: queued_db_def accepted_def append_message_def new_message_def stored_def)

definition sample_pull :: "string option \<Rightarrow> request" where
  "sample_pull mode = PullReq sample_token \<lparr>query_max = None, query_ack = mode\<rparr>"

lemma queued_pull:
  assumes "mode \<in> {None, Some ''lease''}"
  shows "fst (serve sample_sha sample_parsers (at_second 1001) (sample_pull mode) (sample_relay queued_db)) =
    Reply 200 (PullResp [(''m'', [7])])"
proof -
  let ?st = "sample_relay queued_db" and ?q = "\<lparr>query_max = None, query_ack = mode\<rparr>"
  have wf: "store_wf (store ?st)" using app_reachable_ok [OF queued_relay] by (simp add: app_ok_def)
  then have ok: "mail_ok (tables (store ?st))" by (simp add: store_wf_def db_ok_def)
  have "queue (swept 604800 1001 (tables (store ?st))) sample_key = [new_message empty_db ''m'' sample_key [7] 1000]"
    by (simp add: queue_swept [OF ok])
       (simp add: queue_def queued_db_def accepted_def append_message_def new_message_def expired_def)
  from pulled_single [OF this, of 1001 1] show ?thesis
    using pull_message_run [where sha = sample_sha and headers = sample_token and channel = "''tok''" and q = ?q
        and st = ?st and amb = "at_second 1001"] wf assms
    by (simp add: sample_pull_def serve_final app_def sample_key_def available_def new_message_def
        Limits_default_def ceiling_defs unwrap_or_def)
qed

abbreviation pulled_alone :: "string option \<Rightarrow> nat \<Rightarrow> event list" where
  "pulled_alone mode n \<equiv> Arrive (sample_pull mode) (at_second 1001) # replicate n (Run 0)"

abbreviation after_pull :: "string option \<Rightarrow> nat \<Rightarrow> pool" where
  "after_pull mode n \<equiv> execute_pool sample_sha sample_parsers (pulled_alone mode n) (idle (sample_relay queued_db))"

lemma pull_execution:
  assumes "mode \<in> {None, Some ''lease''}"
  obtains n where "pool_told sample_sha sample_parsers (after_pull mode n) =
      {#(if mode = None then Deliver else Lend) sample_key (''m'', [7])#}"
    and "list_all heard (jobs (after_pull mode n))"
proof -
  obtain r l st where s: "serve sample_sha sample_parsers (at_second 1001) (sample_pull mode) (sample_relay queued_db) = (r, l, st)"
    by (cases "serve sample_sha sample_parsers (at_second 1001) (sample_pull mode) (sample_relay queued_db)")
  then have r: "r = Reply 200 (PullResp [(''m'', [7])])" using queued_pull [OF assms] by simp
  obtain n where run: "after_pull mode n =
      \<lparr>shared = st, jobs = [Client (sample_pull mode) (at_second 1001) (Answer r)], trail = l\<rparr>"
    using run_request [where sha = sample_sha and p = sample_parsers and amb = "at_second 1001" and req = "sample_pull mode"
        and P = "idle (sample_relay queued_db)"]
    by (auto simp: idle_def s)
  show thesis
    by (rule that [of n]; simp only: run) (simp_all add: r pool_told_def sample_pull_def reported_def sample_key_def heard_def)
qed

theorem concurrent_delivery_witness:
  "\<exists>n. pick (delivered_at sample_key) (pool_told sample_sha sample_parsers (after_pull None n)) = {#(''m'', [7])#} \<and>
     {#(''m'', [7])#} \<subseteq># mailbox sample_key (store (sample_relay queued_db)) +
       pick (accepted_at sample_key) (pool_deeds sample_sha sample_parsers (after_pull None n))"
proof -
  obtain n where told: "pool_told sample_sha sample_parsers (after_pull None n) = {#Deliver sample_key (''m'', [7])#}"
    by (rule pull_execution [of None]) simp_all
  have "pick (delivered_at sample_key) (pool_told sample_sha sample_parsers (after_pull None n)) = {#(''m'', [7])#}"
    by (simp only: told) simp
  then show ?thesis
    using concurrent_delivery [OF queued_relay, of sample_key sample_sha sample_parsers "pulled_alone None n"]
    by (intro exI [of _ n]) (simp only:)
qed

text \<open>After that pull nothing is left in the queue.\<close>

theorem nothing_lost_witness:
  "mailbox sample_key (store (sample_relay queued_db)) = {#(''m'', [7])#} \<and>
   (\<exists>n. mailbox sample_key (store (shared (after_pull None n))) = {#})"
proof -
  obtain n where told: "pool_told sample_sha sample_parsers (after_pull None n) = {#Deliver sample_key (''m'', [7])#}"
    and heard: "list_all heard (jobs (after_pull None n))"
    by (rule pull_execution [of None]) simp_all
  have old: "\<forall>m \<in> set (queue (tables (store (sample_relay queued_db))) sample_key). 1000 \<le> enqueued_at m"
    by (simp add: queue_def) (simp add: queued_db_def accepted_def append_message_def new_message_def)
  have quiet: "list_all (timed_event 1000 (1000 + st_retention_ttl_secs (store (sample_relay queued_db)))) (pulled_alone None n)"
      "\<not> list_ex (acks_on sample_sha sample_key) (pulled_alone None n)"
    by (simp_all add: sample_pull_def list_all_iff list_ex_iff)
  note lost = nothing_lost [OF queued_relay old quiet, of sample_parsers]
  then have "pool_deeds sample_sha sample_parsers (after_pull None n) = {#Deliver sample_key (''m'', [7])#}"
    using heard told by (simp only: simp_thms)
  then have "mailbox sample_key (store (shared (after_pull None n))) = {#}"
    using lost queued_mailbox by (simp del: run_steps.simps)
  then show ?thesis using queued_mailbox by blast
qed

text \<open>The same pull, leased: the copy was in reach, and nobody else is handed it.\<close>

theorem lease_race_witness:
  "\<exists>n. pick (handed_at sample_key) (pool_told sample_sha sample_parsers (after_pull (Some ''lease'') n)) = {#(''m'', [7])#} \<and>
     {#(''m'', [7])#} \<subseteq># reach sample_key 1120 (store (sample_relay queued_db)) +
       pick (accepted_at sample_key) (pool_deeds sample_sha sample_parsers (after_pull (Some ''lease'') n))"
proof -
  obtain n where told: "pool_told sample_sha sample_parsers (after_pull (Some ''lease'') n) = {#Lend sample_key (''m'', [7])#}"
    by (rule pull_execution [of "Some ''lease''"]) simp_all
  have handed: "pick (handed_at sample_key) (pool_told sample_sha sample_parsers (after_pull (Some ''lease'') n)) = {#(''m'', [7])#}"
    by (simp only: told) simp
  have window: "list_all (timed_event 1000 (1000 + st_pull_lease_secs (store (sample_relay queued_db)))) (pulled_alone (Some ''lease'') n)"
    by (simp add: list_all_iff)
  have "pick (handed_at sample_key) (pool_told sample_sha sample_parsers (after_pull (Some ''lease'') n)) \<subseteq>#
      reach sample_key (1000 + st_pull_lease_secs (store (sample_relay queued_db))) (store (sample_relay queued_db)) +
      pick (accepted_at sample_key) (pool_deeds sample_sha sample_parsers (after_pull (Some ''lease'') n))"
    by (rule lease_race [OF queued_relay _ _ window]) simp_all
  then show ?thesis using handed by (intro exI [of _ n]) simp
qed

subsection \<open>Two redemptions of one slot\<close>

definition published_db :: db where
  "published_db = empty_db\<lparr>invites := [new_invite (route_key_for sample_sha ''i'') ''lid''
     (sha256_hex sample_sha ''c'') ''rev'' [1] [2] 5000 400]\<rparr>"

lemma published_relay: "app_reachable (sample_relay published_db)"
  by (rule relay_reachable)
     (simp_all add: published_db_def db_ok_def slots_ok_def invite_ok_def new_invite_def
       capped_def empty_db_def queue_def mail_ok_def)

text \<open>Both requests get past their checks before either reaches the store.\<close>

definition sample_race :: "event list" where
  "sample_race = [Arrive (RedeemReq sample_token [1]) (at_second 1000), Arrive (RedeemReq sample_token [1]) (at_second 1000),
     Run 1, Run 0, Run 1, Run 0]"

lemma second_redeem:
  assumes "alive s" and "db_ok (tables s)" and "find_invite k (tables s) = Some i"
    and "inv_state i = INVITE_CONSUMED" and "now < expiry i"
  shows "\<exists>s'. exec (OpRedeem k now th verify) [] s = (Inr (OutRedeem AlreadyUsed), s')"
proof -
  have dist: "distinct (map slot_key (invites (tables s)))"
    using assms(2) by (simp add: db_ok_def slots_ok_def)
  show ?thesis
    using assms by (simp add: exec_no_fault run_op_def op_effect_def out_as_def invite_redeem_run [OF dist]
        redeem_refusal_def)
qed

text \<open>The later arrival reaches the store first and wins; the other is told that the slot is used.\<close>

lemma race_answers:
  "\<exists>st l. execute_pool sample_sha sample_parsers sample_race (idle (sample_relay published_db)) =
     \<lparr>shared = st,
      jobs = [Client (RedeemReq sample_token [1]) (at_second 1000) (Answer (Reply 409 (Code ''ERR_INVITE_ALREADY_USED''))),
        Client (RedeemReq sample_token [1]) (at_second 1000)
          (Answer (Reply 200 (InviteRedeemResp ''AQ'' ''Ag'' (random_token_128 (replicate 16 0)))))],
      trail = l\<rparr>"
proof -
  let ?k = "route_key_for sample_sha ''i''" and ?s = "store (sample_relay published_db)"
  let ?th = "sha256_hex sample_sha (random_token_128 (replicate 16 0))" and ?v = "ct_eq_secret sample_sha (sha256_hex sample_sha ''c'')"
  let ?i = "new_invite ?k ''lid'' (sha256_hex sample_sha ''c'') ''rev'' [1] [2] 5000 400"
  let ?op = "OpRedeem ?k 1000 ?th ?v"
  have wf: "alive ?s" "db_ok (tables ?s)"
    using app_reachable_ok [OF published_relay] by (simp_all add: app_ok_def store_wf_def)
  have find: "find_invite ?k (tables ?s) = Some ?i"
    by (simp add: find_invite_def published_db_def new_invite_def)
  have row: "inv_state ?i = INVITE_ACTIVE" "1000 < expiry ?i" "?v (cap_hash ?i)" "inv_bundle ?i = [1]" "inv_sig ?i = [2]"
    by (simp_all add: new_invite_def)
  have "holds_slot ?k ?i ?s" using wf find by (simp add: holds_slot_def)
  note redeem = redeem_active [OF this row(1,2), where verify = ?v, OF row(3)]
  obtain s1 where first: "exec ?op [] ?s = (Inr (OutRedeem (Redeemed [1] [2])), s1)"
    using redeem(1) [of "[]" ?th, unfolded row(4,5)] by (cases "exec ?op [] ?s") (auto simp: comes_out_def)
  have held: "holds_slot ?k (consume 1000 ?th ?i) s1" by (rule redeem(2) [OF first])
  then have "alive s1" "db_ok (tables s1)" "find_invite ?k (tables s1) = Some (consume 1000 ?th ?i)"
    by (simp_all add: holds_slot_def)
  from second_redeem [OF this, of 1000] obtain s2 where second: "exec ?op [] s1 = (Inr (OutRedeem AlreadyUsed), s2)"
    using row(2) by (auto simp: consume_def)
  have enc: "b64_encode [1] = ''AQ''" "b64_encode [2] = ''Ag''" by code_simp+
  show ?thesis
    by (simp add: sample_race_def idle_def app_task_def redeem_task_def t_own_def redeem_admit_def h_run h_bind_def
        h_auth_def h_guard_def h_json_def INVITE_REDEEM_BODY_CAP_def sample_texts Let_def t_store_def
        first second redeem_reply_def enc del: b64_encode.simps)
qed

theorem one_winner_witness:
  "count (pick claimed (pool_told sample_sha sample_parsers
       (execute_pool sample_sha sample_parsers sample_race (idle (sample_relay published_db)))))
     (route_key_for sample_sha ''i'') = 1 \<and>
   1 \<le> count (live is_active (tables (store (sample_relay published_db)))) (route_key_for sample_sha ''i'') +
     count (pick opened (pool_deeds sample_sha sample_parsers
       (execute_pool sample_sha sample_parsers sample_race (idle (sample_relay published_db)))))
     (route_key_for sample_sha ''i'')"
proof -
  obtain st l where "execute_pool sample_sha sample_parsers sample_race (idle (sample_relay published_db)) =
     \<lparr>shared = st,
      jobs = [Client (RedeemReq sample_token [1]) (at_second 1000) (Answer (Reply 409 (Code ''ERR_INVITE_ALREADY_USED''))),
        Client (RedeemReq sample_token [1]) (at_second 1000)
          (Answer (Reply 200 (InviteRedeemResp ''AQ'' ''Ag'' (random_token_128 (replicate 16 0)))))],
      trail = l\<rparr>"
    using race_answers by blast
  then have "count (pick claimed (pool_told sample_sha sample_parsers
       (execute_pool sample_sha sample_parsers sample_race (idle (sample_relay published_db)))))
     (route_key_for sample_sha ''i'') = 1"
    by (simp add: pool_told_def reported_def)
  then show ?thesis
    using one_winner [OF published_relay, of sample_sha sample_parsers sample_race "route_key_for sample_sha ''i''"]
    by simp
qed

subsection \<open>A create that overtakes a push\<close>

text \<open>
  A push at second 2000 has swept the expired slots. Before it goes on, a create that read its
  clock a second earlier opens the push's slot, until second 2000: the push finds a slot that
  has expired. Serving one request at a time cannot give this answer
  (\<open>serve_push_never_expired\<close>); it takes two requests that overlap.
\<close>

definition slot_token :: headers where
  "slot_token = [ROUTE_TOKEN_HEADER \<mapsto> Some ''i'']"

definition overtaken :: "event list" where
  "overtaken = [Arrive (PushReq slot_token [7]) (at_second 2000), Arrive (CreateReq slot_token [1]) (at_second 1999),
     Run 0, Run 1, Run 1, Run 0, Run 0, Run 0, Run 1]"

lemma slot_token_simps:
  "resolve_route_token slot_token = Inr ''i''" "push_ticket sample_sha slot_token = None"
proof -
  have "trim ''i'' = ''i''" by code_simp
  then show "resolve_route_token slot_token = Inr ''i''"
    by (simp add: resolve_route_token_def slot_token_def header_str_def ROUTE_TOKEN_HEADER_def option_filter_def)
  show "push_ticket sample_sha slot_token = None"
    by (simp add: push_ticket_def slot_token_def header_str_def ROUTE_TOKEN_HEADER_def INVITE_TICKET_HEADER_def
        option_filter_def)
qed

text \<open>The three store calls.\<close>

lemma quiet_status:
  assumes "alive s" and "messages (tables s) = []" "routes (tables s) = []"
  shows "exec (OpStatus k now) [] s = (Inr (OutStatus \<lparr>route_exists = False, depth = 0, live_routes = 0,
      status_sweep = \<lparr>expired_messages = 0, expired_routes = [], removed_route_keys = [],
        expired_invites = length (filter (\<lambda>i. expiry i \<le> now) (invites (tables s)))\<rparr>\<rparr>),
    s\<lparr>conn := Mutex False (drop_expired_invites now (tables s))\<rparr>)"
  using assms by (simp add: exec_no_fault run_op_def op_effect_def out_as_def route_status_run sweep_stats_def
      count_expired_def has_route_def queue_def drop_expired_invites_def)

lemma fresh_create:
  assumes "alive s" and "messages (tables s) = []" "invites (tables s) = []" and "0 < m"
  shows "exec (OpCreate k lid ch rh bun sg until now m) [] s =
    (Inr (OutCreate Created), s\<lparr>conn := Mutex False (add_invite (new_invite k lid ch rh bun sg until now) (tables s))\<rparr>)"
proof -
  have "swept ttl now (tables s) = tables s" for ttl
    using assms(2,3) by (cases "tables s") (simp add: drop_expired_invites_def)
  then show ?thesis
    using assms by (simp add: exec_no_fault run_op_def op_effect_def out_as_def invite_create_run Let_def find_invite_def)
qed

lemma late_enqueue:
  assumes "alive s" and "find_invite k (tables s) = Some i" "inv_state i = INVITE_ACTIVE" "expiry i \<le> now"
  shows "exec (OpEnqueue k lid mid b now D R ticket) [] s =
    (Inr (OutEnqueue (SlotRejected SlotExpired)), s\<lparr>conn := Mutex False (tables s)\<rparr>)"
  using assms by (simp add: exec_no_fault run_op_def op_effect_def out_as_def enqueue_run slot_refusal_def
      slot_admission_def)

text \<open>The two gates let the first request pass.\<close>

lemma sample_gates:
  "\<exists>b. \<forall>s. create_gate (at_second t) ((sample_relay d)\<lparr>store := s\<rparr>) =
     (Inr (), [], (sample_relay d)\<lparr>store := s, invite_create_rate := b\<rparr>)"
  "\<exists>q. \<forall>s b. push_gate (at_second t) k lid ((sample_relay d)\<lparr>invite_create_rate := b, store := s\<rparr>) =
     (Inr (), [], (sample_relay d)\<lparr>invite_create_rate := b, store := s, push_rates := q\<rparr>)"
proof -
  obtain b' where "try_consume (invite_bucket_controls InviteLimits_default) (mono_ns (at_second t))
      (bucket_new 0 (invite_bucket_controls InviteLimits_default)) = (True, b')"
    using sample_create_bucket by (metis prod.collapse)
  then show "\<exists>b. \<forall>s. create_gate (at_second t) ((sample_relay d)\<lparr>store := s\<rparr>) =
      (Inr (), [], (sample_relay d)\<lparr>store := s, invite_create_rate := b\<rparr>)"
    by (simp add: create_gate_def lock_def Let_def del: at_second_simps) blast
  obtain q' where "try_consume relay_controls (mono_ns (at_second t)) (bucket_new (mono_ns (at_second t)) relay_controls) = (True, q')"
    by (cases "try_consume relay_controls (mono_ns (at_second t)) (bucket_new (mono_ns (at_second t)) relay_controls)")
       (simp add: try_consume_def bucket_refill_def bucket_new_def relay_controls_simps split: if_splits)
  then show "\<exists>q. \<forall>s b. push_gate (at_second t) k lid ((sample_relay d)\<lparr>invite_create_rate := b, store := s\<rparr>) =
      (Inr (), [], (sample_relay d)\<lparr>invite_create_rate := b, store := s, push_rates := q\<rparr>)"
    by (simp add: push_gate_def lock_def Let_def unwrap_or_def del: at_second_simps) blast
qed

text \<open>The two tasks, up to what they do on other outcomes.\<close>

lemma overtaken_push:
  obtains k1 k2 k3 e where
    "app_task sample_sha sample_parsers (at_second 2000) (PushReq slot_token [7]) (sample_relay d) =
      StoreCall (OpStatus (route_key_for sample_sha ''i'') 2000) [] k1"
    "\<And>n. k1 (Inr (OutStatus \<lparr>route_exists = False, depth = 0, live_routes = 0, status_sweep =
        \<lparr>expired_messages = 0, expired_routes = [], removed_route_keys = [], expired_invites = n\<rparr>\<rparr>)) =
      PushGate (at_second 2000) (route_key_for sample_sha ''i'') (channel_log_id ''i'') k2"
    "k2 (Inr ()) = StoreCall (OpEnqueue (route_key_for sample_sha ''i'') (channel_log_id ''i'') ''u'' [7] 2000
        (max_queue_depth Limits_default) 256 None) [] k3"
    "k3 (Inr (OutEnqueue (SlotRejected SlotExpired))) = Emit e (Answer (Reply 410 (Code ''ERR_INVITE_EXPIRED'')))"
proof -
  have mid: "push_msg_id (at_second 2000) slot_token = ''u''"
    by (simp add: push_msg_id_def header_str_def slot_token_def ROUTE_TOKEN_HEADER_def option_filter_def unwrap_or_def)
  have admit: "fst (push_admit sample_sha slot_token [7] (sample_relay d)) = Inr ''i''"
    by (simp add: push_admit_def h_run h_bind_def h_auth_def h_route_token_def h_guard_def slot_token_simps
        Limits_default_def ceiling_defs)
  have clock: "now_unix_secs (at_second 2000) = 2000" by simp
  show thesis
    apply (rule that)
       apply (simp only: app_task_def request.case push_task_def t_own_def admit sum.case Let_def t_store_def
        clock at_second_simps(2))
      apply (simp add: t_prune_def relay_controls_simps Limits_default_def ceiling_defs)
     apply (simp add: t_gate_def t_enqueue_def t_store_def mid slot_token_simps relay_controls_simps)
    apply (simp add: t_push_answer_def slot_reply_def)
    done
qed

lemma overtaking_create:
  obtains g1 g2 e where
    "app_task sample_sha sample_parsers (at_second 1999) (CreateReq slot_token [1]) (sample_relay d) =
      CreateGate (at_second 1999) g1"
    "g1 (Inr ()) = StoreCall (OpCreate (route_key_for sample_sha ''i'') (channel_log_id ''i'') (sha256_hex sample_sha ''c'')
        (sha256_hex sample_sha (random_token_128 (replicate 16 0))) [1] [2] 2000 1999 256) [] g2"
    "g2 (Inr (OutCreate Created)) = Emit e (Answer (Reply 200 (InviteCreateResp (random_token_128 (replicate 16 0)))))"
proof -
  have admit: "fst (create_admit sample_sha slot_token [1] (sample_relay d)) = Inr InviteLimits_default"
    by (simp add: create_admit_def h_run h_bind_def h_auth_def h_guard_def invite_create_body_cap_def)
  have until: "min 2000 (i64_sat_add 1999 (usize_as_i64 259200)) = 2000"
    by (simp add: i64_sat_add_def usize_as_i64_small i64_min_def i64_max_def)
  have valid: "fst (create_body (parse_create sample_parsers) (at_second 1999) [1] (sample_relay d)) =
      Inr (sample_create, [1], [2], 2000)"
    using sample_create_ready(2)
    by (simp add: create_body_def create_validate_def h_run h_bind_def h_guard_def h_json_def sample_texts Let_def until)
  show thesis
    apply (rule that)
      apply (simp only: app_task_def request.case create_task_def t_own_def [of "create_admit sample_sha slot_token [1]"]
        admit sum.case)
     apply (simp add: t_gate_def t_own_def valid Let_def t_store_def)
    apply (simp add: t_create_answer_def)
    done
qed

lemma overtaken_answers:
  "\<exists>st l. execute_pool sample_sha sample_parsers overtaken (idle (sample_relay empty_db)) =
     \<lparr>shared = st,
      jobs = [Client (PushReq slot_token [7]) (at_second 2000) (Answer (Reply 410 (Code ''ERR_INVITE_EXPIRED''))),
        Client (CreateReq slot_token [1]) (at_second 1999)
          (Answer (Reply 200 (InviteCreateResp (random_token_128 (replicate 16 0)))))],
      trail = l\<rparr>"
proof -
  let ?st = "sample_relay empty_db" and ?k = "route_key_for sample_sha ''i''"
  let ?rh = "sha256_hex sample_sha (random_token_128 (replicate 16 0))"
  obtain s1 n where s1: "exec (OpStatus ?k 2000) [] (store ?st) = (Inr (OutStatus \<lparr>route_exists = False, depth = 0,
      live_routes = 0, status_sweep = \<lparr>expired_messages = 0, expired_routes = [], removed_route_keys = [],
        expired_invites = n\<rparr>\<rparr>), s1)"
    and clean: "alive s1" "messages (tables s1) = []" "invites (tables s1) = []"
    using quiet_status [of "store ?st" ?k 2000] by (simp add: drop_expired_invites_def)
  let ?i = "new_invite ?k (channel_log_id ''i'') (sha256_hex sample_sha ''c'') ?rh [1] [2] 2000 1999"
  obtain s2 where s2: "exec (OpCreate ?k (channel_log_id ''i'') (sha256_hex sample_sha ''c'') ?rh [1] [2] 2000 1999 256) [] s1 =
      (Inr (OutCreate Created), s2)" and row: "alive s2" "find_invite ?k (tables s2) = Some ?i"
    using fresh_create [OF clean, of 256 ?k "channel_log_id ''i''" "sha256_hex sample_sha ''c''" ?rh "[1]" "[2]" 2000 1999] clean(3)
    by (simp add: find_invite_def add_invite_def new_invite_def)
  obtain s3 where s3: "exec (OpEnqueue ?k (channel_log_id ''i'') ''u'' [7] 2000 (max_queue_depth Limits_default) 256 None) [] s2 =
      (Inr (OutEnqueue (SlotRejected SlotExpired)), s3)"
    using late_enqueue [OF row] by (simp add: new_invite_def)
  obtain b where b: "create_gate (at_second 1999) (?st\<lparr>store := s\<rparr>) = (Inr (), [], ?st\<lparr>store := s, invite_create_rate := b\<rparr>)" for s
    using sample_gates(1) by metis
  obtain q where q: "push_gate (at_second 2000) ?k (channel_log_id ''i'') (?st\<lparr>invite_create_rate := b, store := s\<rparr>) =
      (Inr (), [], ?st\<lparr>invite_create_rate := b, store := s, push_rates := q\<rparr>)" for s b
    using sample_gates(2) by metis
  show ?thesis
    by (rule overtaken_push [of empty_db], rule overtaking_create [of empty_db])
       (simp add: overtaken_def idle_def s1 s2 s3 b q del: at_second_simps)
qed

text \<open>What the two requests cost the store.\<close>

theorem store_costs_witness:
  "store_calls sample_sha sample_parsers 0 overtaken (idle (sample_relay empty_db)) = 2 \<and>
   create_calls sample_sha sample_parsers overtaken (idle (sample_relay empty_db)) \<le>
     create_burst InviteLimits_default + create_refill_per_sec InviteLimits_default"
proof -
  let ?m = "mono_ns (at_second 1999)"
  obtain st l where run: "execute_pool sample_sha sample_parsers overtaken (idle (sample_relay empty_db)) =
     \<lparr>shared = st,
      jobs = [Client (PushReq slot_token [7]) (at_second 2000) (Answer (Reply 410 (Code ''ERR_INVITE_EXPIRED''))),
        Client (CreateReq slot_token [1]) (at_second 1999)
          (Answer (Reply 200 (InviteCreateResp (random_token_128 (replicate 16 0)))))],
      trail = l\<rparr>"
    using overtaken_answers by blast
  have "\<forall>e \<in> set overtaken. create_times (\<lambda>t. ?m \<le> t \<and> t \<le> ?m) e"
    by (simp add: overtaken_def asks_in_def)
  from store_costs [OF empty_relay this run [symmetric], of 0] show ?thesis
    by (simp add: cost_defs elapsed_secs_def)
qed

text \<open>Without such a create: a pull is pending, the slot of the route expired at second 5000, and
  the push at second 9000 is answered 200 as one to an ordinary route.\<close>

abbreviation pending_pull :: pool where
  "pending_pull \<equiv> execute_pool sample_sha sample_parsers
     [Arrive (PullReq sample_token \<lparr>query_max = None, query_ack = None\<rparr>) (at_second 9000)]
     (idle (sample_relay redeemed_db))"

lemma expired_slot_push:
  "\<exists>l st. serve sample_sha sample_parsers (at_second 9000) (PushReq sample_token [7]) (sample_relay redeemed_db) =
    (Reply 200 (PostResp ''u''), l, st)"
  using push_accepts [OF redeemed_relay, where sha = sample_sha and headers = sample_token and data = "[7]"
      and amb = "at_second 9000" and channel = "''tok''" and p = sample_parsers]
  by (simp add: Limits_default_def ceiling_defs capacity_refusal_def has_route_def drop_expired_invites_def
      relay_controls_simps redeemed_db_def empty_db_def slot_refusal_def find_invite_def redeemed_slot_def
      consume_def new_invite_def)

lemma answered_last: "P' = P\<lparr>shared := st, jobs := jobs P @ [j], trail := l\<rparr> \<Longrightarrow> jobs P' ! length (jobs P) = j"
  by simp

theorem push_expired_needs_overlap_witness:
  "\<exists>n r. jobs (execute_pool sample_sha sample_parsers
       (Arrive (PushReq sample_token [7]) (at_second 9000) # replicate n (Run 1)) pending_pull) ! 1 =
     Client (PushReq sample_token [7]) (at_second 9000) (Answer r) \<and>
     r = Reply 200 (PostResp ''u'') \<and> r \<noteq> Reply 410 (Code ''ERR_INVITE_EXPIRED'')"
proof -
  have one: "length (jobs pending_pull) = 1" and st: "shared pending_pull = sample_relay redeemed_db"
    by (simp_all add: idle_def)
  obtain l st where s: "serve sample_sha sample_parsers (at_second 9000) (PushReq sample_token [7]) (shared pending_pull) =
    (Reply 200 (PostResp ''u''), l, st)"
    unfolding st using expired_slot_push by blast
  obtain n where "execute_pool sample_sha sample_parsers
       (Arrive (PushReq sample_token [7]) (at_second 9000) # replicate n (Run 1)) pending_pull =
     pending_pull\<lparr>shared := st,
       jobs := jobs pending_pull @ [Client (PushReq sample_token [7]) (at_second 9000) (Answer (Reply 200 (PostResp ''u'')))],
       trail := trail pending_pull @ l\<rparr>"
    using serial_run [where sha = sample_sha and p = sample_parsers and amb = "at_second 9000" and req = "PushReq sample_token [7]" and P = pending_pull] s one
    by auto
  then have job: "jobs (execute_pool sample_sha sample_parsers
       (Arrive (PushReq sample_token [7]) (at_second 9000) # replicate n (Run 1)) pending_pull) ! length (jobs pending_pull) =
     Client (PushReq sample_token [7]) (at_second 9000) (Answer (Reply 200 (PostResp ''u'')))"
    using answered_last by metis
  have "Reply 200 (PostResp ''u'') \<noteq> Reply 410 (Code ''ERR_INVITE_EXPIRED'')"
    by (rule push_expired_needs_overlap [OF redeemed_relay sample_token_simps(1) refl refl refl _ _ refl job])
       (auto simp: idle_def opens_late_def)
  with job show ?thesis unfolding one by blast
qed

end
