(* ===== verification/Tests_Startup.thy ===== *)
theory Tests_Startup imports Startup begin

text \<open>
  The unit tests of \<open>src/main.rs\<close> (\<open>mod cli_tests\<close>), one definition per test function over
  the model of \<open>resolve_config\<close> and of the strict parsers, and the proof that the model
  passes them. A test is the conjunction of its assertions; an \<open>unwrap\<close> of an error and an
  \<open>unwrap_err\<close> of a value fail it.
\<close>

subsection \<open>Assertions\<close>

definition unwrap_and :: "string + 'a \<Rightarrow> ('a \<Rightarrow> bool) \<Rightarrow> bool" where
  "unwrap_and r assertions = (case r of Inr v \<Rightarrow> assertions v | Inl _ \<Rightarrow> False)"

definition unwrap_err_is :: "string + 'a \<Rightarrow> string \<Rightarrow> bool" where
  "unwrap_err_is r code = (case r of Inl e \<Rightarrow> e = code | Inr _ \<Rightarrow> False)"

subsection \<open>Fixtures\<close>

definition base_cli :: Cli where
  "base_cli =
     \<lparr>cli_bind = None,
      cli_port = None,
      cli_max_body_bytes = None,
      cli_max_queue_depth = None,
      cli_max_route_count = None,
      cli_push_rate_burst = None,
      cli_push_rate_refill_per_sec = None,
      cli_route_idle_ttl_ms = None,
      cli_store_path = Some '':memory:'',
      cli_retention_ttl_secs = None,
      cli_pull_lease_secs = None,
      cli_max_invite_slots = None,
      cli_max_invite_bundle_bytes = None,
      cli_max_invite_expiry_secs = None,
      cli_invite_create_burst = None,
      cli_invite_create_refill_per_sec = None\<rparr>"

definition base_env :: EnvVals where
  "base_env =
     \<lparr>env_bind = None,
      env_port = None,
      env_max_body_bytes = None,
      env_max_queue_depth = None,
      env_max_route_count = None,
      env_push_rate_burst = None,
      env_push_rate_refill_per_sec = None,
      env_route_idle_ttl_ms_present = False,
      env_store_path = None,
      env_retention_ttl_secs = None,
      env_pull_lease_secs = None,
      env_max_invite_slots = None,
      env_max_invite_bundle_bytes = None,
      env_max_invite_expiry_secs = None,
      env_invite_create_burst = None,
      env_invite_create_refill_per_sec = None\<rparr>"

subsection \<open>Precedence and defaults\<close>

definition cli_overrides_env :: bool where
  "cli_overrides_env \<longleftrightarrow>
     (let cli = base_cli\<lparr>cli_port := Some 9000, cli_max_body_bytes := Some 4096,
            cli_max_queue_depth := Some 9, cli_max_route_count := Some 8,
            cli_push_rate_burst := Some 7, cli_push_rate_refill_per_sec := Some 6,
            cli_store_path := Some ''/tmp/cli.db'', cli_retention_ttl_secs := Some 120,
            cli_pull_lease_secs := Some 30\<rparr>;
          env = base_env\<lparr>env_bind := Some ''0.0.0.0'', env_port := Some 8080,
            env_max_body_bytes := Some 1024, env_max_queue_depth := Some 1,
            env_max_route_count := Some 2, env_push_rate_burst := Some 3,
            env_push_rate_refill_per_sec := Some 4, env_store_path := Some ''/tmp/env.db'',
            env_retention_ttl_secs := Some 999, env_pull_lease_secs := Some 99\<rparr>
      in unwrap_and (resolve_config cli env) (\<lambda>cfg.
           conf_bind cfg = ''0.0.0.0'' \<and>
           conf_port cfg = 9000 \<and>
           max_body_bytes (conf_limits cfg) = 4096 \<and>
           max_queue_depth (conf_limits cfg) = 9 \<and>
           max_route_count (conf_controls cfg) = 8 \<and>
           push_rate_burst (conf_controls cfg) = 7 \<and>
           push_rate_refill_per_sec (conf_controls cfg) = 6 \<and>
           cfg_path (conf_store cfg) = ''/tmp/cli.db'' \<and>
           cfg_retention_ttl_secs (conf_store cfg) = 120 \<and>
           cfg_pull_lease_secs (conf_store cfg) = 30))"

definition env_overrides_defaults :: bool where
  "env_overrides_defaults \<longleftrightarrow>
     (let cli = base_cli\<lparr>cli_store_path := None\<rparr>;
          env = base_env\<lparr>env_bind := Some ''0.0.0.0'', env_port := Some 7070,
            env_max_body_bytes := Some 2048, env_max_queue_depth := Some 7,
            env_max_route_count := Some 6, env_push_rate_burst := Some 5,
            env_push_rate_refill_per_sec := Some 4, env_store_path := Some ''/tmp/env-only.db'',
            env_retention_ttl_secs := Some 3600, env_pull_lease_secs := Some 120\<rparr>
      in unwrap_and (resolve_config cli env) (\<lambda>cfg.
           conf_bind cfg = ''0.0.0.0'' \<and>
           conf_port cfg = 7070 \<and>
           max_body_bytes (conf_limits cfg) = 2048 \<and>
           max_queue_depth (conf_limits cfg) = 7 \<and>
           max_route_count (conf_controls cfg) = 6 \<and>
           push_rate_burst (conf_controls cfg) = 5 \<and>
           push_rate_refill_per_sec (conf_controls cfg) = 4 \<and>
           cfg_path (conf_store cfg) = ''/tmp/env-only.db'' \<and>
           cfg_retention_ttl_secs (conf_store cfg) = 3600 \<and>
           cfg_pull_lease_secs (conf_store cfg) = 120))"

definition store_defaults_apply_when_unset :: bool where
  "store_defaults_apply_when_unset \<longleftrightarrow>
     unwrap_and (resolve_config base_cli base_env) (\<lambda>cfg.
       cfg_path (conf_store cfg) = '':memory:'' \<and>
       cfg_retention_ttl_secs (conf_store cfg) = RETENTION_TTL_SECS_DEFAULT \<and>
       cfg_pull_lease_secs (conf_store cfg) = PULL_LEASE_SECS_DEFAULT \<and>
       \<not> conf_deprecated_route_idle_ttl cfg)"

definition default_bind_is_loopback :: bool where
  "default_bind_is_loopback \<longleftrightarrow>
     unwrap_and (resolve_config base_cli base_env) (\<lambda>cfg. conf_bind cfg = ''127.0.0.1'')"

definition explicit_public_bind_is_opt_in :: bool where
  "explicit_public_bind_is_opt_in \<longleftrightarrow>
     unwrap_and (resolve_config (base_cli\<lparr>cli_bind := Some ''0.0.0.0''\<rparr>) base_env)
       (\<lambda>cfg. conf_bind cfg = ''0.0.0.0'')"

definition env_bind_can_enable_public_bind :: bool where
  "env_bind_can_enable_public_bind \<longleftrightarrow>
     unwrap_and (resolve_config base_cli (base_env\<lparr>env_bind := Some ''0.0.0.0''\<rparr>))
       (\<lambda>cfg. conf_bind cfg = ''0.0.0.0'')"

definition deprecated_route_idle_ttl_is_flagged_not_fatal :: bool where
  "deprecated_route_idle_ttl_is_flagged_not_fatal \<longleftrightarrow>
     unwrap_and (resolve_config (base_cli\<lparr>cli_route_idle_ttl_ms := Some 5000\<rparr>) base_env)
       conf_deprecated_route_idle_ttl \<and>
     unwrap_and (resolve_config base_cli (base_env\<lparr>env_route_idle_ttl_ms_present := True\<rparr>))
       conf_deprecated_route_idle_ttl"

subsection \<open>Ceilings and refusals\<close>

definition missing_store_path_fails_closed :: bool where
  "missing_store_path_fails_closed \<longleftrightarrow>
     unwrap_err_is (resolve_config (base_cli\<lparr>cli_store_path := None\<rparr>) base_env)
       ''ERR_INVALID_CONFIG_STORE_PATH''"

definition zero_retention_or_lease_fails_closed :: bool where
  "zero_retention_or_lease_fails_closed \<longleftrightarrow>
     unwrap_err_is (resolve_config (base_cli\<lparr>cli_retention_ttl_secs := Some 0\<rparr>) base_env)
       ''ERR_INVALID_CONFIG_RETENTION_TTL_SECS'' \<and>
     unwrap_err_is (resolve_config (base_cli\<lparr>cli_pull_lease_secs := Some 0\<rparr>) base_env)
       ''ERR_INVALID_CONFIG_PULL_LEASE_SECS''"

definition retention_and_lease_are_capped :: bool where
  "retention_and_lease_are_capped \<longleftrightarrow>
     (let cli = base_cli\<lparr>cli_retention_ttl_secs := Some (MAX_RETENTION_TTL_SECS_CEILING * 2),
            cli_pull_lease_secs := Some (MAX_PULL_LEASE_SECS_CEILING * 2)\<rparr>
      in unwrap_and (resolve_config cli base_env) (\<lambda>cfg.
           cfg_retention_ttl_secs (conf_store cfg) = MAX_RETENTION_TTL_SECS_CEILING \<and>
           cfg_pull_lease_secs (conf_store cfg) = MAX_PULL_LEASE_SECS_CEILING))"

definition limits_are_capped :: bool where
  "limits_are_capped \<longleftrightarrow>
     (let cli = base_cli\<lparr>cli_max_body_bytes := Some (MAX_BODY_BYTES_CEILING * 2),
            cli_max_queue_depth := Some (MAX_QUEUE_DEPTH_CEILING * 2),
            cli_max_route_count := Some (MAX_ROUTE_COUNT_CEILING * 2),
            cli_push_rate_burst := Some (MAX_PUSH_RATE_BURST_CEILING * 2),
            cli_push_rate_refill_per_sec := Some (MAX_PUSH_RATE_BURST_CEILING * 20)\<rparr>
      in unwrap_and (resolve_config cli base_env) (\<lambda>cfg.
           max_body_bytes (conf_limits cfg) = MAX_BODY_BYTES_CEILING \<and>
           max_queue_depth (conf_limits cfg) = MAX_QUEUE_DEPTH_CEILING \<and>
           max_route_count (conf_controls cfg) = MAX_ROUTE_COUNT_CEILING \<and>
           push_rate_burst (conf_controls cfg) = MAX_PUSH_RATE_BURST_CEILING \<and>
           push_rate_refill_per_sec (conf_controls cfg) = MAX_PUSH_RATE_REFILL_PER_SEC_CEILING))"

definition zero_limits_are_rejected :: bool where
  "zero_limits_are_rejected \<longleftrightarrow>
     unwrap_err_is (resolve_config base_cli
         (base_env\<lparr>env_max_body_bytes := Some 0, env_max_queue_depth := Some 1\<rparr>))
       ''ERR_INVALID_CONFIG_MAX_BODY_BYTES'' \<and>
     unwrap_err_is (resolve_config base_cli
         (base_env\<lparr>env_max_body_bytes := Some 1, env_max_queue_depth := Some 0\<rparr>))
       ''ERR_INVALID_CONFIG_MAX_QUEUE_DEPTH''"

text \<open>The two tests of the parsers set a variable of the process environment around the call.\<close>

definition invalid_port_env_is_rejected :: "environ \<Rightarrow> bool" where
  "invalid_port_env_is_rejected env \<longleftrightarrow>
     unwrap_err_is (env_u16 (env(''PORT_INVALID_FOR_TEST'' \<mapsto> ''not-a-port'')) ''PORT_INVALID_FOR_TEST'')
       ''ERR_INVALID_ENV_PORT_INVALID_FOR_TEST''"

definition invalid_size_env_is_rejected :: "environ \<Rightarrow> bool" where
  "invalid_size_env_is_rejected env \<longleftrightarrow>
     unwrap_err_is (env_usize (env(''MAX_BODY_BYTES_INVALID_FOR_TEST'' \<mapsto> ''not-a-size''))
         ''MAX_BODY_BYTES_INVALID_FOR_TEST'')
       ''ERR_INVALID_CONFIG_MAX_BODY_BYTES_INVALID_FOR_TEST''"

subsection \<open>The model passes\<close>

definition cli_tests :: "environ \<Rightarrow> (string \<times> bool) list" where
  "cli_tests env =
     [(''cli_overrides_env'', cli_overrides_env),
      (''env_overrides_defaults'', env_overrides_defaults),
      (''store_defaults_apply_when_unset'', store_defaults_apply_when_unset),
      (''missing_store_path_fails_closed'', missing_store_path_fails_closed),
      (''zero_retention_or_lease_fails_closed'', zero_retention_or_lease_fails_closed),
      (''retention_and_lease_are_capped'', retention_and_lease_are_capped),
      (''deprecated_route_idle_ttl_is_flagged_not_fatal'', deprecated_route_idle_ttl_is_flagged_not_fatal),
      (''limits_are_capped'', limits_are_capped),
      (''default_bind_is_loopback'', default_bind_is_loopback),
      (''explicit_public_bind_is_opt_in'', explicit_public_bind_is_opt_in),
      (''env_bind_can_enable_public_bind'', env_bind_can_enable_public_bind),
      (''invalid_port_env_is_rejected'', invalid_port_env_is_rejected env),
      (''zero_limits_are_rejected'', zero_limits_are_rejected),
      (''invalid_size_env_is_rejected'', invalid_size_env_is_rejected env)]"

text \<open>Which tests fail: the names of the failing entries.\<close>

definition failures :: "(string \<times> bool) list \<Rightarrow> string list" where
  "failures tests = map fst (filter (\<lambda>t. \<not> snd t) tests)"

lemma failures_simps [simp]:
  "failures [] = []"
  "failures ((name, ok) # ts) = (if ok then failures ts else name # failures ts)"
  by (simp_all add: failures_def)

lemmas test_defs = unwrap_and_def unwrap_err_is_def base_cli_def base_env_def Let_def
  resolve_config_def InviteLimits_new_def Limits_new_def ResourceControls_new_def
  ResourceControls_new_with_route_idle_ttl_ms_def retention_ttl_or_error_def pull_lease_or_error_def
  limit_or_error_def push_rate_refill_or_cap_def default_defs ceiling_defs

lemma precedence_tests:
  "cli_overrides_env" "env_overrides_defaults" "store_defaults_apply_when_unset"
  "default_bind_is_loopback" "explicit_public_bind_is_opt_in" "env_bind_can_enable_public_bind"
  "deprecated_route_idle_ttl_is_flagged_not_fatal"
  by (simp_all add: cli_overrides_env_def env_overrides_defaults_def store_defaults_apply_when_unset_def
      default_bind_is_loopback_def explicit_public_bind_is_opt_in_def env_bind_can_enable_public_bind_def
      deprecated_route_idle_ttl_is_flagged_not_fatal_def test_defs)

lemma refusal_tests:
  "missing_store_path_fails_closed" "zero_retention_or_lease_fails_closed"
  "retention_and_lease_are_capped" "limits_are_capped" "zero_limits_are_rejected"
  by (simp_all add: missing_store_path_fails_closed_def zero_retention_or_lease_fails_closed_def
      retention_and_lease_are_capped_def limits_are_capped_def zero_limits_are_rejected_def test_defs)

lemma parser_tests: "invalid_port_env_is_rejected env" "invalid_size_env_is_rejected env"
proof -
  have "parse_unsigned mx ''not-a-port'' = None" "parse_unsigned mx ''not-a-size'' = None"
    "\<not> blank ''not-a-port''" "\<not> blank ''not-a-size''" for mx
    by (simp_all add: parse_unsigned_def) (code_simp+)
  then show "invalid_port_env_is_rejected env" "invalid_size_env_is_rejected env"
    by (simp_all add: invalid_port_env_is_rejected_def invalid_size_env_is_rejected_def unwrap_err_is_def
        env_u16_def env_usize_def env_opt_def parse_usize_def)
qed

lemma cli_tests_pass: "failures (cli_tests env) = []"
  by (simp add: cli_tests_def precedence_tests refusal_tests parser_tests)

end
