(* ===== verification/Tests_Relay.thy ===== *)
theory Tests_Relay imports Tenants Tests_Startup begin

text \<open>
  The unit tests of the HTTP surface in \<open>src/lib.rs\<close> (\<open>mod tests\<close>), one definition per test
  function: a server is spawned by \<open>AppState::new_with_auth\<close>, the requests of the test are
  served one after the other, and the assertions are read off the responses. What a test finds
  outside the repository is its world: the process environment, the digest function, the JSON
  parsers, and for the n-th request the clocks, the UUID and the failures of SQLite. The model
  passes the tests in every quiet world: no failures, a UUID that is not the empty text, and a
  wall clock that stays within the retention.
\<close>

subsection \<open>Worlds, servers and requests\<close>

record world =
  w_env :: environ
  w_sha :: digest_fun
  w_parsers :: parsers
  w_faults :: faults
  w_start :: nat
  w_amb :: "nat \<Rightarrow> ambient"

definition spawn_server_with_token :: "world \<Rightarrow> Limits \<Rightarrow> string option \<Rightarrow> AppState option" where
  "spawn_server_with_token W lim token =
     AppState_new_with_auth (w_env W) lim token (w_faults W) (w_start W)"

definition spawn_server :: "world \<Rightarrow> Limits \<Rightarrow> AppState option" where
  "spawn_server W lim = spawn_server_with_token W lim None"

text \<open>The body of a test on a spawned server; a panic of the constructor fails it.\<close>

definition on_server :: "AppState option \<Rightarrow> (AppState \<Rightarrow> bool) \<Rightarrow> bool" where
  "on_server srv test = (case srv of Some st \<Rightarrow> test st | None \<Rightarrow> False)"

text \<open>Request headers; header names are in lower case, as the \<open>http\<close> crate keeps them.\<close>

definition route_header :: "string \<Rightarrow> headers" where
  "route_header token = [ROUTE_TOKEN_HEADER \<mapsto> Some token]"

definition with_bearer :: "string \<Rightarrow> headers \<Rightarrow> headers" where
  "with_bearer token h = h(''authorization'' \<mapsto> Some (''Bearer '' @ token))"

text \<open>The n-th request of a test: the response and the server after it.\<close>

definition send :: "world \<Rightarrow> nat \<Rightarrow> request \<Rightarrow> AppState \<Rightarrow> response \<times> AppState" where
  "send W n req st = (case serve (w_sha W) (w_parsers W) (w_amb W n) req st of (r, _, st') \<Rightarrow> (r, st'))"

definition post_push :: "world \<Rightarrow> nat \<Rightarrow> headers \<Rightarrow> bytes \<Rightarrow> AppState \<Rightarrow> response \<times> AppState" where
  "post_push W n h data = send W n (PushReq h data)"

definition get_pull :: "world \<Rightarrow> nat \<Rightarrow> headers \<Rightarrow> nat \<Rightarrow> AppState \<Rightarrow> response \<times> AppState" where
  "get_pull W n h mx = send W n (PullReq h \<lparr>query_max = Some mx, query_ack = None\<rparr>)"

definition canonical_push :: "world \<Rightarrow> nat \<Rightarrow> string \<Rightarrow> bytes \<Rightarrow> AppState \<Rightarrow> response \<times> AppState" where
  "canonical_push W n token data = post_push W n (route_header token) data"

definition canonical_pull :: "world \<Rightarrow> nat \<Rightarrow> string \<Rightarrow> nat \<Rightarrow> AppState \<Rightarrow> response \<times> AppState" where
  "canonical_pull W n token mx = get_pull W n (route_header token) mx"

text \<open>A text body, and the items of a JSON body; anything else fails the assertions on it.\<close>

definition text_is :: "response \<Rightarrow> string \<Rightarrow> bool" where
  "text_is r s = (case reply_payload r of Code code \<Rightarrow> code = s | _ \<Rightarrow> False)"

definition json_items :: "response \<Rightarrow> (StoredMsg list \<Rightarrow> bool) \<Rightarrow> bool" where
  "json_items r assertions = (case reply_payload r of PullResp items \<Rightarrow> assertions items | _ \<Rightarrow> False)"

definition test_limits :: "nat \<Rightarrow> nat \<Rightarrow> Limits" where
  "test_limits bytes_max depth_max = \<lparr>max_body_bytes = bytes_max, max_queue_depth = depth_max\<rparr>"

subsection \<open>Push and pull\<close>

definition push_then_pull_roundtrip :: "world \<Rightarrow> bool" where
  "push_then_pull_roundtrip W \<longleftrightarrow>
     on_server (spawn_server W (test_limits (1024 * 1024) 8)) (\<lambda>st.
       let payload = as_bytes ''opaque-bytes'';
           (push, st) = canonical_push W 0 ''test'' payload st;
           (pull, st) = canonical_pull W 1 ''test'' 1 st
       in reply_status push = 200 \<and> reply_status pull = 200 \<and>
          json_items pull (\<lambda>items.
            length items = 1 \<and> fst (items ! 0) \<noteq> [] \<and> snd (items ! 0) = payload))"

definition pull_empty_returns_204 :: "world \<Rightarrow> bool" where
  "pull_empty_returns_204 W \<longleftrightarrow>
     on_server (spawn_server W (test_limits (1024 * 1024) 8)) (\<lambda>st.
       let (pull, st) = canonical_pull W 0 ''empty'' 1 st in reply_status pull = 204)"

definition oversize_returns_413 :: "world \<Rightarrow> bool" where
  "oversize_returns_413 W \<longleftrightarrow>
     on_server (spawn_server W (test_limits 4 8)) (\<lambda>st.
       let (push, st) = canonical_push W 0 ''oversize'' (replicate 5 0) st;
           (pull, st) = canonical_pull W 1 ''oversize'' 1 st
       in reply_status push = 413 \<and> text_is push ''ERR_TOO_LARGE'' \<and> reply_status pull = 204)"

definition queue_full_returns_429 :: "world \<Rightarrow> bool" where
  "queue_full_returns_429 W \<longleftrightarrow>
     on_server (spawn_server W (test_limits (1024 * 1024) 1)) (\<lambda>st.
       let (r1, st) = canonical_push W 0 ''qfull'' (as_bytes ''a'') st;
           (r2, st) = canonical_push W 1 ''qfull'' (as_bytes ''b'') st;
           (pull1, st) = canonical_pull W 2 ''qfull'' 1 st;
           (pull2, st) = canonical_pull W 3 ''qfull'' 1 st
       in reply_status r1 = 200 \<and> reply_status r2 = 429 \<and> text_is r2 ''ERR_OVERLOADED'' \<and>
          reply_status pull1 = 200 \<and>
          json_items pull1 (\<lambda>items. length items = 1 \<and> fst (items ! 0) \<noteq> []) \<and>
          reply_status pull2 = 204)"

definition pull_deletes_on_deliver :: "world \<Rightarrow> bool" where
  "pull_deletes_on_deliver W \<longleftrightarrow>
     on_server (spawn_server W (test_limits (1024 * 1024) 8)) (\<lambda>st.
       let (_, st) = canonical_push W 0 ''two'' (as_bytes ''a'') st;
           (_, st) = canonical_push W 1 ''two'' (as_bytes ''b'') st;
           (pull1, st) = canonical_pull W 2 ''two'' 1 st;
           (pull2, st) = canonical_pull W 3 ''two'' 2 st;
           (pull3, st) = canonical_pull W 4 ''two'' 1 st
       in reply_status pull1 = 200 \<and> json_items pull1 (\<lambda>items. length items = 1) \<and>
          reply_status pull2 = 200 \<and>
          json_items pull2 (\<lambda>items. length items = 1 \<and> fst (items ! 0) \<noteq> []) \<and>
          reply_status pull3 = 204)"

definition channel_log_id_is_deterministic_and_redacted :: bool where
  "channel_log_id_is_deterministic_and_redacted \<longleftrightarrow>
     (let raw = ''alice-route-token-123''; id1 = channel_log_id raw; id2 = channel_log_id raw
      in id1 = id2 \<and> length id1 = 16 \<and> id1 \<noteq> raw)"

subsection \<open>The bearer gate\<close>

definition auth_disabled_allows_push_pull :: "world \<Rightarrow> bool" where
  "auth_disabled_allows_push_pull W \<longleftrightarrow>
     on_server (spawn_server_with_token W (test_limits (1024 * 1024) 8) None) (\<lambda>st.
       let payload = as_bytes ''auth-disabled'';
           (push, st) = canonical_push W 0 ''open'' payload st;
           (pull, st) = canonical_pull W 1 ''open'' 1 st
       in reply_status push = 200 \<and> reply_status pull = 200 \<and>
          json_items pull (\<lambda>items. length items = 1 \<and> snd (items ! 0) = payload))"

definition auth_enabled_missing_token_401_no_mutation :: "world \<Rightarrow> bool" where
  "auth_enabled_missing_token_401_no_mutation W \<longleftrightarrow>
     on_server (spawn_server_with_token W (test_limits (1024 * 1024) 8) (Some ''topsecret'')) (\<lambda>st.
       let (push, st) = post_push W 0 (route_header ''auth'') (as_bytes ''x'') st;
           (pull, st) = get_pull W 1 (route_header ''auth'') 1 st;
           (pull_ok, st) = get_pull W 2 (with_bearer ''topsecret'' (route_header ''auth'')) 1 st
       in reply_status push = 401 \<and> text_is push ''ERR_UNAUTHORIZED'' \<and>
          reply_status pull = 401 \<and> text_is pull ''ERR_UNAUTHORIZED'' \<and>
          reply_status pull_ok = 204)"

definition auth_enabled_wrong_token_401_no_mutation :: "world \<Rightarrow> bool" where
  "auth_enabled_wrong_token_401_no_mutation W \<longleftrightarrow>
     on_server (spawn_server_with_token W (test_limits (1024 * 1024) 8) (Some ''topsecret'')) (\<lambda>st.
       let (push, st) = post_push W 0 (with_bearer ''wrong'' (route_header ''auth'')) (as_bytes ''x'') st;
           (pull_ok, st) = get_pull W 1 (with_bearer ''topsecret'' (route_header ''auth'')) 1 st
       in reply_status push = 401 \<and> text_is push ''ERR_UNAUTHORIZED'' \<and> reply_status pull_ok = 204)"

definition auth_enabled_wrong_token_same_length_401_no_mutation :: "world \<Rightarrow> bool" where
  "auth_enabled_wrong_token_same_length_401_no_mutation W \<longleftrightarrow>
     on_server (spawn_server_with_token W (test_limits (1024 * 1024) 8) (Some ''topsecret'')) (\<lambda>st.
       let (push, st) = post_push W 0 (with_bearer ''topsecreX'' (route_header ''auth'')) (as_bytes ''x'') st;
           (pull_ok, st) = get_pull W 1 (with_bearer ''topsecret'' (route_header ''auth'')) 1 st
       in reply_status push = 401 \<and> text_is push ''ERR_UNAUTHORIZED'' \<and> reply_status pull_ok = 204)"

definition auth_enabled_correct_token_allows_roundtrip :: "world \<Rightarrow> bool" where
  "auth_enabled_correct_token_allows_roundtrip W \<longleftrightarrow>
     on_server (spawn_server_with_token W (test_limits (1024 * 1024) 8) (Some ''topsecret'')) (\<lambda>st.
       let payload = as_bytes ''auth-enabled'';
           h = with_bearer ''topsecret'' (route_header ''authok'');
           (push, st) = post_push W 0 h payload st;
           (pull, st) = get_pull W 1 h 1 st
       in reply_status push = 200 \<and> reply_status pull = 200 \<and>
          json_items pull (\<lambda>items. length items = 1 \<and> snd (items ! 0) = payload))"

definition http_tests :: "world \<Rightarrow> (string \<times> bool) list" where
  "http_tests W =
     [(''push_then_pull_roundtrip'', push_then_pull_roundtrip W),
      (''pull_empty_returns_204'', pull_empty_returns_204 W),
      (''oversize_returns_413'', oversize_returns_413 W),
      (''queue_full_returns_429'', queue_full_returns_429 W),
      (''pull_deletes_on_deliver'', pull_deletes_on_deliver W),
      (''channel_log_id_is_deterministic_and_redacted'', channel_log_id_is_deterministic_and_redacted),
      (''auth_disabled_allows_push_pull'', auth_disabled_allows_push_pull W),
      (''auth_enabled_missing_token_401_no_mutation'', auth_enabled_missing_token_401_no_mutation W),
      (''auth_enabled_wrong_token_401_no_mutation'', auth_enabled_wrong_token_401_no_mutation W),
      (''auth_enabled_wrong_token_same_length_401_no_mutation'',
        auth_enabled_wrong_token_same_length_401_no_mutation W),
      (''auth_enabled_correct_token_allows_roundtrip'', auth_enabled_correct_token_allows_roundtrip W)]"

subsection \<open>Quiet worlds\<close>

text \<open>The two wrong tokens of the tests must not collide with the right one under the digest.\<close>

definition quiet :: "world \<Rightarrow> bool" where
  "quiet W \<longleftrightarrow>
     w_faults W = [] \<and> digest32 (w_sha W) \<and>
     w_sha W (as_bytes ''wrong'') \<noteq> w_sha W (as_bytes ''topsecret'') \<and>
     w_sha W (as_bytes ''topsecreX'') \<noteq> w_sha W (as_bytes ''topsecret'') \<and>
     (\<forall>n. faults1 (w_amb W n) = [] \<and> faults2 (w_amb W n) = [] \<and> uuid_text (w_amb W n) \<noteq> []) \<and>
     (\<forall>m n. now_unix_secs (w_amb W m) < now_unix_secs (w_amb W n) + int RETENTION_TTL_SECS_DEFAULT)"

subsection \<open>How far the sequence counter moves\<close>

lemma last_seq_frames [simp]:
  "last_seq (swept ttl now d) = last_seq d"
  "last_seq (accepted key lid mid data now d) = Suc (last_seq d)"
  "last_seq (legacy_delivered k now ms d) = last_seq d"
  "last_seq (lease_delivered k now dl ms d) = last_seq d"
  by (simp_all add: swept_def drop_expired_invites_def drop_idle_routes_def drop_expired_def
      accepted_def append_message_def add_route_def burn_ticket_def touch_def map_invites_def legacy_delivered_def
      lease_delivered_def Let_def drop_route_def drop_seqs_def lease_seqs_def)

lemma push_seq:
  assumes "db_ok d" and "last_seq d < 2 ^ 63 - 1" and "faults1 amb = []" "faults2 amb = []"
  shows "last_seq (tables (store (snd (act (push_message sha amb h data) (put d b c st))))) \<le> Suc (last_seq d)"
  using assms(3,4) assms(2)
  by (cases "resolve_route_token h")
     (auto simp: push_message_def push_admit_def act_simps act_push_status [OF assms(1,3)]
        act_push_gate act_push_enqueue Let_def capacity_refusal_def push_answer_def
        drop_bucket_put split: prod.split option.split)

definition keeps_seq :: "'a handler \<Rightarrow> bool" where
  "keeps_seq m \<longleftrightarrow> (\<forall>st. last_seq (tables (store (snd (snd (m st))))) = last_seq (tables (store st)))"

lemma keeps_seq_bind: "keeps_seq m \<Longrightarrow> (\<And>x. keeps_seq (f x)) \<Longrightarrow> keeps_seq (h_bind m f)"
  unfolding keeps_seq_def h_bind_def by (auto split: prod.split sum.split) (metis snd_conv)+

lemma keeps_seq_basic:
  "keeps_seq (h_return x)" "keeps_seq (h_reply n p)" "keeps_seq (h_get g)" "keeps_seq (h_guard t n code)"
  "keeps_seq (h_prune stats)" "keeps_seq (h_drop_bucket k)" "keeps_seq (h_auth sha h)"
  "keeps_seq (h_route_token h)" "keeps_seq (pull_answer_items lid items)"
  by (auto simp: keeps_seq_def h_run h_guard_def h_prune_def h_drop_bucket_def h_auth_def h_bind_def
      h_route_token_def pull_answer_items_def drop_rate_bucket_def update_buckets_def
      log_and_prune_sweep_def split: prod.split sum.split option.split)

lemma keeps_seq_pull_store:
  assumes "faults1 amb = []"
  shows "keeps_seq (pull_store amb k mx mode)"
  using assms
  by (cases mode)
     (auto simp: keeps_seq_def pull_store_def h_bind_def h_run h_store_def run_store_def store_pull_def
        store_tx_def lock_def pull_legacy_run pull_lease_run Let_def split: prod.split sum.split option.split)

lemma keeps_seq_pull:
  assumes "faults1 amb = []"
  shows "keeps_seq (pull_message sha amb h q)"
  unfolding pull_message_def pull_admit_def Let_def
  by (intro keeps_seq_bind keeps_seq_basic keeps_seq_pull_store [OF assms])
     (auto intro!: keeps_seq_bind keeps_seq_basic keeps_seq_pull_store [OF assms] split: prod.split option.split)

subsection \<open>A server with one channel\<close>

text \<open>The entry left by a push of \<open>data\<close> in the n-th request, and a server whose one channel
  holds the given pushes after at most \<open>n\<close> accepted ones.\<close>

definition left_by :: "world \<Rightarrow> nat \<times> bytes \<Rightarrow> entry" where
  "left_by W = (\<lambda>(i, data). \<lparr>e_id = uuid_text (w_amb W i), e_body = data,
     e_time = now_unix_secs (w_amb W i), e_lease = None\<rparr>)"

definition up :: "world \<Rightarrow> Limits \<Rightarrow> string option \<Rightarrow> string \<Rightarrow> (nat \<times> bytes) list \<Rightarrow> nat \<Rightarrow> AppState \<Rightarrow> bool" where
  "up W lim token channel ps n st \<longleftrightarrow>
     app_reachable st \<and> last_seq (tables (store st)) \<le> n \<and>
     app_limits st = lim \<and> app_controls st = ResourceControls_default \<and> relay_token st = token \<and>
     st_retention_ttl_secs (store st) = int RETENTION_TTL_SECS_DEFAULT \<and>
     boxes (relay_of (tables (store st))) =
       (\<lambda>_. [])(route_key_for (w_sha W) channel := map (left_by W) ps) \<and>
     slots (relay_of (tables (store st))) = (\<lambda>_. None) \<and>
     (\<forall>b. inner (push_rates st) (route_key_for (w_sha W) channel) = Some b \<longrightarrow>
        push_rate_burst ResourceControls_default \<le> tokens b + n)"

lemma left_by_simps [simp]:
  "e_id (left_by W p) = uuid_text (w_amb W (fst p))" "e_body (left_by W p) = snd p"
  "e_available now (left_by W p)"
  by (cases p; simp add: left_by_def e_available_def)+

lemma left_by_fresh:
  assumes "quiet W"
  shows "\<not> e_expired (int RETENTION_TTL_SECS_DEFAULT) (now_unix_secs (w_amb W i)) (left_by W p)"
proof -
  have "now_unix_secs (w_amb W i) < now_unix_secs (w_amb W (fst p)) + int RETENTION_TTL_SECS_DEFAULT"
    using assms unfolding quiet_def by blast
  then show ?thesis by (cases p) (simp add: e_expired_def left_by_def)
qed

lemma sweep_quiet:
  assumes "quiet W" and "boxes B = (\<lambda>_. [])(k := map (left_by W) ps)" and "slots B = (\<lambda>_. None)"
  shows "spec_sweep (int RETENTION_TTL_SECS_DEFAULT) (now_unix_secs (w_amb W i)) B = B"
  using assms(2,3) left_by_fresh [OF assms(1)]
  by (intro relay.equality) (auto simp: spec_sweep_def fun_eq_iff filter_id_conv)

lemma becomes_same: "becomes (srv_relay V) V = V"
  by (cases V) (simp add: becomes_def forget_def)

lemma consume_paid:
  assumes "0 < tokens b" and "push_rate_burst ctl \<le> usize_max"
  shows "\<exists>b'. try_consume ctl t b = (True, b') \<and> tokens b \<le> Suc (tokens b')"
  using assms
  by (auto simp: try_consume_def bucket_refill_def Let_def usize_sat_add_def)

lemma one_box:
  assumes "boxes B = (\<lambda>_. [])(k := es)"
  shows "live_boxes B = (if es = [] then 0 else 1)"
proof -
  have "{j. boxes B j \<noteq> []} = (if es = [] then {} else {k})" by (auto simp: assms)
  then show ?thesis by (simp add: live_boxes_def)
qed

lemma up_spec:
  assumes "quiet W" and "up W lim token channel ps n st" and "n < 100" and "send W i req st = (r, st')"
  shows "spec_serve (settings_of st) (w_sha W) (w_parsers W) (w_amb W i) req (service_of st) = (r, service_of st')"
    and "app_reachable st'" and "config_of st' = config_of st"
proof -
  obtain l where run: "serve (w_sha W) (w_parsers W) (w_amb W i) req st = (r, l, st')"
    using assms(4) by (auto simp: send_def split: prod.splits)
  have st: "app_reachable st" "last_seq (tables (store st)) < 2 ^ 63 - 1"
    using assms(2,3) by (simp_all add: up_def)
  have f: "faults1 (w_amb W i) = []" "faults2 (w_amb W i) = []" using assms(1) by (simp_all add: quiet_def)
  show "spec_serve (settings_of st) (w_sha W) (w_parsers W) (w_amb W i) req (service_of st) = (r, service_of st')"
    using serve_spec [OF st f, of "w_sha W" "w_parsers W" req] run by simp
  show "app_reachable st'" "config_of st' = config_of st" by (rule serve_reachable [OF st(1) run])+
qed

lemma default_controls [simp]:
  "push_rate_burst ResourceControls_default = 257" "max_route_count ResourceControls_default = 256"
  by (simp_all add: ResourceControls_default_def ceiling_defs)

lemma up_parts:
  assumes "quiet W" and "up W lim token channel ps n st"
  defines "k \<equiv> route_key_for (w_sha W) channel"
  shows "spec_sweep (set_ttl (settings_of st)) (now_unix_secs (w_amb W i)) (srv_relay (service_of st)) =
      srv_relay (service_of st)"
    and "boxes (srv_relay (service_of st)) = (\<lambda>_. [])(k := map (left_by W) ps)"
    and "slots (srv_relay (service_of st)) = (\<lambda>_. None)"
    and "set_token (settings_of st) = token" "set_limits (settings_of st) = lim"
    and "set_controls (settings_of st) = ResourceControls_default"
  using assms(2) sweep_quiet [OF assms(1), of "srv_relay (service_of st)" k ps i]
  by (simp_all add: up_def service_of_def settings_of_def k_def)

lemma send_seq:
  assumes "quiet W" and "up W lim token channel ps n st" and "n < 100"
  shows "send W i (PushReq h data) st = (r, st') \<Longrightarrow> last_seq (tables (store st')) \<le> Suc n"
    and "send W i (PullReq h q) st = (r, st') \<Longrightarrow> last_seq (tables (store st')) \<le> n"
proof -
  have seq: "last_seq (tables (store st)) \<le> n" "last_seq (tables (store st)) < 2 ^ 63 - 1"
    using assms(2,3) by (simp_all add: up_def)
  have ok: "app_ok st" using assms(2) app_reachable_ok by (simp add: up_def)
  have db: "db_ok (tables (store st))" using ok by (simp add: app_ok_def store_wf_def)
  have f: "faults1 (w_amb W i) = []" "faults2 (w_amb W i) = []" using assms(1) by (simp_all add: quiet_def)
  have run: "snd (send W i req st) = snd (act (app (w_sha W) (w_parsers W) (w_amb W i) req) st)" for req
    using serve_act [of "w_sha W" "w_parsers W" "w_amb W i" req st]
    by (cases "act (app (w_sha W) (w_parsers W) (w_amb W i) req) st") (auto simp: send_def split: prod.split)
  show "last_seq (tables (store st')) \<le> Suc n" if "send W i (PushReq h data) st = (r, st')"
    using push_seq [OF db seq(2) f, of "w_sha W" h data "inner (push_rates st)" "inner (invite_create_rate st)" st]
      run [of "PushReq h data"] that seq(1)
    by (simp add: app_def put_self [OF ok])
  show "last_seq (tables (store st')) \<le> n" if "send W i (PullReq h q) st = (r, st')"
    using keeps_seq_pull [OF f(1), of "w_sha W" h q] run [of "PullReq h q"] that seq(1)
    by (simp add: app_def keeps_seq_def act_def)
qed

text \<open>The server after a request whose specification leaves the service \<open>V'\<close>.\<close>

lemma up_next:
  assumes "quiet W" and "up W lim token channel ps n st" and "n < 100" and "send W i req st = (r, st')"
    and "spec_serve (settings_of st) (w_sha W) (w_parsers W) (w_amb W i) req (service_of st) = (a, V')"
    and "last_seq (tables (store st')) \<le> m"
    and "boxes (srv_relay V') = (\<lambda>_. [])(route_key_for (w_sha W) channel := map (left_by W) ps')"
    and "slots (srv_relay V') = (\<lambda>_. None)"
    and "\<And>b. srv_buckets V' (route_key_for (w_sha W) channel) = Some b \<Longrightarrow> 257 \<le> tokens b + m"
  shows "r = a \<and> up W lim token channel ps' m st'"
proof -
  note s = up_spec [OF assms(1-4)]
  have "r = a" "service_of st' = V'" using s(1) assms(5) by simp_all
  then show ?thesis
    using assms(2,6-9) s(2,3) unfolding up_def config_of_def service_of_def by auto
qed

subsection \<open>Requests\<close>

lemma push_refused:
  assumes "quiet W" and "up W lim token channel ps n st" and "n < 100"
    and "spec_push (settings_of st) (w_sha W) (w_amb W i) h data (service_of st) = (a, service_of st)"
    and "post_push W i h data st = (r, st')"
  shows "r = a \<and> up W lim token channel ps (Suc n) st'"
proof (rule up_next [OF assms(1-3)])
  show "send W i (PushReq h data) st = (r, st')" using assms(5) by (simp add: post_push_def)
  then show "last_seq (tables (store st')) \<le> Suc n" by (rule send_seq(1) [OF assms(1-3)])
qed (use assms(2,4) in \<open>auto simp: spec_serve_def up_def service_of_def\<close>)

lemma push_unauthorized:
  assumes "quiet W" and "up W lim token channel ps n st" and "n < 100"
    and "\<not> auth_ok (w_sha W) h token" and "post_push W i h data st = (r, st')"
  shows "r = Reply 401 (Code ''ERR_UNAUTHORIZED'') \<and> up W lim token channel ps (Suc n) st'"
  by (rule push_refused [OF assms(1-3) _ assms(5)])
     (use assms(2,4) in \<open>simp add: spec_push_def spec_routed_def refuse_def settings_of_def up_def\<close>)

lemma push_too_large:
  assumes "quiet W" and "up W lim token channel ps n st" and "n < 100"
    and "auth_ok (w_sha W) h token" and "resolve_route_token h = Inr channel"
    and "max_body_bytes lim < length data" and "post_push W i h data st = (r, st')"
  shows "r = Reply 413 (Code ''ERR_TOO_LARGE'') \<and> up W lim token channel ps (Suc n) st'"
  by (rule push_refused [OF assms(1-3) _ assms(7)])
     (use assms(2,4-6) in \<open>auto simp: spec_push_def spec_routed_def refuse_def settings_of_def up_def\<close>)

lemma push_overloaded:
  assumes "quiet W" and "up W lim token channel ps n st" and "n < 100"
    and "auth_ok (w_sha W) h token" and "resolve_route_token h = Inr channel"
    and "data \<noteq> []" and "length data \<le> max_body_bytes lim" and "ps \<noteq> []"
    and "max_queue_depth lim \<le> length ps" and "post_push W i h data st = (r, st')"
  shows "r = Reply 429 (Code ''ERR_OVERLOADED'') \<and> up W lim token channel ps (Suc n) st'"
  by (rule push_refused [OF assms(1-3) _ assms(10)])
     (use assms(4-9) up_parts [OF assms(1,2)] in
      \<open>simp add: spec_push_def spec_routed_def refuse_def becomes_same Let_def\<close>)

lemma push_queues:
  assumes "quiet W" and "up W lim token channel ps n st" and "n < 100"
    and "auth_ok (w_sha W) h token" and "resolve_route_token h = Inr channel"
    and "header_str h ''x-msg-id'' = None"
    and "data \<noteq> []" and "length data \<le> max_body_bytes lim" and "length ps < max_queue_depth lim"
    and "post_push W i h data st = (r, st')"
  shows "r = Reply 200 (PostResp (uuid_text (w_amb W i))) \<and>
    up W lim token channel (ps @ [(i, data)]) (Suc n) st'"
proof -
  let ?k = "route_key_for (w_sha W) channel" and ?amb = "w_amb W i"
  let ?V = "service_of st"
  note parts = up_parts [OF assms(1,2)]
  define b where "b = unwrap_or (srv_buckets ?V ?k) (bucket_new (mono_ns ?amb) ResourceControls_default)"
  have paid: "257 \<le> tokens b + n"
    using assms(2)
    by (cases "srv_buckets ?V ?k") (simp_all add: b_def bucket_new_def up_def service_of_def)
  obtain b' where b': "try_consume ResourceControls_default (mono_ns ?amb) b = (True, b')" "tokens b \<le> Suc (tokens b')"
    using consume_paid [of b ResourceControls_default "mono_ns ?amb"] paid assms(3)
    by (auto simp: usize_max_def)
  have mid: "push_msg_id ?amb h = uuid_text ?amb" using assms(6) by (simp add: push_msg_id_def)
  have room: "length ps = 0 \<or> length ps < max_queue_depth lim" "live_boxes (srv_relay ?V) \<le> 1"
    using assms(9) one_box [OF parts(2)] by simp_all
  show ?thesis
  proof (rule up_next [OF assms(1-3)])
    show send: "send W i (PushReq h data) st = (r, st')" using assms(10) by (simp add: post_push_def)
    show "last_seq (tables (store st')) \<le> Suc n" by (rule send_seq(1) [OF assms(1-3) send])
    show "spec_serve (settings_of st) (w_sha W) (w_parsers W) ?amb (PushReq h data) ?V =
      (Reply 200 (PostResp (uuid_text ?amb)),
       ?V\<lparr>srv_buckets := (srv_buckets ?V)(?k \<mapsto> b'),
         srv_relay := spec_accept ?k (uuid_text ?amb) data (now_unix_secs ?amb) (srv_relay ?V)\<rparr>)"
      using assms(4,5,7-9) parts b' room
      by (auto simp: spec_serve_def spec_push_def spec_routed_def Let_def becomes_same b_def [symmetric]
          slot_denial_def mid)
  qed (use parts b' paid in \<open>auto simp: spec_accept_def left_by_def\<close>)
qed

lemma pull_count_all: "sum_list ns \<le> max_bytes \<Longrightarrow> pull_count max_bytes ns = length ns"
  by (cases ns) (simp_all add: budget_all)

lemma drop_available_all: "(\<forall>e \<in> set es. e_available now e) \<Longrightarrow> drop_available now m es = drop m es"
  by (induction now m es rule: drop_available.induct) auto

definition items_of :: "world \<Rightarrow> (nat \<times> bytes) list \<Rightarrow> StoredMsg list" where
  "items_of W ps = map (\<lambda>p. (uuid_text (w_amb W (fst p)), snd p)) ps"

lemma sum_list_take: "sum_list (take m ns) \<le> sum_list (ns :: nat list)"
  by (metis append_take_drop_id le_add1 sum_list_append)

lemma spec_pull_quiet:
  assumes "quiet W" and "boxes B = (\<lambda>_. [])(k := map (left_by W) ps)" and "slots B = (\<lambda>_. None)"
    and "sum_list (map (length \<circ> snd) ps) \<le> mb"
  shows "\<exists>out. spec_pull (int RETENTION_TTL_SECS_DEFAULT) ls k mx mb (now_unix_secs (w_amb W i)) Legacy B =
      (out, B\<lparr>boxes := (\<lambda>_. [])(k := map (left_by W) (drop mx ps))\<rparr>) \<and>
    pull_items out = items_of W (take mx ps)"
proof -
  let ?now = "now_unix_secs (w_amb W i)"
  have cand: "candidates ?now mx (map (left_by W) ps) = map (left_by W) (take mx ps)"
    by (simp add: candidates_def take_map filter_id_conv comp_def)
  have "sum_list (map (length \<circ> snd) (take mx ps)) \<le> mb"
    using assms(4) sum_list_take [of mx "map (length \<circ> snd) ps"] by (simp add: take_map)
  then have count: "spec_count ?now mx mb (map (left_by W) ps) = length (take mx ps)"
    using pull_count_all [of "map (\<lambda>p. length (snd p)) (take mx ps)" mb]
    by (simp add: spec_count_def cand comp_def)
  have "spec_items ?now mx mb (map (left_by W) ps) = items_of W (take mx ps)"
    unfolding spec_items_def count by (simp add: cand items_of_def)
  moreover have "drop_available ?now (length (take mx ps)) (map (left_by W) ps) = map (left_by W) (drop mx ps)"
    by (subst drop_available_all) (auto simp: drop_map min_def)
  ultimately show ?thesis
    using sweep_quiet [OF assms(1-3)] assms(2) count
    by (auto simp: spec_pull_def Let_def fun_eq_iff)
qed

lemma pull_unauthorized:
  assumes "quiet W" and "up W lim token channel ps n st" and "n < 100"
    and "\<not> auth_ok (w_sha W) h token" and "get_pull W i h mx st = (r, st')"
  shows "r = Reply 401 (Code ''ERR_UNAUTHORIZED'') \<and> up W lim token channel ps n st'"
proof (rule up_next [OF assms(1-3)])
  show "send W i (PullReq h \<lparr>query_max = Some mx, query_ack = None\<rparr>) st = (r, st')"
    using assms(5) by (simp add: get_pull_def)
  then show "last_seq (tables (store st')) \<le> n" by (rule send_seq(2) [OF assms(1-3)])
  show "spec_serve (settings_of st) (w_sha W) (w_parsers W) (w_amb W i)
      (PullReq h \<lparr>query_max = Some mx, query_ack = None\<rparr>) (service_of st) =
    (Reply 401 (Code ''ERR_UNAUTHORIZED''), service_of st)"
    using assms(2,4) by (simp add: spec_serve_def spec_pull_message_def spec_routed_def refuse_def settings_of_def up_def)
qed (use assms(2) in \<open>auto simp: up_def service_of_def\<close>)

lemma pull_takes:
  assumes "quiet W" and "up W lim token channel ps n st" and "n < 100"
    and "auth_ok (w_sha W) h token" and "resolve_route_token h = Inr channel"
    and "0 < mx" and "mx \<le> max_queue_depth lim"
    and "sum_list (map (length \<circ> snd) ps) \<le> PULL_BUDGET_BYTES"
    and "get_pull W i h mx st = (r, st')"
  shows "r = (if ps = [] then Reply 204 NoBody else Reply 200 (PullResp (items_of W (take mx ps)))) \<and>
    up W lim token channel (drop mx ps) n st'"
proof -
  let ?k = "route_key_for (w_sha W) channel" and ?V = "service_of st" and ?S = "settings_of st"
  let ?req = "PullReq h \<lparr>query_max = Some mx, query_ack = None\<rparr>"
  let ?B = "srv_relay ?V\<lparr>boxes := (\<lambda>_. [])(?k := map (left_by W) (drop mx ps))\<rparr>"
  note parts = up_parts [OF assms(1,2)]
  have ttl: "set_ttl ?S = int RETENTION_TTL_SECS_DEFAULT" using assms(2) by (simp add: up_def settings_of_def)
  obtain out where out: "spec_pull (set_ttl ?S) (set_lease ?S) ?k mx (max PULL_BUDGET_BYTES (max_body_bytes lim))
      (now_unix_secs (w_amb W i)) Legacy (srv_relay ?V) = (out, ?B)" "pull_items out = items_of W (take mx ps)"
    using spec_pull_quiet [OF assms(1) parts(2,3), where mb = "max PULL_BUDGET_BYTES (max_body_bytes lim)"
        and ls = "set_lease ?S" and mx = mx and i = i] assms(8) ttl
    by (metis max.coboundedI1)
  have empty: "items_of W (take mx ps) = [] \<longleftrightarrow> ps = []" using assms(6) by (simp add: items_of_def)
  show ?thesis
  proof (rule up_next [OF assms(1-3)])
    show send: "send W i ?req st = (r, st')" using assms(9) by (simp add: get_pull_def)
    show "last_seq (tables (store st')) \<le> n" by (rule send_seq(2) [OF assms(1-3) send])
    show "spec_serve ?S (w_sha W) (w_parsers W) (w_amb W i) ?req ?V =
      (if ps = [] then Reply 204 NoBody else Reply 200 (PullResp (items_of W (take mx ps))), becomes ?B ?V)"
      using assms(4-7) parts out empty
      by (auto simp: spec_serve_def spec_pull_message_def spec_routed_def min_absorb1)
  qed (use assms(2) in \<open>auto simp: becomes_def forget_def up_def service_of_def split: if_splits\<close>)
qed

subsection \<open>Spawning\<close>

lemma spawned:
  assumes "quiet W" and "limits_wf lim"
  obtains st where "spawn_server_with_token W lim token = Some st" "\<And>channel. up W lim token channel [] 0 st"
proof -
  obtain r f' where ro: "Store_open StoreConfig_default (Some empty_file) [] = (r, f')"
    by (cases "Store_open StoreConfig_default (Some empty_file) []")
  have "file_version (rows empty_file) = Some 2"
    by (simp add: file_version_def empty_file_def empty_db_def SCHEMA_VERSION_def)
  then obtain s where s: "r = Inr s"
    using open_guard [of StoreConfig_default empty_file] ro
    by (auto simp: SCHEMA_VERSION_def StoreConfig_default_def default_defs split: sum.splits)
  from ro obtain g where g: "data_of g = data_of empty_file" "s = \<lparr>conn = Mutex False (rows g),
      st_retention_ttl_secs = usize_as_i64 (min (cfg_retention_ttl_secs StoreConfig_default) MAX_RETENTION_TTL_SECS_CEILING),
      st_pull_lease_secs = usize_as_i64 (min (cfg_pull_lease_secs StoreConfig_default) MAX_PULL_LEASE_SECS_CEILING)\<rparr>"
    by (cases rule: open_cases) (simp_all add: s)
  have new: "AppState_new_full lim ResourceControls_default token StoreConfig_default
      (ServerInfoCfg_from_env (w_env W)) InviteLimits_default (Some empty_file) [] (w_start W) = Inr st \<Longrightarrow>
    spawn_server_with_token W lim token = Some st" for st
    using assms(1)
    by (simp add: quiet_def spawn_server_with_token_def AppState_new_with_auth_def
        AppState_new_with_auth_and_controls_def AppState_new_with_auth_controls_and_store_def
        AppState_new_with_auth_controls_store_and_info_def)
  have "retention_ttl_or_error (cfg_retention_ttl_secs StoreConfig_default) = Inr RETENTION_TTL_SECS_DEFAULT"
    by (simp add: retention_ttl_or_error_def StoreConfig_default_def default_defs ceiling_defs)
  then obtain st where st: "AppState_new_full lim ResourceControls_default token StoreConfig_default
      (ServerInfoCfg_from_env (w_env W)) InviteLimits_default (Some empty_file) [] (w_start W) = Inr st"
    and "store st = s" "push_rates st = Mutex False (\<lambda>_. None)" "relay_token st = token"
    by (simp add: AppState_new_full_def ro s)
  moreover have "db_ok (rows empty_file)" "capped (max_queue_depth lim) 256 256 (rows empty_file)"
    using db_ok_empty by (simp_all add: empty_file_def capped_def queue_def empty_db_def)
  moreover have "controls_wf ResourceControls_default"
    by (simp add: controls_wf_def ResourceControls_default_def ceiling_defs)
  moreover have "max_slots InviteLimits_default = 256" by (simp add: InviteLimits_default_def default_defs)
  ultimately have "app_reachable st"
    using app_reachable.started [OF st assms(2) _ InviteLimits_default_wf] by simp
  then have "up W lim token channel [] 0 st" for channel
    using g(1) new_full_ok(2,3) [OF st assms(2)] \<open>db_ok (rows empty_file)\<close>
      \<open>capped (max_queue_depth lim) 256 256 (rows empty_file)\<close> \<open>max_slots InviteLimits_default = 256\<close>
      \<open>store st = s\<close> \<open>push_rates st = _\<close> \<open>relay_token st = _\<close>
    by (simp add: up_def g(2) data_of_def empty_file_def empty_db_def StoreConfig_default_def ceiling_defs
        default_defs usize_as_i64_small relay_of_def queue_def find_invite_def fun_eq_iff)
  then show thesis using new [OF st] that by blast
qed

subsection \<open>The model passes\<close>

lemma test_headers [simp]:
  "resolve_route_token (with_bearer t h) = resolve_route_token h"
  "header_str (with_bearer t h) ''x-msg-id'' = header_str h ''x-msg-id''"
  "header_str (route_header channel) ''x-msg-id'' = None"
  "auth_ok sha h None" "\<not> auth_ok sha (route_header channel) (Some token)"
  "auth_ok sha (with_bearer t h) (Some token) = ct_eq_secret sha t token"
  "trim channel = channel \<Longrightarrow> channel \<noteq> [] \<Longrightarrow> resolve_route_token (route_header channel) = Inr channel"
  by (simp_all add: resolve_route_token_def auth_ok_def header_str_def with_bearer_def route_header_def
      ROUTE_TOKEN_HEADER_def Let_def)

lemma test_channels [simp]:
  "trim ''test'' = ''test''" "trim ''empty'' = ''empty''" "trim ''oversize'' = ''oversize''"
  "trim ''qfull'' = ''qfull''" "trim ''two'' = ''two''" "trim ''open'' = ''open''"
  "trim ''auth'' = ''auth''" "trim ''authok'' = ''authok''"
  by code_simp+

lemma test_limits_simps [simp]:
  "max_body_bytes (test_limits x y) = x" "max_queue_depth (test_limits x y) = y"
  "limits_wf (test_limits x y) \<longleftrightarrow> 1 \<le> x \<and> x \<le> 1048576 \<and> 1 \<le> y \<and> y \<le> 257"
  by (auto simp: test_limits_def limits_wf_def ceiling_defs)

lemma as_bytes_simps [simp]: "length (as_bytes s) = length s" "as_bytes s = [] \<longleftrightarrow> s = []"
  by (simp_all add: as_bytes_def)

lemma wrong_tokens:
  assumes "quiet W"
  shows "\<not> ct_eq_secret (w_sha W) ''wrong'' ''topsecret''" "\<not> ct_eq_secret (w_sha W) ''topsecreX'' ''topsecret''"
  using assms by (simp_all add: quiet_def ct_eq_secret_digests)

lemma budget_value [simp]: "PULL_BUDGET_BYTES = 16777216"
  by (simp add: PULL_BUDGET_BYTES_def FINISH_SCAN_BATCH_def ceiling_defs)

text \<open>One request of a test: what it answers, and the server after it.\<close>

lemma accepts:
  assumes "quiet W" and "up W lim token channel ps n st" and "n < 100"
    and "auth_ok (w_sha W) h token" and "resolve_route_token h = Inr channel"
    and "header_str h ''x-msg-id'' = None"
    and "data \<noteq> []" and "length data \<le> max_body_bytes lim" and "length ps < max_queue_depth lim"
  obtains st' where "post_push W i h data st = (Reply 200 (PostResp (uuid_text (w_amb W i))), st')"
    "up W lim token channel (ps @ [(i, data)]) (Suc n) st'"
  using push_queues [OF assms, of i] by (cases "post_push W i h data st") auto

lemma takes:
  assumes "quiet W" and "up W lim token channel ps n st" and "n < 100"
    and "auth_ok (w_sha W) h token" and "resolve_route_token h = Inr channel"
    and "0 < mx" and "mx \<le> max_queue_depth lim"
    and "sum_list (map (length \<circ> snd) ps) \<le> PULL_BUDGET_BYTES"
  obtains st' where "get_pull W i h mx st =
      (if ps = [] then Reply 204 NoBody else Reply 200 (PullResp (items_of W (take mx ps))), st')"
    "up W lim token channel (drop mx ps) n st'"
  using pull_takes [OF assms, of i] by (cases "get_pull W i h mx st") auto

lemmas test_simps = on_server_def canonical_push_def canonical_pull_def text_is_def json_items_def
  items_of_def Let_def

lemma uuid_texts [simp]: "quiet W \<Longrightarrow> uuid_text (w_amb W n) \<noteq> []"
  by (simp add: quiet_def)

lemma roundtrip_on:
  assumes "quiet W" and "data \<noteq> []" "length data \<le> 1048576"
    and "auth_ok (w_sha W) h token" "resolve_route_token h = Inr channel" "header_str h ''x-msg-id'' = None"
  obtains st st1 st2 where "spawn_server_with_token W (test_limits (1024 * 1024) 8) token = Some st"
    "post_push W 0 h data st = (Reply 200 (PostResp (uuid_text (w_amb W 0))), st1)"
    "get_pull W 1 h 1 st1 = (Reply 200 (PullResp [(uuid_text (w_amb W 0), data)]), st2)"
proof -
  obtain st where st: "spawn_server_with_token W (test_limits (1024 * 1024) 8) token = Some st"
    "up W (test_limits (1024 * 1024) 8) token channel [] 0 st"
    by (rule spawned [OF assms(1), of "test_limits (1024 * 1024) 8" token]) simp_all
  obtain st1 where st1: "post_push W 0 h data st = (Reply 200 (PostResp (uuid_text (w_amb W 0))), st1)"
    "up W (test_limits (1024 * 1024) 8) token channel [(0, data)] 1 st1"
    by (rule accepts [OF assms(1) st(2), of h data 0]) (simp_all add: assms)
  obtain st2 where "get_pull W 1 h 1 st1 = (Reply 200 (PullResp [(uuid_text (w_amb W 0), data)]), st2)"
    by (rule takes [OF assms(1) st1(2), of h 1 1]) (use assms in \<open>simp_all add: items_of_def\<close>)
  with st(1) st1(1) show thesis by (rule that)
qed

lemma roundtrip_tests:
  assumes "quiet W"
  shows "push_then_pull_roundtrip W" "auth_disabled_allows_push_pull W"
    "auth_enabled_correct_token_allows_roundtrip W"
proof -
  note r = roundtrip_on [OF assms]
  show "push_then_pull_roundtrip W"
    by (rule r [of "as_bytes ''opaque-bytes''" "route_header ''test''" None "''test''"])
       (use assms in \<open>simp_all add: push_then_pull_roundtrip_def spawn_server_def test_simps\<close>)
  show "auth_disabled_allows_push_pull W"
    by (rule r [of "as_bytes ''auth-disabled''" "route_header ''open''" None "''open''"])
       (use assms in \<open>simp_all add: auth_disabled_allows_push_pull_def test_simps\<close>)
  show "auth_enabled_correct_token_allows_roundtrip W"
    by (rule r [of "as_bytes ''auth-enabled''" "with_bearer ''topsecret'' (route_header ''authok'')"
          "Some ''topsecret''" "''authok''"])
       (use assms in \<open>simp_all add: auth_enabled_correct_token_allows_roundtrip_def test_simps\<close>)
qed

lemma empty_test:
  assumes "quiet W"
  shows "pull_empty_returns_204 W"
proof -
  obtain st where st: "spawn_server_with_token W (test_limits (1024 * 1024) 8) None = Some st"
    "up W (test_limits (1024 * 1024) 8) None ''empty'' [] 0 st"
    by (rule spawned [OF assms, of "test_limits (1024 * 1024) 8" None]) simp_all
  show ?thesis
    by (rule takes [OF assms st(2), of "route_header ''empty''" 1 0])
       (use st(1) in \<open>simp_all add: pull_empty_returns_204_def spawn_server_def test_simps\<close>)
qed

lemma oversize_test:
  assumes "quiet W"
  shows "oversize_returns_413 W"
proof -
  let ?h = "route_header ''oversize''" and ?data = "replicate 5 0 :: bytes"
  obtain st where st: "spawn_server_with_token W (test_limits 4 8) None = Some st"
    "up W (test_limits 4 8) None ''oversize'' [] 0 st"
    by (rule spawned [OF assms, of "test_limits 4 8" None]) simp_all
  obtain st1 where st1: "post_push W 0 ?h ?data st = (Reply 413 (Code ''ERR_TOO_LARGE''), st1)"
    "up W (test_limits 4 8) None ''oversize'' [] 1 st1"
    using push_too_large [OF assms st(2), of ?h ?data 0] by (cases "post_push W 0 ?h ?data st") simp
  show ?thesis
    by (rule takes [OF assms st1(2), of ?h 1 1])
       (use st(1) st1(1) in \<open>simp_all add: oversize_returns_413_def spawn_server_def test_simps\<close>)
qed

lemma full_test:
  assumes "quiet W"
  shows "queue_full_returns_429 W"
proof -
  let ?h = "route_header ''qfull''" and ?lim = "test_limits (1024 * 1024) 1"
  obtain st where st: "spawn_server_with_token W ?lim None = Some st" "up W ?lim None ''qfull'' [] 0 st"
    by (rule spawned [OF assms, of ?lim None]) simp_all
  obtain s1 where s1: "post_push W 0 ?h (as_bytes ''a'') st = (Reply 200 (PostResp (uuid_text (w_amb W 0))), s1)"
    "up W ?lim None ''qfull'' [(0, as_bytes ''a'')] 1 s1"
    by (rule accepts [OF assms st(2), of ?h "as_bytes ''a''" 0]) simp_all
  obtain s2 where s2: "post_push W 1 ?h (as_bytes ''b'') s1 = (Reply 429 (Code ''ERR_OVERLOADED''), s2)"
    "up W ?lim None ''qfull'' [(0, as_bytes ''a'')] 2 s2"
    using push_overloaded [OF assms s1(2), of ?h "as_bytes ''b''" 1]
    by (cases "post_push W 1 ?h (as_bytes ''b'') s1") (simp add: numeral_2_eq_2)
  obtain s3 where s3: "get_pull W 2 ?h 1 s2 =
      (Reply 200 (PullResp [(uuid_text (w_amb W 0), as_bytes ''a'')]), s3)" "up W ?lim None ''qfull'' [] 2 s3"
    by (rule takes [OF assms s2(2), of ?h 1 2]) (simp_all add: items_of_def)
  show ?thesis
    by (rule takes [OF assms s3(2), of ?h 1 3])
       (use assms st(1) s1(1) s2(1) s3(1) in \<open>simp_all add: queue_full_returns_429_def spawn_server_def test_simps\<close>)
qed

lemma deletes_test:
  assumes "quiet W"
  shows "pull_deletes_on_deliver W"
proof -
  let ?h = "route_header ''two''" and ?lim = "test_limits (1024 * 1024) 8"
  let ?a = "as_bytes ''a''" and ?b = "as_bytes ''b''"
  obtain st where st: "spawn_server_with_token W ?lim None = Some st" "up W ?lim None ''two'' [] 0 st"
    by (rule spawned [OF assms, of ?lim None]) simp_all
  obtain s1 where s1: "post_push W 0 ?h ?a st = (Reply 200 (PostResp (uuid_text (w_amb W 0))), s1)"
    "up W ?lim None ''two'' [(0, ?a)] 1 s1"
    by (rule accepts [OF assms st(2), of ?h ?a 0]) simp_all
  obtain s2 where s2: "post_push W 1 ?h ?b s1 = (Reply 200 (PostResp (uuid_text (w_amb W 1))), s2)"
    "up W ?lim None ''two'' [(0, ?a), (1, ?b)] 2 s2"
    by (rule accepts [OF assms s1(2), of ?h ?b 1]) (simp_all add: numeral_2_eq_2)
  obtain s3 where s3: "get_pull W 2 ?h 1 s2 = (Reply 200 (PullResp [(uuid_text (w_amb W 0), ?a)]), s3)"
    "up W ?lim None ''two'' [(1, ?b)] 2 s3"
    by (rule takes [OF assms s2(2), of ?h 1 2]) (simp_all add: items_of_def)
  obtain s4 where s4: "get_pull W 3 ?h 2 s3 = (Reply 200 (PullResp [(uuid_text (w_amb W 1), ?b)]), s4)"
    "up W ?lim None ''two'' [] 2 s4"
    by (rule takes [OF assms s3(2), of ?h 2 3]) (simp_all add: items_of_def)
  show ?thesis
    by (rule takes [OF assms s4(2), of ?h 1 4])
       (use assms st(1) s1(1) s2(1) s3(1) s4(1) in
         \<open>simp_all add: pull_deletes_on_deliver_def spawn_server_def test_simps\<close>)
qed

text \<open>On a gated server a push that the bearer gate refuses leaves nothing to pull.\<close>

lemma gated:
  assumes "quiet W" and "\<not> auth_ok (w_sha W) h (Some ''topsecret'')"
  obtains st st1 where
    "spawn_server_with_token W (test_limits (1024 * 1024) 8) (Some ''topsecret'') = Some st"
    "post_push W 0 h data st = (Reply 401 (Code ''ERR_UNAUTHORIZED''), st1)"
    "up W (test_limits (1024 * 1024) 8) (Some ''topsecret'') ''auth'' [] 1 st1"
proof -
  obtain st where st: "spawn_server_with_token W (test_limits (1024 * 1024) 8) (Some ''topsecret'') = Some st"
    "up W (test_limits (1024 * 1024) 8) (Some ''topsecret'') ''auth'' [] 0 st"
    by (rule spawned [OF assms(1), of "test_limits (1024 * 1024) 8" "Some ''topsecret''"]) simp_all
  then show thesis
    using push_unauthorized [OF assms(1) st(2) _ assms(2), of 0 data] that [OF st(1)]
    by (cases "post_push W 0 h data st") simp
qed

lemma drained:
  assumes "quiet W" and "up W (test_limits (1024 * 1024) 8) (Some ''topsecret'') ''auth'' [] 1 st"
  obtains st' where
    "get_pull W i (with_bearer ''topsecret'' (route_header ''auth'')) 1 st = (Reply 204 NoBody, st')"
  by (rule takes [OF assms, of "with_bearer ''topsecret'' (route_header ''auth'')" 1 i]) simp_all

lemma gate_tests:
  assumes "quiet W"
  shows "auth_enabled_missing_token_401_no_mutation W" "auth_enabled_wrong_token_401_no_mutation W"
    "auth_enabled_wrong_token_same_length_401_no_mutation W"
proof -
  let ?h = "route_header ''auth''"
  obtain st s1 where s1: "spawn_server_with_token W (test_limits (1024 * 1024) 8) (Some ''topsecret'') = Some st"
    "post_push W 0 ?h (as_bytes ''x'') st = (Reply 401 (Code ''ERR_UNAUTHORIZED''), s1)"
    "up W (test_limits (1024 * 1024) 8) (Some ''topsecret'') ''auth'' [] 1 s1"
    by (rule gated [OF assms, of ?h "as_bytes ''x''"]) simp_all
  obtain s2 where s2: "get_pull W 1 ?h 1 s1 = (Reply 401 (Code ''ERR_UNAUTHORIZED''), s2)"
    "up W (test_limits (1024 * 1024) 8) (Some ''topsecret'') ''auth'' [] 1 s2"
    using pull_unauthorized [OF assms s1(3), of ?h 1 1] by (cases "get_pull W 1 ?h 1 s1") simp
  show "auth_enabled_missing_token_401_no_mutation W"
    by (rule drained [OF assms s2(2), of 2])
       (use s1(1,2) s2(1) in \<open>simp add: auth_enabled_missing_token_401_no_mutation_def test_simps\<close>)
next
  show "auth_enabled_wrong_token_401_no_mutation W"
  proof (rule gated [OF assms, of "with_bearer ''wrong'' (route_header ''auth'')" "as_bytes ''x''"])
    fix st s1
    assume s: "spawn_server_with_token W (test_limits (1024 * 1024) 8) (Some ''topsecret'') = Some st"
      "post_push W 0 (with_bearer ''wrong'' (route_header ''auth'')) (as_bytes ''x'') st =
        (Reply 401 (Code ''ERR_UNAUTHORIZED''), s1)"
      "up W (test_limits (1024 * 1024) 8) (Some ''topsecret'') ''auth'' [] 1 s1"
    show ?thesis
      by (rule drained [OF assms s(3), of 1])
         (use s(1,2) in \<open>simp add: auth_enabled_wrong_token_401_no_mutation_def test_simps\<close>)
  qed (simp add: wrong_tokens [OF assms])
next
  show "auth_enabled_wrong_token_same_length_401_no_mutation W"
  proof (rule gated [OF assms, of "with_bearer ''topsecreX'' (route_header ''auth'')" "as_bytes ''x''"])
    fix st s1
    assume s: "spawn_server_with_token W (test_limits (1024 * 1024) 8) (Some ''topsecret'') = Some st"
      "post_push W 0 (with_bearer ''topsecreX'' (route_header ''auth'')) (as_bytes ''x'') st =
        (Reply 401 (Code ''ERR_UNAUTHORIZED''), s1)"
      "up W (test_limits (1024 * 1024) 8) (Some ''topsecret'') ''auth'' [] 1 s1"
    show ?thesis
      by (rule drained [OF assms s(3), of 1])
         (use s(1,2) in \<open>simp add: auth_enabled_wrong_token_same_length_401_no_mutation_def test_simps\<close>)
  qed (simp add: wrong_tokens [OF assms])
qed

lemma log_id_test: "channel_log_id_is_deterministic_and_redacted"
  using channel_log_id_shape [of "''alice-route-token-123''"]
  by (auto simp: channel_log_id_is_deterministic_and_redacted_def Let_def dest: arg_cong [of _ _ length])

lemma http_tests_pass:
  assumes "quiet W"
  shows "failures (http_tests W) = []"
  by (simp add: http_tests_def roundtrip_tests empty_test oversize_test full_test deletes_test gate_tests
      log_id_test assms)

end
