(* ===== verification/Log_Text.thy ===== *)
theory Log_Text imports App begin

text \<open>
  The text of the log lines, one definition per \<open>info!\<close> or \<open>error!\<close> of \<open>src/lib.rs\<close>: what the
  subscriber prints after its own prefix. A number is printed as \<open>Display\<close> does.
\<close>

definition retention_expired_text :: "string \<Rightarrow> nat \<Rightarrow> int \<Rightarrow> string" where
  "retention_expired_text lid n ttl =
     ''event=retention_expired channel_id='' @ lid @ '' expired_messages='' @ nat_to_string n
       @ '' ttl_secs='' @ int_to_string ttl"

definition store_error_sweep_text :: "string \<Rightarrow> string" where
  "store_error_sweep_text e = ''event=store_error op=retention_sweep detail='' @ e"

definition store_error_text :: "string \<Rightarrow> string" where
  "store_error_text e = ''event=store_error detail='' @ e"

definition invite_rate_limited_text :: "nat \<Rightarrow> nat \<Rightarrow> string" where
  "invite_rate_limited_text burst refill =
     ''event=invite_rate_limited burst='' @ nat_to_string burst @ '' refill_per_sec='' @ nat_to_string refill"

definition invite_created_text :: "string \<Rightarrow> int \<Rightarrow> string" where
  "invite_created_text lid until =
     ''event=invite_created channel_id='' @ lid @ '' expiry='' @ int_to_string until"

definition invite_cap_full_text :: "nat \<Rightarrow> nat \<Rightarrow> string" where
  "invite_cap_full_text live cap =
     ''event=invite_cap_full live_slots='' @ nat_to_string live @ '' max='' @ nat_to_string cap"

definition invite_redeemed_text :: "string \<Rightarrow> string" where
  "invite_redeemed_text lid = ''event=invite_redeemed channel_id='' @ lid"

definition invite_revoked_text :: "string \<Rightarrow> string" where
  "invite_revoked_text lid = ''event=invite_revoked channel_id='' @ lid"

definition overloaded_text :: "nat \<Rightarrow> nat \<Rightarrow> string" where
  "overloaded_text dep cap =
     ''event=overloaded queue_depth='' @ nat_to_string dep @ '' max='' @ nat_to_string cap"

definition route_cap_text :: "string \<Rightarrow> nat \<Rightarrow> nat \<Rightarrow> string" where
  "route_cap_text lid live cap =
     ''event=route_cap channel_id='' @ lid @ '' live_routes='' @ nat_to_string live
       @ '' max='' @ nat_to_string cap"

definition rate_limited_text :: "string \<Rightarrow> nat \<Rightarrow> nat \<Rightarrow> string" where
  "rate_limited_text lid burst refill =
     ''event=rate_limited channel_id='' @ lid @ '' burst='' @ nat_to_string burst
       @ '' refill_per_sec='' @ nat_to_string refill"

definition invite_slot_rejected_text :: "string \<Rightarrow> string" where
  "invite_slot_rejected_text lid = ''event=invite_slot_rejected channel_id='' @ lid"

definition push_text :: "string \<Rightarrow> string \<Rightarrow> nat \<Rightarrow> string" where
  "push_text lid mid n = ''push channel_id='' @ lid @ '' id='' @ mid @ '' bytes='' @ nat_to_string n"

definition pull_text :: "string \<Rightarrow> string \<Rightarrow> nat \<Rightarrow> string" where
  "pull_text lid mid n = ''pull channel_id='' @ lid @ '' id='' @ mid @ '' bytes='' @ nat_to_string n"

definition ack_text :: "string \<Rightarrow> nat \<Rightarrow> string" where
  "ack_text lid n = ''ack channel_id='' @ lid @ '' acked='' @ nat_to_string n"

definition log_text :: "log_event \<Rightarrow> string" where
  "log_text e =
     (case e of
        RetentionExpired lid n ttl \<Rightarrow> retention_expired_text lid n ttl
      | StoreErrorSweep d \<Rightarrow> store_error_sweep_text d
      | StoreError d \<Rightarrow> store_error_text d
      | InviteRateLimited burst refill \<Rightarrow> invite_rate_limited_text burst refill
      | InviteCreated lid until \<Rightarrow> invite_created_text lid until
      | InviteCapFull live cap \<Rightarrow> invite_cap_full_text live cap
      | InviteRedeemed lid \<Rightarrow> invite_redeemed_text lid
      | InviteRevoked lid \<Rightarrow> invite_revoked_text lid
      | QueueOverloaded dep cap \<Rightarrow> overloaded_text dep cap
      | RouteCapReached lid live cap \<Rightarrow> route_cap_text lid live cap
      | RateLimited lid burst refill \<Rightarrow> rate_limited_text lid burst refill
      | InviteSlotRejected lid \<Rightarrow> invite_slot_rejected_text lid
      | Pushed lid mid n \<Rightarrow> push_text lid mid n
      | Pulled lid mid n \<Rightarrow> pull_text lid mid n
      | Acknowledged lid n \<Rightarrow> ack_text lid n)"

text \<open>What a subscriber has written after the given events, with its prefix per line.\<close>

definition captured :: "(nat \<Rightarrow> string) \<Rightarrow> log_event list \<Rightarrow> string" where
  "captured line_prefix l =
     concat (map (\<lambda>(n, e). line_prefix n @ log_text e @ [CHR 0x0A]) (enumerate 0 l))"

lemma digits_only: "set (nat_to_string n) \<subseteq> set ''0123456789''"
proof (induction n rule: nat_to_string.induct)
  case (1 n)
  define D where "D = set ''0123456789''"
  have "list_all (\<lambda>d :: nat. char_of (48 + d) \<in> set ''0123456789'') [0..<10]" by code_simp
  then have digit: "char_of (48 + d) \<in> D" if "d < 10" for d :: nat
    using that unfolding list_all_iff D_def by (metis atLeastLessThan_iff set_upt zero_le)
  show ?case
    using 1 digit [of n] digit [of "n mod 10"] unfolding D_def [symmetric]
    by (subst nat_to_string.simps) auto
qed

end
