(* ===== verification/Log_Sync.thy ===== *)
theory Log_Sync imports Rust_Text "HOL-Library.Sublist" begin

text \<open>
  The helper \<open>log_sync\<close> of the unit tests of \<open>src/lib.rs\<close>: tests wait for a line in a log that
  another task writes. A text is the list of its UTF-8 bytes. The world of a wait says what the
  buffer holds at each time and how time passes between two steps and over a sleep; the loop may
  run forever in a world whose clock stands still, so it is a partial function, and the laws of
  the clock make it return.
\<close>

subsection \<open>UTF-8\<close>

text \<open>The byte at an offset, zero past the end, and the continuation bytes.\<close>

definition byte_at :: "string \<Rightarrow> nat \<Rightarrow> nat" where
  "byte_at s i = (if i < length s then char_code (s ! i) else 0)"

definition cont :: "nat \<Rightarrow> bool" where
  "cont b \<longleftrightarrow> 0x80 \<le> b \<and> b < 0xC0"

text \<open>The second bytes allowed after a leading byte: no overlong forms, no surrogates, nothing
  above U+10FFFF.\<close>

definition second_ok :: "nat \<Rightarrow> nat \<Rightarrow> bool" where
  "second_ok b c \<longleftrightarrow> cont c \<and> (b = 0xE0 \<longrightarrow> 0xA0 \<le> c) \<and> (b = 0xED \<longrightarrow> c < 0xA0) \<and>
     (b = 0xF0 \<longrightarrow> 0x90 \<le> c) \<and> (b = 0xF4 \<longrightarrow> c < 0x90)"

text \<open>The bytes read at the front of a text, and whether they are a character.\<close>

definition utf8_step :: "string \<Rightarrow> nat \<times> bool" where
  "utf8_step s =
     (let b = byte_at s 0 in
      if b < 0x80 then (1, True)
      else if b < 0xC2 \<or> 0xF4 < b then (1, False)
      else if \<not> second_ok b (byte_at s 1) then (1, False)
      else if b < 0xE0 then (2, True)
      else if \<not> cont (byte_at s 2) then (2, False)
      else if b < 0xF0 then (3, True)
      else if \<not> cont (byte_at s 3) then (3, False)
      else (4, True))"

lemma utf8_step_pos: "0 < fst (utf8_step s)"
  by (simp add: utf8_step_def Let_def)

lemma cont_inside: "cont (byte_at s i) \<Longrightarrow> i < length s"
  by (simp add: byte_at_def cont_def split: if_splits)

lemma utf8_step_inside: "s \<noteq> [] \<Longrightarrow> fst (utf8_step s) \<le> length s"
  using cont_inside [of s 1] cont_inside [of s 2] cont_inside [of s 3]
  by (auto simp: utf8_step_def Let_def second_ok_def Suc_le_eq)

text \<open>\<open>String::from_utf8_lossy\<close>: every malformed piece becomes U+FFFD.\<close>

function from_utf8_lossy :: "string \<Rightarrow> string" where
  "from_utf8_lossy s =
     (if s = [] then []
      else (if snd (utf8_step s) then take (fst (utf8_step s)) s else map char_of [0xEF, 0xBF, 0xBD :: nat]) @
        from_utf8_lossy (drop (fst (utf8_step s)) s))"
  by pat_completeness auto
termination
  by (relation "measure length") (simp_all add: utf8_step_pos)

function utf8 :: "string \<Rightarrow> bool" where
  "utf8 s = (if s = [] then True else if snd (utf8_step s) then utf8 (drop (fst (utf8_step s)) s) else False)"
  by pat_completeness auto
termination
  by (relation "measure length") (simp_all add: utf8_step_pos)

declare from_utf8_lossy.simps [simp del] utf8.simps [simp del]

lemma utf8_Nil [simp]: "utf8 []"
  by (simp add: utf8.simps)

lemma utf8_step_local:
  assumes "snd (utf8_step s)" and "\<forall>i<fst (utf8_step s). byte_at s' i = byte_at s i"
  shows "utf8_step s' = utf8_step s"
  using assms
  by (simp add: utf8_step_def Let_def split: if_split_asm)

lemma utf8_step_char:
  assumes "snd (utf8_step s)" and "s \<noteq> []"
  shows "utf8_step (take (fst (utf8_step s)) s @ t) = utf8_step s"
  using utf8_step_inside [OF assms(2)]
  by (intro utf8_step_local [OF assms(1)]) (simp add: byte_at_def nth_append)

lemma utf8_char:
  assumes "snd (utf8_step s)" and "s \<noteq> []" and "utf8 t"
  shows "utf8 (take (fst (utf8_step s)) s @ t)"
  using utf8_step_char [OF assms(1,2), of t] utf8_step_inside [OF assms(2)] assms
  by (simp add: utf8.simps [of "take (fst (utf8_step s)) s @ t"])

lemma utf8_induct [consumes 1, case_names Nil Char]:
  assumes "utf8 s" and "P []"
    and "\<And>s. s \<noteq> [] \<Longrightarrow> snd (utf8_step s) \<Longrightarrow> utf8 (drop (fst (utf8_step s)) s) \<Longrightarrow>
      P (drop (fst (utf8_step s)) s) \<Longrightarrow> P s"
  shows "P s"
  using assms(1)
proof (induction s rule: utf8.induct)
  case (1 s)
  then show ?case using assms(2,3) by (cases "s = []") (auto simp: utf8.simps [of s] split: if_splits)
qed

text \<open>The decoder leaves well-formed text alone, and what it makes is well formed.\<close>

lemma lossy_utf8: "utf8 s \<Longrightarrow> from_utf8_lossy s = s"
  by (induction s rule: utf8_induct) (simp_all add: from_utf8_lossy.simps)

lemma replacement_step: "utf8_step (map char_of [0xEF, 0xBF, 0xBD :: nat] @ t) = (3, True)"
  by (simp add: utf8_step_def Let_def byte_at_def second_ok_def cont_def)

lemma utf8_replacement: "utf8 t \<Longrightarrow> utf8 (map char_of [0xEF, 0xBF, 0xBD :: nat] @ t)"
  using replacement_step [of t] utf8.simps [of "map char_of [0xEF, 0xBF, 0xBD :: nat] @ t"] by simp

lemma utf8_lossy: "utf8 (from_utf8_lossy s)"
proof (induction s rule: from_utf8_lossy.induct)
  case (1 s)
  show ?case
  proof (cases "s = []")
    case False
    then have rest: "utf8 (from_utf8_lossy (drop (fst (utf8_step s)) s))"
      using 1 by simp
    with False show ?thesis
      using utf8_char [OF _ False rest] utf8_replacement [OF rest]
      by (simp add: from_utf8_lossy.simps [of s])
  qed (simp add: from_utf8_lossy.simps)
qed

subsection \<open>The report of a timeout\<close>

definition LOG_WAIT_DEADLINE :: nat where "LOG_WAIT_DEADLINE = 5 * 10 ^ 9"
definition LOG_WAIT_POLL :: nat where "LOG_WAIT_POLL = 50 * 10 ^ 6"
definition LOG_EXCERPT_BYTES :: nat where "LOG_EXCERPT_BYTES = 240"

text \<open>The needle, the milliseconds waited, the bytes and lines of the buffer and its excerpt.\<close>

datatype LogWaitError = Timeout string nat nat nat string

definition flat_char :: "char \<Rightarrow> string" where
  "flat_char c = (if c = CHR 0x0A then '' | '' else [c])"

definition is_char_boundary :: "string \<Rightarrow> nat \<Rightarrow> bool" where
  "is_char_boundary s i \<longleftrightarrow> i = 0 \<or> (if i < length s then \<not> cont (byte_at s i) else i = length s)"

fun cut_back :: "string \<Rightarrow> nat \<Rightarrow> nat" where
  "cut_back s 0 = 0"
| "cut_back s (Suc n) = (if is_char_boundary s (Suc n) then Suc n else cut_back s n)"

text \<open>The slice \<open>&flat[..cut]\<close> panics off a character boundary: then there is no value.\<close>

definition excerpt :: "string \<Rightarrow> string option" where
  "excerpt s =
     (let flat = concat (map flat_char s) in
      if length flat \<le> LOG_EXCERPT_BYTES then Some flat
      else let cut = cut_back flat LOG_EXCERPT_BYTES in
        if is_char_boundary flat cut
        then Some (take cut flat @ map char_of [0xE2, 0x80, 0xA6 :: nat] @ ''<truncated>'') else None)"

text \<open>\<open>str::lines\<close> counts a last line only when it is not empty.\<close>

definition count_lines :: "string \<Rightarrow> nat" where
  "count_lines s = count_list s (CHR 0x0A) + (if s = [] \<or> last s = CHR 0x0A then 0 else 1)"

text \<open>The message; \<open>debug\<close> stands for the quoting of \<open>{:?}\<close>.\<close>

fun display :: "(string \<Rightarrow> string) \<Rightarrow> LogWaitError \<Rightarrow> string" where
  "display debug (Timeout n w b l e) =
     ''LOG_SYNC_TIMEOUT: needle '' @ debug n @ '' not observed within '' @ nat_to_string w @
     ''ms (buffer '' @ nat_to_string b @ '' bytes, '' @ nat_to_string l @ '' lines) buffer_excerpt='' @
     debug e"

lemma boundary_0 [simp]: "is_char_boundary s 0"
  by (simp add: is_char_boundary_def)

lemma cut_back_boundary: "is_char_boundary s (cut_back s n)"
  by (induction n) simp_all

lemma cut_back_max: "m \<le> n \<Longrightarrow> is_char_boundary s m \<Longrightarrow> m \<le> cut_back s n \<and> cut_back s n \<le> n"
  by (induction n) (auto simp: le_Suc_eq)

lemma utf8_front: "utf8 s \<Longrightarrow> \<not> cont (byte_at s 0)"
  by (cases "s = []") (auto simp: utf8.simps [of s] utf8_step_def byte_at_def cont_def Let_def split: if_splits)

lemma utf8_boundary: "utf8 s \<Longrightarrow> is_char_boundary s i \<longleftrightarrow> i \<le> length s \<and> \<not> cont (byte_at s i)"
  using utf8_front [of s] by (auto simp: is_char_boundary_def byte_at_def cont_def)

lemma utf8_step_four: "fst (utf8_step s) \<le> 4"
  by (simp add: utf8_step_def Let_def)

lemma near_boundary: "utf8 s \<Longrightarrow> n \<le> length s \<Longrightarrow> \<exists>m\<le>n. n \<le> m + 3 \<and> \<not> cont (byte_at s m)"
proof (induction s arbitrary: n rule: utf8_induct)
  case (Char s)
  let ?k = "fst (utf8_step s)"
  have s: "utf8 s" using Char.hyps by (simp add: utf8.simps [of s])
  show ?case
  proof (cases "n < ?k")
    case True
    with utf8_step_four [of s] utf8_front [OF s] show ?thesis by (intro exI [of _ 0]) auto
  next
    case False
    have "n - ?k \<le> length (drop ?k s)" using Char.prems by (simp add: diff_le_mono)
    from Char.IH [OF this] obtain m where m: "m \<le> n - ?k" "n - ?k \<le> m + 3" "\<not> cont (byte_at (drop ?k s) m)"
      by blast
    have "byte_at (drop ?k s) m = byte_at s (m + ?k)"
      by (auto simp: byte_at_def add.commute)
    with m False show ?thesis by (intro exI [of _ "m + ?k"]) auto
  qed
qed (simp add: byte_at_def cont_def)

lemma utf8_ascii: "char_code c < 0x80 \<Longrightarrow> utf8 (c # t) \<longleftrightarrow> utf8 t"
  by (simp add: utf8.simps [of "c # t"] utf8_step_def byte_at_def)

lemma all_below:
  "(\<forall>i<2. P i) \<longleftrightarrow> P 0 \<and> P 1" "(\<forall>i<3. P i) \<longleftrightarrow> P 0 \<and> P 1 \<and> P 2"
  "(\<forall>i<4. P i) \<longleftrightarrow> P 0 \<and> P 1 \<and> P 2 \<and> P (3 :: nat)"
  by (simp_all add: All_less_Suc numeral_eq_Suc conj_ac)

lemma utf8_step_high:
  assumes "snd (utf8_step s)" and "0x80 \<le> byte_at s 0"
  shows "\<forall>i<fst (utf8_step s). 0x80 \<le> byte_at s i"
  using assms
  by (simp add: utf8_step_def Let_def all_below second_ok_def cont_def split: if_split_asm)

lemma utf8_flat: "utf8 s \<Longrightarrow> utf8 (concat (map flat_char s))"
proof (induction s rule: utf8_induct)
  case (Char s)
  let ?k = "fst (utf8_step s)" and ?flat = "\<lambda>s. concat (map flat_char s)"
  show ?case
  proof (cases "byte_at s 0 < 0x80")
    case True
    then obtain c t where s: "s = c # t" and c: "char_code c < 0x80"
      using Char.hyps(1) by (cases s) (simp_all add: byte_at_def)
    have "?k = 1" using True by (simp add: utf8_step_def)
    then have "utf8 (?flat t)" using Char.IH s by simp
    moreover have "utf8 (flat_char c @ u) \<longleftrightarrow> utf8 u" for u
      using c by (simp add: flat_char_def utf8_ascii) (simp add: utf8_ascii char_code_def)
    ultimately show ?thesis by (simp add: s)
  next
    case False
    have "flat_char c = [c]" if c: "c \<in> set (take ?k s)" for c
    proof -
      obtain i where "i < ?k" "c = s ! i" "i < length s" using c by (auto simp: in_set_conv_nth)
      then have "0x80 \<le> char_code c"
        using utf8_step_high [OF Char.hyps(2)] False by (auto simp: byte_at_def)
      then show ?thesis by (auto simp: flat_char_def char_code_def)
    qed
    then have "?flat (take ?k s) = take ?k s"
      by (induction "take ?k s") (simp_all add: concat_map_singleton cong: map_cong)
    then have "?flat s = take ?k s @ ?flat (drop ?k s)"
      by (metis append_take_drop_id concat_append map_append)
    then show ?thesis using utf8_char [OF Char.hyps(2,1) Char.IH] by simp
  qed
qed simp

text \<open>The excerpt never panics; it keeps the whole text, or all but three of the first 240 bytes.\<close>

lemma excerpt_total: "\<exists>e. excerpt s = Some e \<and> length e \<le> LOG_EXCERPT_BYTES + 14"
proof -
  let ?flat = "concat (map flat_char s)"
  have "cut_back ?flat LOG_EXCERPT_BYTES \<le> LOG_EXCERPT_BYTES"
    using cut_back_max [of 0 LOG_EXCERPT_BYTES ?flat] by simp
  then show ?thesis
    using cut_back_boundary [of ?flat LOG_EXCERPT_BYTES] by (simp add: excerpt_def Let_def)
qed

lemma excerpt_keeps:
  assumes "utf8 s" and "excerpt s = Some e"
  shows "e = concat (map flat_char s) \<or>
    (\<exists>n. LOG_EXCERPT_BYTES \<le> n + 3 \<and> prefix (take n (concat (map flat_char s))) e)"
proof -
  let ?flat = "concat (map flat_char s)"
  show ?thesis
  proof (cases "length ?flat \<le> LOG_EXCERPT_BYTES")
    case False
    then obtain m where m: "m \<le> LOG_EXCERPT_BYTES" "LOG_EXCERPT_BYTES \<le> m + 3" "\<not> cont (byte_at ?flat m)"
      using near_boundary [OF utf8_flat [OF assms(1)], of LOG_EXCERPT_BYTES] by auto
    then have "is_char_boundary ?flat m"
      using False by (simp add: utf8_boundary utf8_flat assms(1))
    then have "LOG_EXCERPT_BYTES \<le> cut_back ?flat LOG_EXCERPT_BYTES + 3"
      using cut_back_max [OF m(1)] m(2) by fastforce
    then show ?thesis
      using assms(2) False by (auto simp: excerpt_def Let_def split: if_splits)
  qed (use assms(2) in \<open>simp add: excerpt_def\<close>)
qed

subsection \<open>The wait\<close>

text \<open>The world of a wait, over times in nanoseconds: the bytes in the buffer, the clock at the next
  step, and the clock when a sleep of \<open>LOG_WAIT_POLL\<close> is over.\<close>

record surroundings =
  buf_at :: "nat \<Rightarrow> string"
  tick :: "nat \<Rightarrow> nat"
  wake :: "nat \<Rightarrow> nat"

definition buffer_text :: "string \<Rightarrow> string" where
  "buffer_text bs = from_utf8_lossy bs"

text \<open>One report; \<open>as_millis() as u64\<close> keeps the low 64 bits.\<close>

definition timeout_report :: "string \<Rightarrow> nat \<Rightarrow> string \<Rightarrow> LogWaitError option" where
  "timeout_report needle waited text =
     map_option (Timeout needle (waited div 10 ^ 6 mod 2 ^ 64) (length text) (count_lines text)) (excerpt text)"

text \<open>The loop from a time, with the time at which it returns; no value when it does not return.
  The report is there, since the excerpt never panics.\<close>

partial_function (option) wait_loop ::
  "surroundings \<Rightarrow> string \<Rightarrow> nat \<Rightarrow> nat \<Rightarrow> ((LogWaitError + string) \<times> nat) option" where
  "wait_loop W needle start t =
     (let text = buffer_text (buf_at W t); t1 = tick W t in
      if sublist needle text then Some (Inr text, t)
      else if LOG_WAIT_DEADLINE \<le> t1 - start
      then map_option (\<lambda>e. (Inl e, tick W t1)) (timeout_report needle (tick W t1 - start) text)
      else wait_loop W needle start (wake W t1))"

definition try_await_log :: "surroundings \<Rightarrow> string \<Rightarrow> nat \<Rightarrow> ((LogWaitError + string) \<times> nat) option" where
  "try_await_log W needle t = wait_loop W needle t (tick W t)"

text \<open>The two helpers that panic: a panic is its message.\<close>

definition await_log ::
  "(string \<Rightarrow> string) \<Rightarrow> surroundings \<Rightarrow> string \<Rightarrow> nat \<Rightarrow> ((string + string) \<times> nat) option" where
  "await_log debug W needle t =
     map_option (\<lambda>(r, t'). (case r of Inr text \<Rightarrow> Inr text | Inl e \<Rightarrow> Inl (display debug e), t'))
       (try_await_log W needle t)"

fun await_each ::
  "(string \<Rightarrow> string) \<Rightarrow> surroundings \<Rightarrow> string \<Rightarrow> string list \<Rightarrow> nat \<Rightarrow> ((string + string) \<times> nat) option" where
  "await_each debug W text [] t = Some (Inr text, t)"
| "await_each debug W text (needle # needles) t =
     (case await_log debug W needle t of
        Some (Inr text, t') \<Rightarrow> await_each debug W text needles t'
      | panicked \<Rightarrow> panicked)"

definition await_logs ::
  "(string \<Rightarrow> string) \<Rightarrow> surroundings \<Rightarrow> string list \<Rightarrow> nat \<Rightarrow> ((string + string) \<times> nat) option" where
  "await_logs debug W needles t =
     (if needles = [] then Some (Inl ''await_logs with no needles would synchronise on nothing'', t)
      else await_each debug W [] needles t)"

text \<open>The clock never goes back, and a sleep takes at least its time.\<close>

definition clock_runs :: "surroundings \<Rightarrow> bool" where
  "clock_runs W \<longleftrightarrow> (\<forall>t. t \<le> tick W t \<and> t + LOG_WAIT_POLL \<le> wake W t)"

text \<open>The buffer only grows, by whole characters.\<close>

definition log_grows :: "surroundings \<Rightarrow> bool" where
  "log_grows W \<longleftrightarrow> (\<forall>s t. s \<le> t \<longrightarrow> prefix (buf_at W s) (buf_at W t)) \<and> (\<forall>t. utf8 (buf_at W t))"

lemma timeout_report_total: "\<exists>e. timeout_report needle waited text = Some e"
  using excerpt_total [of "text"] by (auto simp: timeout_report_def)

text \<open>The wait is bounded: under the laws of the clock the loop returns.\<close>

lemma wait_loop_returns:
  assumes "clock_runs W"
  shows "\<exists>r. wait_loop W needle start t = Some r"
proof (induction "start + LOG_WAIT_DEADLINE - t" arbitrary: t rule: less_induct)
  case less
  let ?t1 = "tick W t"
  have run: "t \<le> ?t1" "?t1 + LOG_WAIT_POLL \<le> wake W ?t1"
    using assms by (simp_all add: clock_runs_def)
  show ?case
  proof (cases "LOG_WAIT_DEADLINE \<le> ?t1 - start")
    case True
    then show ?thesis
      using timeout_report_total [of needle "tick W ?t1 - start" "buffer_text (buf_at W t)"]
      by (subst wait_loop.simps) (auto simp: Let_def)
  next
    case False
    then have "start + LOG_WAIT_DEADLINE - wake W ?t1 < start + LOG_WAIT_DEADLINE - t"
      using run by (simp add: LOG_WAIT_POLL_def)
    from less [OF this] False show ?thesis
      by (subst wait_loop.simps) (auto simp: Let_def)
  qed
qed

text \<open>What the wait returns was in the buffer; a timeout waited for the deadline, and reports what
  it read, in which the needle was not.\<close>

lemma wait_loop_result:
  assumes "clock_runs W" and "wait_loop W needle start t = Some (r, t')"
  shows "\<exists>s. t \<le> s \<and> s \<le> t' \<and> (case r of
      Inr text \<Rightarrow> t' = s \<and> text = buffer_text (buf_at W s) \<and> sublist needle text
    | Inl e \<Rightarrow> LOG_WAIT_DEADLINE \<le> t' - start \<and> \<not> sublist needle (buffer_text (buf_at W s)) \<and>
        timeout_report needle (t' - start) (buffer_text (buf_at W s)) = Some e)"
  using assms(2)
proof (induction "start + LOG_WAIT_DEADLINE - t" arbitrary: t rule: less_induct)
  case less
  let ?t1 = "tick W t" and ?text = "buffer_text (buf_at W t)"
  have run: "t \<le> ?t1" "?t1 \<le> tick W ?t1" "?t1 + LOG_WAIT_POLL \<le> wake W ?t1"
    using assms(1) by (simp_all add: clock_runs_def)
  note loop = less.prems [unfolded wait_loop.simps [of W needle start t] Let_def]
  consider (found) "sublist needle ?text" | (late) "\<not> sublist needle ?text" "LOG_WAIT_DEADLINE \<le> ?t1 - start"
    | (again) "\<not> sublist needle ?text" "\<not> LOG_WAIT_DEADLINE \<le> ?t1 - start"
    by blast
  then show ?case
  proof cases
    case found
    then show ?thesis using loop by auto
  next
    case late
    then show ?thesis using loop run by (intro exI [of _ t]) auto
  next
    case again
    have "start + LOG_WAIT_DEADLINE - wake W ?t1 < start + LOG_WAIT_DEADLINE - t"
      using run again(2) by (simp add: LOG_WAIT_POLL_def)
    from less.hyps [OF this] loop again obtain s where "wake W ?t1 \<le> s" and s: "s \<le> t' \<and> (case r of
        Inr text \<Rightarrow> t' = s \<and> text = buffer_text (buf_at W s) \<and> sublist needle text
      | Inl e \<Rightarrow> LOG_WAIT_DEADLINE \<le> t' - start \<and> \<not> sublist needle (buffer_text (buf_at W s)) \<and>
          timeout_report needle (t' - start) (buffer_text (buf_at W s)) = Some e)"
      by auto
    then show ?thesis using run by (intro exI [of _ s]) simp
  qed
qed

lemma await_log_text:
  assumes "clock_runs W" and "await_log debug W needle t = Some (Inr text, t')"
  shows "t \<le> t' \<and> text = buffer_text (buf_at W t') \<and> sublist needle text"
proof -
  obtain r where "wait_loop W needle t (tick W t) = Some (r, t')" and "r = Inr text"
    using assms(2) unfolding await_log_def try_await_log_def
    by (cases "wait_loop W needle t (tick W t)") (auto split: sum.split_asm)
  with wait_loop_result [OF assms(1), of needle t "tick W t"] have
    "tick W t \<le> t' \<and> text = buffer_text (buf_at W t') \<and> sublist needle text" by fastforce
  moreover have "t \<le> tick W t" using assms(1) by (simp add: clock_runs_def)
  ultimately show ?thesis by auto
qed

lemma await_log_returns: "clock_runs W \<Longrightarrow> \<exists>r. await_log debug W needle t = Some r"
  using wait_loop_returns [of W needle t "tick W t"]
  by (auto simp: await_log_def try_await_log_def)

text \<open>The last snapshot holds every needle, as the comment on \<open>await_logs\<close> says.\<close>

lemma await_each_sees_all:
  assumes "clock_runs W" and "log_grows W"
  shows "await_each debug W text ns t = Some (Inr final, t') \<Longrightarrow> ns \<noteq> [] \<Longrightarrow>
    t \<le> t' \<and> final = buf_at W t' \<and> (\<forall>n\<in>set ns. sublist n final)"
proof (induction ns arbitrary: "text" t)
  case (Cons n ns)
  obtain snap s where one: "await_log debug W n t = Some (Inr snap, s)"
    and rest: "await_each debug W snap ns s = Some (Inr final, t')"
    using Cons.prems(1) by (auto split: option.splits sum.splits)
  have utf8: "utf8 (buf_at W u)" and grow: "u \<le> v \<Longrightarrow> prefix (buf_at W u) (buf_at W v)" for u v
    using assms(2) by (simp_all add: log_grows_def)
  have snap: "t \<le> s" "snap = buf_at W s" "sublist n snap"
    using await_log_text [OF assms(1) one] by (auto simp: buffer_text_def lossy_utf8 [OF utf8])
  show ?case
  proof (cases "ns = []")
    case False
    from Cons.IH [OF rest this] snap grow [of s t'] show ?thesis
      by (auto intro: sublist_order.order_trans prefix_imp_sublist)
  qed (use rest snap in auto)
qed simp

lemma await_logs_sees_all:
  assumes "clock_runs W" and "log_grows W" and "await_logs debug W ns t = Some (Inr final, t')"
  shows "t \<le> t' \<and> final = buf_at W t' \<and> (\<forall>n\<in>set ns. sublist n final)"
  using assms(3) await_each_sees_all [OF assms(1,2)]
  by (cases "ns = []") (auto simp: await_logs_def)

lemma await_logs_returns:
  assumes "clock_runs W"
  shows "\<exists>r. await_logs debug W ns t = Some r"
proof -
  have "\<exists>r. await_each debug W text ns t = Some r" for "text"
  proof (induction ns arbitrary: "text" t)
    case (Cons n ns)
    obtain r t1 where "await_log debug W n t = Some (r, t1)"
      using await_log_returns [OF assms, of debug n t] by auto
    with Cons.IH show ?case by (cases r) simp_all
  qed simp
  then show ?thesis by (simp add: await_logs_def)
qed

subsection \<open>Its own test\<close>

text \<open>\<open>log_sync_timeout_is_named_and_reports_what_it_read\<close>, up to the assertion of the name. The
  subscriber it installs and the two assertions about the state of the \<open>tracing\<close> dispatcher at its
  end are outside the model.\<close>

definition log_sync_timeout_is_named_and_reports_what_it_read ::
  "(string \<Rightarrow> string) \<Rightarrow> surroundings \<Rightarrow> bool" where
  "log_sync_timeout_is_named_and_reports_what_it_read debug W \<longleftrightarrow>
     (case try_await_log W ''channel_id='' 0 of
        Some (Inl (Timeout n w b l e), _) \<Rightarrow>
          0 < b \<and> 1 \<le> l \<and> sublist ''LOG_SYNC_TIMEOUT'' (display debug (Timeout n w b l e))
      | _ \<Rightarrow> False)"

lemma utf8_append: "utf8 s \<Longrightarrow> utf8 t \<Longrightarrow> utf8 (s @ t)"
proof (induction s rule: utf8_induct)
  case (Char s)
  from utf8_char [OF Char.hyps(2,1) Char.IH [OF Char.prems]] show ?case
    using append_take_drop_id [of "fst (utf8_step s)" s] by (metis append_assoc)
qed simp

text \<open>A world in which the subscriber wrote the one line, after a prefix that is text and does not
  hold the needle.\<close>

definition wrote_one_line :: "string \<Rightarrow> surroundings \<Rightarrow> bool" where
  "wrote_one_line p W \<longleftrightarrow>
     clock_runs W \<and> (\<forall>t. buf_at W t = p @ ''event=something_else'' @ [CHR 0x0A]) \<and> utf8 p \<and>
     \<not> sublist ''channel_id='' (p @ ''event=something_else'' @ [CHR 0x0A])"

lemma log_sync_test_passes:
  assumes "wrote_one_line p W"
  shows "log_sync_timeout_is_named_and_reports_what_it_read debug W"
proof -
  let ?line = "p @ ''event=something_else'' @ [CHR 0x0A]"
  have clock: "clock_runs W" and buf: "\<And>t. buf_at W t = ?line" and "utf8 p"
    and absent: "\<not> sublist ''channel_id='' ?line"
    using assms unfolding wrote_one_line_def by blast+
  have "utf8 ?line"
    by (intro utf8_append \<open>utf8 p\<close>) (simp_all add: utf8_ascii char_code_def)
  then have line: "buffer_text (buf_at W t) = ?line" for t
    by (simp only: buffer_text_def buf lossy_utf8)
  obtain r t' where run: "wait_loop W ''channel_id='' 0 (tick W 0) = Some (r, t')"
    using wait_loop_returns [OF clock, of "''channel_id=''" 0 "tick W 0"] by auto
  from wait_loop_result [OF clock run] absent obtain e where r: "r = Inl e"
    and e: "timeout_report ''channel_id='' (t' - 0) ?line = Some e"
    by (cases r) (simp_all only: line sum.case, blast+)
  have "1 \<le> count_lines ?line" by (simp add: count_lines_def)
  moreover have "sublist ''LOG_SYNC_TIMEOUT'' (display debug (Timeout n w b l x))" for n w b l x
    by (simp add: sublist_code)
  ultimately show ?thesis
    using run r e
    by (auto simp: log_sync_timeout_is_named_and_reports_what_it_read_def try_await_log_def timeout_report_def
        simp del: display.simps)
qed

end
