(* ===== verification/Tests_Log.thy ===== *)
theory Tests_Log imports Log_Trail Tests_Relay Log_Text Log_Sync begin

text \<open>
  The three unit tests of \<open>src/lib.rs\<close> that capture the log of the relay, and the tests that run
  the relay together. The subscriber's prefix of a line (time, level, target) is a parameter; its text is that of \<open>Log_Text\<close>. The model passes them in
  every quiet world whose UUIDs and prefixes have their documented shape.
\<close>

subsection \<open>The tests\<close>

text \<open>The n-th request with the events it logs.\<close>

definition send_logged :: "world \<Rightarrow> nat \<Rightarrow> request \<Rightarrow> AppState \<Rightarrow> response \<times> log_event list \<times> AppState" where
  "send_logged W n req st = serve (w_sha W) (w_parsers W) (w_amb W n) req st"

definition payload_not_logged :: "(nat \<Rightarrow> string) \<Rightarrow> world \<Rightarrow> bool" where
  "payload_not_logged line_prefix W \<longleftrightarrow>
     on_server (spawn_server W (test_limits (1024 * 1024) 8)) (\<lambda>st.
       let payload = as_bytes ''SECRET_PAYLOAD_ABC'';
           (_, l, st) = send_logged W 0 (PushReq (route_header ''nolog'') payload) st;
           logged = captured line_prefix l
       in sublist ''push channel_id='' logged \<and> \<not> sublist ''SECRET_PAYLOAD_ABC'' logged)"

definition logs_do_not_contain_raw_channel :: "(nat \<Rightarrow> string) \<Rightarrow> world \<Rightarrow> bool" where
  "logs_do_not_contain_raw_channel line_prefix W \<longleftrightarrow>
     on_server (spawn_server W (test_limits (1024 * 1024) 8)) (\<lambda>st.
       let channel = ''route-token-sensitive''; payload = as_bytes ''log-redaction'';
           (push, l, st) = send_logged W 0 (PushReq (route_header channel) payload) st;
           (pull, l', st) = send_logged W 1
             (PullReq (route_header channel) \<lparr>query_max = Some 1, query_ack = None\<rparr>) st;
           logged = captured line_prefix (l @ l')
       in reply_status push = 200 \<and> reply_status pull = 200 \<and>
          \<not> sublist channel logged \<and> sublist ''channel_id='' logged)"

text \<open>The scan of the test for a run of 32 lower-case hexadecimal digits.\<close>

definition lower_hex :: "char \<Rightarrow> bool" where
  "lower_hex c \<longleftrightarrow> c \<in> set ''0123456789abcdef''"

fun long_hex :: "nat \<Rightarrow> string \<Rightarrow> bool" where
  "long_hex run [] = False"
| "long_hex run (c # cs) =
     (if lower_hex c then (if 32 \<le> Suc run then True else long_hex (Suc run) cs) else long_hex 0 cs)"

definition overload_logs_are_safe_and_structured :: "(nat \<Rightarrow> string) \<Rightarrow> world \<Rightarrow> bool" where
  "overload_logs_are_safe_and_structured line_prefix W \<longleftrightarrow>
     on_server (spawn_server W (test_limits (1024 * 1024) 1)) (\<lambda>st.
       let channel = ''route-token-super-sensitive-aaaaaaaaaaaaaaaaaaaa'';
           (first, l, st) = send_logged W 0 (PushReq (route_header channel) (as_bytes ''a'')) st;
           (second, l', st) = send_logged W 1 (PushReq (route_header channel) (as_bytes ''b'')) st;
           logged = captured line_prefix (l @ l')
       in reply_status first = 200 \<and> reply_status second = 429 \<and> text_is second ''ERR_OVERLOADED'' \<and>
          sublist ''event=overloaded'' logged \<and> sublist ''queue_depth='' logged \<and>
          sublist ''max='' logged \<and> \<not> sublist channel logged \<and> \<not> long_hex 0 logged)"

definition log_tests :: "(nat \<Rightarrow> string) \<Rightarrow> world \<Rightarrow> (string \<times> bool) list" where
  "log_tests line_prefix W =
     [(''payload_not_logged'', payload_not_logged line_prefix W),
      (''logs_do_not_contain_raw_channel'', logs_do_not_contain_raw_channel line_prefix W),
      (''overload_logs_are_safe_and_structured'', overload_logs_are_safe_and_structured line_prefix W)]"

text \<open>A UUID is short groups of lower-case hexadecimal digits joined by hyphens; a prefix ends in a
  space, has no long run of digits, and does not hold the two letters by which the proofs tell
  the secrets of the tests apart.\<close>

definition readable :: "(nat \<Rightarrow> string) \<Rightarrow> world \<Rightarrow> bool" where
  "readable line_prefix W \<longleftrightarrow>
     (\<forall>n. \<exists>p. line_prefix n = p @ '' '' \<and> CHR ''P'' \<notin> set p \<and> CHR ''k'' \<notin> set p \<and> \<not> long_hex 0 p) \<and>
     (\<forall>n. set (uuid_text (w_amb W n)) \<subseteq> set ''0123456789abcdef-'' \<and> \<not> long_hex 0 (uuid_text (w_amb W n)))"

subsection \<open>Logs without retention events\<close>

definition calm_log :: "log_event list \<Rightarrow> bool" where
  "calm_log l \<longleftrightarrow> list_all (\<lambda>e. case e of RetentionExpired _ _ _ \<Rightarrow> False | _ \<Rightarrow> True) l"

lemma calm_log_simps [simp]:
  "calm_log []" "calm_log (l @ l') \<longleftrightarrow> calm_log l \<and> calm_log l'"
  "calm_log (e # l) \<longleftrightarrow> (case e of RetentionExpired _ _ _ \<Rightarrow> False | _ \<Rightarrow> True) \<and> calm_log l"
  by (simp_all add: calm_log_def)

lemma calm_log_outcome: "calm_log l \<Longrightarrow> outcome_events l = l"
  by (induction l) (auto split: log_event.splits)

definition still :: "'a handler \<Rightarrow> bool" where
  "still m \<longleftrightarrow> (\<forall>st. calm_log (fst (snd (m st))))"

lemma calm_bind:
  assumes "calm_log (fst (snd (m st)))" and "\<And>x l s. m st = (Inr x, l, s) \<Longrightarrow> calm_log (fst (snd (f x s)))"
  shows "calm_log (fst (snd (h_bind m f st)))"
  using assms by (auto simp: h_bind_def split: prod.splits sum.splits)

named_theorems still_rules

lemma still_bind [still_rules]: "still m \<Longrightarrow> (\<And>x. still (f x)) \<Longrightarrow> still (h_bind m f)"
  unfolding still_def by (intro allI calm_bind) auto

lemma still_basic [still_rules]:
  "still (h_return x)" "still (h_reply n p)" "still (h_get g)" "still (h_guard b n code)"
  "still (h_drop_bucket key)" "still (h_store f)" "still (push_gate amb key lid)" "still (pull_answer_items lid items)"
  "outcome_events [e] = [e] \<Longrightarrow> still (h_info e)"
  by (auto simp: still_def h_run h_guard_def h_drop_bucket_def h_store_def run_store_def push_gate_def
      pull_answer_items_def calm_log_def Let_def list_all_iff split: prod.split sum.split option.split log_event.splits)

lemma still_if [still_rules]: "still m \<Longrightarrow> still m' \<Longrightarrow> still (if c then m else m')"
  by simp

lemma admit_same:
  "snd (push_admit sha h b st) = ([], st)" "snd (pull_admit sha h q st) = ([], st)"
  by (auto simp: push_admit_def pull_admit_def h_bind_def h_auth_def h_route_token_def h_guard_def h_run Let_def
      split: prod.splits sum.splits if_splits option.splits)

lemma calm_prune: "expired_routes stats = [] \<Longrightarrow> calm_log (fst (snd (h_prune stats st)))"
  by (simp add: h_prune_def log_and_prune_sweep_def split: prod.split)

lemma calm_at:
  assumes "snd (m st) = ([], st)" and "\<And>x. m st = (Inr x, [], st) \<Longrightarrow> calm_log (fst (snd (f x st)))"
  shows "calm_log (fst (snd (h_bind m f st)))"
  using assms by (intro calm_bind) (auto simp: prod_eq_iff)

lemma calm_then:
  "calm_log (fst (snd (m st))) \<Longrightarrow> (\<And>x. still (f x)) \<Longrightarrow> calm_log (fst (snd (h_bind m f st)))"
  by (rule calm_bind) (simp_all add: still_def)

lemma calm_prune_then:
  "expired_routes stats = [] \<Longrightarrow> (\<And>x. still (f x)) \<Longrightarrow> calm_log (fst (snd (h_bind (h_prune stats) f st)))"
  by (intro calm_bind calm_prune) (simp_all add: still_def)

lemma calm_store: "calm_log (fst (snd (h_store f st)))"
  using still_basic(6) [of f] by (simp add: still_def)

lemma calm_push:
  assumes "app_ok st" and "faults1 amb = []"
    and "count_expired (st_retention_ttl_secs (store st)) (now_unix_secs amb) (tables (store st)) = []"
  shows "calm_log (fst (snd (push_message sha amb h b st)))"
proof -
  obtain d where conn: "conn (store st) = Mutex False d"
    using assms(1) by (cases "conn (store st)") (simp add: app_ok_def store_wf_def)
  have call: "h_store (store_route_status key (now_unix_secs amb) (faults1 amb)) st = (Inr s, l, s1) \<Longrightarrow>
      expired_routes (status_sweep s) = []" for key s l s1
    using assms(2,3) conn
    by (auto simp: h_store_def run_store_def store_route_status_def store_tx_def lock_def route_status_run
        sweep_stats_def)
  have status: "calm_log (fst (snd (push_status amb key lid st)))" for key lid
    unfolding push_status_def
    by (rule calm_bind [OF calm_store], drule call, rule calm_prune_then, assumption)
       (intro still_rules, simp_all)
  have "still (push_answer key lid mid n out)" for key lid mid n out
    unfolding push_answer_def by (cases out) (auto intro!: still_rules)
  moreover have "still (push_enqueue sha amb h b key lid mid)" for key lid mid
    unfolding push_enqueue_def by (intro still_rules)
  ultimately have rest: "still (h_bind (push_gate amb key lid) (\<lambda>_. h_bind (push_enqueue sha amb h b key lid mid)
      (\<lambda>out. push_answer key lid mid (length b) out)))" for key lid mid
    by (intro still_rules)
  show ?thesis
    unfolding push_message_def Let_def
    by (rule calm_at [where m = "push_admit sha h b", OF admit_same(1)], rule calm_then, rule status, rule rest)
qed

lemma calm_pull:
  assumes "app_reachable st" and "last_seq (tables (store st)) < 2 ^ 63 - 1" and "faults1 amb = []"
    and "count_expired (st_retention_ttl_secs (store st)) (now_unix_secs amb) (tables (store st)) = []"
  shows "calm_log (fst (snd (pull_message sha amb h q st)))"
proof -
  have ok: "app_ok st" by (rule app_reachable_ok [OF assms(1)])
  then have db: "db_ok (tables (store st))" by (simp add: app_ok_def store_wf_def)
  have lim: "limits_wf (app_limits st)" using app_reachable_wf [OF assms(1)] by simp
  have bound: "max_body_bytes (app_limits st) < usize_max"
    using lim by (auto simp: limits_wf_def ceiling_defs usize_max_def)
  have store: "expired_routes (pull_sweep out) = []"
    if run: "pull_store amb k mx mode st = (Inr out, l, s)" and mx: "mx < 2 ^ 63" for k mx mode out l s
  proof -
    obtain out' d' where "act (pull_store amb k mx mode)
        (put (tables (store st)) (inner (push_rates st)) (inner (invite_create_rate st)) st) =
        (Inr out', put d' (inner (push_rates st)) (inner (invite_create_rate st)) st)"
      "pull_sweep out' = sweep_stats (st_retention_ttl_secs (store st)) (now_unix_secs amb) (tables (store st))"
      by (rule act_pull_store [OF db assms(2,3) mx bound]) blast
    then show ?thesis using run assms(4) by (simp add: put_self [OF ok] act_def sweep_stats_def)
  qed
  have clamp: "mx < 2 ^ 63" if "pull_admit sha h q st = (Inr (channel, mx, mode), l, s)" for channel mx mode l s
    using that lim
    by (auto simp: pull_admit_def h_bind_def h_auth_def h_route_token_def h_guard_def h_run Let_def limits_wf_def
        ceiling_defs split: prod.splits sum.splits if_splits option.splits)
  have calm: "calm_log (fst (snd (pull_store amb k mx mode st)))" for k mx mode
    by (simp add: pull_store_def h_bind_def h_run Let_def calm_store split: prod.split)
  show ?thesis
    unfolding pull_message_def Let_def
  proof (rule calm_at [where m = "pull_admit sha h q", OF admit_same(2)], clarify)
    fix channel mx mode
    assume admit: "pull_admit sha h q st = (Inr (channel, mx, mode), [], st)"
    let ?key = "route_key_for sha channel"
    show "calm_log (fst (snd (h_bind (pull_store amb ?key mx mode) (\<lambda>out. h_bind (h_prune (pull_sweep out)) (\<lambda>_.
        h_bind (if pull_drained out then h_drop_bucket ?key else h_return ()) (\<lambda>_.
        pull_answer_items (channel_log_id channel) (pull_items out)))) st)))"
      by (rule calm_bind, rule calm, rule calm_prune_then, erule store, rule clamp [OF admit], intro still_rules)
  qed
qed

subsection \<open>The logs of the tests\<close>

lemma up_calm:
  assumes "quiet W" and "up W lim token channel ps n st"
  shows "count_expired (st_retention_ttl_secs (store st)) (now_unix_secs (w_amb W i)) (tables (store st)) = []"
proof -
  let ?d = "tables (store st)" and ?now = "now_unix_secs (w_amb W i)"
  let ?ttl = "int RETENTION_TTL_SECS_DEFAULT"
  have boxes: "boxes (relay_of ?d) = (\<lambda>_. [])(route_key_for (w_sha W) channel := map (left_by W) ps)"
    and ttl: "st_retention_ttl_secs (store st) = ?ttl"
    using assms(2) by (simp_all add: up_def)
  have "\<not> e_expired ?ttl ?now e" if "e \<in> set (boxes (relay_of ?d) k)" for e k
    using that left_by_fresh [OF assms(1)] unfolding boxes by (auto split: if_splits)
  then have "\<not> expired ?ttl ?now m" if "m \<in> set (queue ?d k)" for m k
    using that by (force simp: relay_of_def e_expired_def expired_def entry_of_def)
  then have "filter (expired ?ttl ?now) (queue ?d k) = []" for k by (simp add: filter_empty_conv)
  then show ?thesis by (simp add: count_expired_def ttl filter_empty_conv)
qed

lemma logged:
  assumes "quiet W" and "up W lim token channel ps n st" and "n < 100"
    and "send_logged W i req st = (r, l, st')" and "req = PushReq h b \<or> req = PullReq h q"
  shows "audited (log_id_of (w_parsers W) req) req r l" and "send W i req st = (r, st')"
proof -
  have st: "app_reachable st" "last_seq (tables (store st)) < 2 ^ 63 - 1"
    using assms(2,3) by (simp_all add: up_def)
  have f: "faults1 (w_amb W i) = []" using assms(1) by (simp add: quiet_def)
  have run: "serve (w_sha W) (w_parsers W) (w_amb W i) req st = (r, l, st')"
    using assms(4) by (simp add: send_logged_def)
  have "calm_log (fst (snd (app (w_sha W) (w_parsers W) (w_amb W i) req st)))"
    using calm_push [OF app_reachable_ok [OF st(1)] f up_calm [OF assms(1,2)]]
      calm_pull [OF st f up_calm [OF assms(1,2)]] assms(5) by (auto simp: app_def)
  then have "calm_log l" using serve_logs [of "w_sha W" "w_parsers W" "w_amb W i" req st] run by simp
  then show "audited (log_id_of (w_parsers W) req) req r l"
    using serve_audited [of "w_parsers W" req "w_sha W" "w_amb W i" st] run by (simp add: calm_log_outcome)
  show "send W i req st = (r, st')" using run by (simp add: send_def)
qed

lemma logs_push:
  assumes "quiet W" and "up W lim token channel ps n st" and "n < 100"
    and "auth_ok (w_sha W) h token" and "resolve_route_token h = Inr channel"
    and "header_str h ''x-msg-id'' = None"
    and "data \<noteq> []" and "length data \<le> max_body_bytes lim" and "length ps < max_queue_depth lim"
  obtains st' where "send_logged W i (PushReq h data) st = (Reply 200 (PostResp (uuid_text (w_amb W i))),
      [Pushed (channel_log_id channel) (uuid_text (w_amb W i)) (length data)], st')"
    "up W lim token channel (ps @ [(i, data)]) (Suc n) st'"
proof -
  obtain r l st' where run: "send_logged W i (PushReq h data) st = (r, l, st')"
    by (cases "send_logged W i (PushReq h data) st")
  note a = logged [OF assms(1-3) run, of h data undefined]
  obtain s where "post_push W i h data st = (Reply 200 (PostResp (uuid_text (w_amb W i))), s)"
    "up W lim token channel (ps @ [(i, data)]) (Suc n) s"
    using accepts [OF assms, of i] by blast
  then show thesis
    using that [of st'] run a assms(5)
    by (simp add: post_push_def audited_def log_id_of_def secret_of_def)
qed

lemma logs_pull:
  assumes "quiet W" and "up W lim token channel ps n st" and "n < 100"
    and "auth_ok (w_sha W) h token" and "resolve_route_token h = Inr channel"
    and "0 < mx" and "mx \<le> max_queue_depth lim" and "ps \<noteq> []"
    and "sum_list (map (length \<circ> snd) ps) \<le> PULL_BUDGET_BYTES"
  obtains st' where "send_logged W i (PullReq h \<lparr>query_max = Some mx, query_ack = None\<rparr>) st =
    (Reply 200 (PullResp (items_of W (take mx ps))),
     map (\<lambda>(mid, b). Pulled (channel_log_id channel) mid (length b)) (items_of W (take mx ps)), st')"
proof -
  let ?q = "\<lparr>query_max = Some mx, query_ack = None\<rparr>"
  obtain r l st' where run: "send_logged W i (PullReq h ?q) st = (r, l, st')"
    by (cases "send_logged W i (PullReq h ?q) st")
  note a = logged [OF assms(1-3) run, of h undefined ?q]
  obtain s where "get_pull W i h mx st = (Reply 200 (PullResp (items_of W (take mx ps))), s)"
    using takes [OF assms(1-7,9), of i] assms(8) by auto
  then show thesis
    using that [of st'] run a assms(5)
    by (simp add: get_pull_def audited_def log_id_of_def secret_of_def)
qed

lemma logs_overload:
  assumes "quiet W" and "up W lim token channel ps n st" and "n < 100"
    and "auth_ok (w_sha W) h token" and "resolve_route_token h = Inr channel"
    and "data \<noteq> []" and "length data \<le> max_body_bytes lim" and "ps \<noteq> []"
    and "max_queue_depth lim \<le> length ps"
  obtains st' where "send_logged W i (PushReq h data) st =
    (Reply 429 (Code ''ERR_OVERLOADED''), [QueueOverloaded (length ps) (max_queue_depth lim)], st')"
proof -
  let ?key = "route_key_for (w_sha W) channel" and ?now = "now_unix_secs (w_amb W i)"
  let ?ttl = "st_retention_ttl_secs (store st)"
  have ok: "app_ok st" and lims: "app_limits st = lim" "relay_token st = token"
    using assms(2) app_reachable_ok by (simp_all add: up_def)
  then obtain d where conn: "conn (store st) = Mutex False d"
    by (cases "conn (store st)") (simp add: app_ok_def store_wf_def)
  have db: "db_ok d" using ok conn by (simp add: app_ok_def store_wf_def)
  have boxes: "boxes (relay_of d) = (\<lambda>_. [])(?key := map (left_by W) ps)" "slots (relay_of d) = (\<lambda>_. None)"
    and ttl: "?ttl = int RETENTION_TTL_SECS_DEFAULT"
    using assms(2) conn by (simp_all add: up_def)
  have "relay_of (swept ?ttl ?now d) = relay_of d"
    using sweep_quiet [OF assms(1) boxes, of i] relay_of_swept [OF db, of ?ttl ?now] by (simp add: ttl)
  then have "map entry_of (queue (swept ?ttl ?now d) ?key) = map (left_by W) ps"
    using boxes by (simp add: relay_of_def fun_eq_iff)
  then have depth: "length (queue (swept ?ttl ?now d) ?key) = length ps" by (metis length_map)
  then have live: "has_route ?key (swept ?ttl ?now d)"
    using swept_relay(2) [OF db, of ?ttl ?now ?key] assms(8) by fastforce
  have f: "faults1 (w_amb W i) = []" using assms(1) by (simp add: quiet_def)
  have none: "expired_routes (sweep_stats ?ttl ?now d) = []"
    using up_calm [OF assms(1,2), of i] conn by (simp add: sweep_stats_def)
  have admit: "push_admit (w_sha W) h data st = (Inr channel, [], st)"
    using assms(4-7) by (intro push_admit_run) (simp_all add: lims)
  have "\<exists>st'. push_status (w_amb W i) ?key lid st = (Inl (Reply 429 (Code ''ERR_OVERLOADED'')),
      [QueueOverloaded (length ps) (max_queue_depth lim)], st')" for lid
    using live depth assms(9) none
    by (auto simp: push_status_def h_bind_def h_store_def run_store_def store_route_status_def store_tx_def
        lock_def conn f route_status_run h_prune_def log_and_prune_sweep_def h_run lims update_buckets_def
        split: prod.split option.split)
  then obtain st' where "push_status (w_amb W i) ?key (channel_log_id channel) st =
      (Inl (Reply 429 (Code ''ERR_OVERLOADED'')), [QueueOverloaded (length ps) (max_queue_depth lim)], st')" by blast
  then have "push_message (w_sha W) (w_amb W i) h data st = (Inl (Reply 429 (Code ''ERR_OVERLOADED'')),
      [QueueOverloaded (length ps) (max_queue_depth lim)], st')"
    by (simp add: push_message_def h_bind_def admit Let_def)
  then show thesis using that by (simp add: send_logged_def serve_def app_def)
qed

subsection \<open>The captured text\<close>

lemma captured_simps [simp]:
  "captured line_prefix [e] = line_prefix 0 @ log_text e @ [CHR 0x0A]"
  "captured line_prefix [e, e'] =
     line_prefix 0 @ log_text e @ CHR 0x0A # line_prefix 1 @ log_text e' @ [CHR 0x0A]"
  by (simp_all add: captured_def)

lemma not_contained: "c \<in> set needle \<Longrightarrow> c \<notin> set hay \<Longrightarrow> \<not> sublist needle hay"
  using set_mono_sublist by blast

lemma contained: "sublist needle (xs @ needle @ ys)"
  by (rule sublist_appendI)

lemma long_hex_short: "run + length s < 32 \<Longrightarrow> \<not> long_hex run s"
  by (induction run s rule: long_hex.induct) auto

lemma long_hex_break:
  "\<not> lower_hex c \<Longrightarrow> long_hex run (xs @ c # ys) \<longleftrightarrow> long_hex run xs \<or> long_hex 0 ys"
  by (induction run xs rule: long_hex.induct) auto

lemma short_numbers [simp]: "nat_to_string (Suc 0) = ''1''"
  by code_simp

lemma readable_prefix:
  assumes "readable line_prefix W"
  obtains p where "line_prefix n = p @ '' ''" "CHR ''P'' \<notin> set p" "CHR ''k'' \<notin> set p" "\<not> long_hex 0 p"
  using assms unfolding readable_def by blast

lemma identifiers:
  assumes "readable line_prefix W"
  shows "CHR ''P'' \<notin> set (channel_log_id c)" "CHR ''k'' \<notin> set (channel_log_id c)"
    "\<not> long_hex 0 (channel_log_id c)"
    "CHR ''P'' \<notin> set (uuid_text (w_amb W n))" "CHR ''k'' \<notin> set (uuid_text (w_amb W n))"
    "\<not> long_hex 0 (uuid_text (w_amb W n))"
    "CHR ''P'' \<notin> set (nat_to_string m)" "CHR ''k'' \<notin> set (nat_to_string m)"
proof -
  have uuid: "set (uuid_text (w_amb W n)) \<subseteq> set ''0123456789abcdef-''" "\<not> long_hex 0 (uuid_text (w_amb W n))"
    using assms unfolding readable_def by blast+
  then show "\<not> long_hex 0 (uuid_text (w_amb W n))" by simp
  show "\<not> long_hex 0 (channel_log_id c)" using channel_log_id_shape [of c] by (intro long_hex_short) simp
  show "CHR ''P'' \<notin> set (channel_log_id c)" "CHR ''k'' \<notin> set (channel_log_id c)"
    using channel_log_id_shape [of c] by auto
  show "CHR ''P'' \<notin> set (uuid_text (w_amb W n))" "CHR ''k'' \<notin> set (uuid_text (w_amb W n))"
    using uuid(1) by auto
  show "CHR ''P'' \<notin> set (nat_to_string m)" "CHR ''k'' \<notin> set (nat_to_string m)"
    using digits_only [of m] by auto
qed

lemmas text_defs = log_text_def push_text_def pull_text_def overloaded_text_def

subsection \<open>The model passes\<close>

lemma log_channels [simp]:
  "trim ''nolog'' = ''nolog''" "trim ''route-token-sensitive'' = ''route-token-sensitive''"
  "trim ''route-token-super-sensitive-aaaaaaaaaaaaaaaaaaaa'' = ''route-token-super-sensitive-aaaaaaaaaaaaaaaaaaaa''"
  by code_simp+

lemma payload_test:
  assumes "quiet W" and "readable line_prefix W"
  shows "payload_not_logged line_prefix W"
proof -
  let ?lim = "test_limits (1024 * 1024) 8" and ?h = "route_header ''nolog''"
  let ?data = "as_bytes ''SECRET_PAYLOAD_ABC''"
  obtain st where st: "spawn_server_with_token W ?lim None = Some st" "up W ?lim None ''nolog'' [] 0 st"
    by (rule spawned [OF assms(1), of ?lim None]) simp_all
  let ?l = "[Pushed (channel_log_id ''nolog'') (uuid_text (w_amb W 0)) (length ?data)]"
  obtain s1 where s1: "send_logged W 0 (PushReq ?h ?data) st =
      (Reply 200 (PostResp (uuid_text (w_amb W 0))), ?l, s1)"
    by (rule logs_push [OF assms(1) st(2), of ?h ?data 0]) simp_all
  obtain p where p: "line_prefix 0 = p @ '' ''" "CHR ''P'' \<notin> set p"
    by (rule readable_prefix [OF assms(2), of 0])
  have "sublist ''push channel_id='' (captured line_prefix ?l)"
    using contained [of "''push channel_id=''" "line_prefix 0"] by (simp add: text_defs)
  moreover have "CHR ''P'' \<notin> set (captured line_prefix ?l)"
    using identifiers [OF assms(2)] by (simp add: p text_defs)
  then have "\<not> sublist ''SECRET_PAYLOAD_ABC'' (captured line_prefix ?l)"
    by (rule not_contained [rotated]) simp
  ultimately show ?thesis
    using st(1) s1 by (simp add: payload_not_logged_def spawn_server_def on_server_def Let_def)
qed

lemma channel_test:
  assumes "quiet W" and "readable line_prefix W"
  shows "logs_do_not_contain_raw_channel line_prefix W"
proof -
  let ?lim = "test_limits (1024 * 1024) 8" and ?c = "''route-token-sensitive''"
  let ?h = "route_header ?c" and ?data = "as_bytes ''log-redaction''" and ?u = "uuid_text (w_amb W 0)"
  obtain st where st: "spawn_server_with_token W ?lim None = Some st" "up W ?lim None ?c [] 0 st"
    by (rule spawned [OF assms(1), of ?lim None]) simp_all
  obtain s1 where s1: "send_logged W 0 (PushReq ?h ?data) st =
      (Reply 200 (PostResp ?u), [Pushed (channel_log_id ?c) ?u (length ?data)], s1)"
    "up W ?lim None ?c [(0, ?data)] 1 s1"
    by (rule logs_push [OF assms(1) st(2), of ?h ?data 0]) simp_all
  obtain s2 where s2: "send_logged W 1 (PullReq ?h \<lparr>query_max = Some 1, query_ack = None\<rparr>) s1 =
      (Reply 200 (PullResp [(?u, ?data)]), [Pulled (channel_log_id ?c) ?u (length ?data)], s2)"
    by (rule logs_pull [OF assms(1) s1(2), of ?h 1 1]) (simp_all add: items_of_def)
  let ?l = "[Pushed (channel_log_id ?c) ?u (length ?data), Pulled (channel_log_id ?c) ?u (length ?data)]"
  obtain p p' where p: "line_prefix 0 = p @ '' ''" "CHR ''k'' \<notin> set p" "line_prefix 1 = p' @ '' ''" "CHR ''k'' \<notin> set p'"
    using readable_prefix [OF assms(2), of 0] readable_prefix [OF assms(2), of 1] by metis
  have "sublist ''channel_id='' (captured line_prefix ?l)"
    using contained [of "''channel_id=''" "line_prefix 0 @ ''push ''"] by (simp add: text_defs)
  moreover have "CHR ''k'' \<notin> set (captured line_prefix ?l)"
    using identifiers [OF assms(2)] p by (simp add: text_defs)
  then have "\<not> sublist ?c (captured line_prefix ?l)" by (rule not_contained [rotated]) simp
  ultimately show ?thesis
    using st(1) s1(1) s2
    by (simp add: logs_do_not_contain_raw_channel_def spawn_server_def on_server_def Let_def)
qed

lemma overload_test:
  assumes "quiet W" and "readable line_prefix W"
  shows "overload_logs_are_safe_and_structured line_prefix W"
proof -
  let ?lim = "test_limits (1024 * 1024) 1" and ?c = "''route-token-super-sensitive-aaaaaaaaaaaaaaaaaaaa''"
  let ?h = "route_header ?c" and ?u = "uuid_text (w_amb W 0)"
  obtain st where st: "spawn_server_with_token W ?lim None = Some st" "up W ?lim None ?c [] 0 st"
    by (rule spawned [OF assms(1), of ?lim None]) simp_all
  obtain s1 where s1: "send_logged W 0 (PushReq ?h (as_bytes ''a'')) st =
      (Reply 200 (PostResp ?u), [Pushed (channel_log_id ?c) ?u 1], s1)"
    "up W ?lim None ?c [(0, as_bytes ''a'')] 1 s1"
    by (rule logs_push [OF assms(1) st(2), of ?h "as_bytes ''a''" 0]) simp_all
  obtain s2 where s2: "send_logged W 1 (PushReq ?h (as_bytes ''b'')) s1 =
      (Reply 429 (Code ''ERR_OVERLOADED''), [QueueOverloaded 1 1], s2)"
    by (rule logs_overload [OF assms(1) s1(2), of ?h "as_bytes ''b''" 1]) simp_all
  let ?l = "[Pushed (channel_log_id ?c) ?u 1, QueueOverloaded 1 1]"
  obtain p p' where p: "line_prefix 0 = p @ '' ''" "CHR ''k'' \<notin> set p" "\<not> long_hex 0 p"
    "line_prefix 1 = p' @ '' ''" "CHR ''k'' \<notin> set p'" "\<not> long_hex 0 p'"
    using readable_prefix [OF assms(2), of 0] readable_prefix [OF assms(2), of 1] by metis
  let ?start = "line_prefix 0 @ push_text (channel_log_id ?c) ?u 1 @ CHR 0x0A # line_prefix 1"
  have "sublist ''event=overloaded'' (captured line_prefix ?l)"
    using contained [of "''event=overloaded''" ?start] by (simp add: text_defs)
  moreover have "sublist ''queue_depth='' (captured line_prefix ?l)"
    using contained [of "''queue_depth=''" "?start @ ''event=overloaded ''"] by (simp add: text_defs)
  moreover have "sublist ''max='' (captured line_prefix ?l)"
    using contained [of "''max=''" "?start @ ''event=overloaded queue_depth=1 ''"] by (simp add: text_defs)
  moreover have "CHR ''k'' \<notin> set (captured line_prefix ?l)"
    using identifiers [OF assms(2)] p by (simp add: text_defs)
  then have "\<not> sublist ?c (captured line_prefix ?l)" by (rule not_contained [rotated]) simp
  moreover have "\<not> long_hex 0 (captured line_prefix ?l)"
    using identifiers [OF assms(2)] p by (simp add: text_defs long_hex_break lower_hex_def)
  ultimately show ?thesis
    using st(1) s1(1) s2
    by (simp add: overload_logs_are_safe_and_structured_def spawn_server_def on_server_def Let_def text_is_def)
qed

lemma log_tests_pass:
  assumes "quiet W" and "readable line_prefix W"
  shows "failures (log_tests line_prefix W) = []"
  using payload_test [OF assms] channel_test [OF assms] overload_test [OF assms]
  by (simp add: log_tests_def)

subsection \<open>The tests of the relay\<close>

lemma failures_append [simp]: "failures (xs @ ys) = failures xs @ failures ys"
  by (simp add: failures_def)

definition relay_tests :: "(nat \<Rightarrow> string) \<Rightarrow> world \<Rightarrow> (string \<times> bool) list" where
  "relay_tests line_prefix W = http_tests W @ log_tests line_prefix W"

text \<open>
  C39: The relay passes its own unit tests. Whatever the process environment, the JSON
  parsers, the clocks, the UUIDs, the digest function and the prefixes of log lines, as long as
  the world is quiet and readable, none of the fourteen tests of \<open>src/lib.rs\<close> that run the relay
  fails on the model: what is pushed is pulled once and in order; a body over the limit and a
  push into a full queue are refused and leave no trace; with a configured token only the right
  bearer passes; the identifier of a channel is deterministic and does not show its token; and
  neither payloads nor route tokens appear in the log.
\<close>

theorem relay_tests_pass:
  assumes "quiet W" and "readable line_prefix W"
  shows "failures (relay_tests line_prefix W) = []"
  by (simp add: relay_tests_def http_tests_pass [OF assms(1)] log_tests_pass [OF assms(1,2)])

text \<open>A quiet world and its log prefix.\<close>

definition quiet_world :: world where
  "quiet_world = \<lparr>w_env = no_env, w_sha = sample_sha,
     w_parsers = \<lparr>parse_ack = \<lambda>_. None, parse_create = \<lambda>_. None, parse_redeem = \<lambda>_. None,
       parse_revoke = \<lambda>_. None\<rparr>,
     w_faults = [], w_start = 0,
     w_amb = (\<lambda>n. \<lparr>sys_ns = 1000 * int ns_per_sec, mono_ns = n, uuid_bytes = replicate 16 0,
       uuid_text = ''6f1c2a90-4be1-4d7e-9a35-0c8d5e2b7f14'', faults1 = [], faults2 = []\<rparr>)\<rparr>"

definition quiet_prefix :: "nat \<Rightarrow> string" where
  "quiet_prefix n = ''INFO qsl_server: ''"

theorem relay_tests_pass_witness:
  "failures (relay_tests quiet_prefix quiet_world) = [] \<and>
   overload_logs_are_safe_and_structured quiet_prefix quiet_world"
proof -
  have "quiet quiet_world"
    by (simp add: quiet_def quiet_world_def sample_sha_digest32 now_unix_secs_def default_defs)
       (simp add: sample_sha_def as_bytes_def)
  moreover have "readable quiet_prefix quiet_world"
    unfolding readable_def
  proof (intro conjI allI)
    fix n
    show "\<exists>p. quiet_prefix n = p @ '' '' \<and> CHR ''P'' \<notin> set p \<and> CHR ''k'' \<notin> set p \<and> \<not> long_hex 0 p"
      by (rule exI [of _ "''INFO qsl_server:''"]) (simp add: quiet_prefix_def lower_hex_def)
    show "set (uuid_text (w_amb quiet_world n)) \<subseteq> set ''0123456789abcdef-''"
      "\<not> long_hex 0 (uuid_text (w_amb quiet_world n))"
      by (simp_all add: quiet_world_def lower_hex_def)
  qed
  ultimately show ?thesis
    using relay_tests_pass [of quiet_world quiet_prefix]
    by (simp add: relay_tests_def log_tests_def split: if_splits)
qed

end
