(* ===== verification/Spec2Isabelle.thy ===== *)
theory Spec2Isabelle imports Races Tests_Log begin

text \<open>
  Verification of the \<^verbatim>\<open>qsl-server\<close> relay: a store-and-forward HTTP service that keeps opaque
  messages in per-route queues and invite bundles in one-shot slots, in one SQLite file.
  The program is three files: \<^verbatim>\<open>src/lib.rs\<close> (limits, rate limiter, codecs, credentials, state,
  handlers, router), \<^verbatim>\<open>src/store.rs\<close> (the durable store) and \<^verbatim>\<open>src/main.rs\<close> (configuration and
  start-up). Every function of the three files outside their test modules is modelled here;
  the constructors, guards and early returns are in the order of the code.

  \<^bold>\<open>How the parts interact.\<close> \<open>main\<close> reads the command line and the environment, resolves them to a
  configuration, opens the store and builds the application state. A request passes the
  bearer gate, is validated, and calls the store one to two times; each store call is one
  SQLite transaction under the connection's mutex. A push also takes a token from the rate
  bucket of its route, a create one from a global bucket. Every operation on a route starts
  with a retention sweep, and so does the background sweeper every minute. The keys of routes
  and slots are SHA-256 digests of the client's tokens; an invite slot guards the route of the
  same token: until it expires, a push into it needs the ticket that a redemption issued.

  \<^bold>\<open>Theories and the code they model\<close>
  \<^item> \<open>Prelude\<close>, \<open>Rust_Text\<close>: machine integers, results, mutexes; the string and number functions
    of Rust's library that the code uses (trim, parse, prefixes, formatting).
  \<^item> \<open>Config\<close>: \<open>Limits\<close>, \<open>InviteLimits\<close>, \<open>ResourceControls\<close>, \<open>StoreConfig\<close>, \<open>ServerInfoCfg\<close>, their
    ceilings, constructors and environment readers. \<open>Startup\<close>: \<open>Cli\<close>, \<open>EnvVals\<close>, \<open>resolve_config\<close>.
  \<^item> \<open>Rate_Limit\<close>: \<open>PushRateBucket\<close>. \<open>Base64\<close>: \<open>b64_encode\<close>, \<open>b64_decode\<close>. \<open>Credentials\<close>: \<open>auth_ok\<close>,
    \<open>ct_eq_secret\<close>, \<open>resolve_route_token\<close>, \<open>route_key_for\<close>, \<open>channel_log_id\<close>, tokens.
  \<^item> \<open>Database\<close>: the tables as lists of rows and one definition per SQL statement, in a monad that
    threads the tables and a schedule of SQLite failures. \<open>Store\<close>: the eight operations of
    \<open>Store\<close>, each as the body of its transaction (suffix \<open>_tx\<close>) and the call under the mutex
    (prefix \<open>store_\<close>), with their closed forms without failures. \<open>Store_Open\<close>: \<open>Store::open\<close>.
  \<^item> \<open>App\<close>: \<open>AppState\<close>, its constructors, log events and replies, the handler monad, \<open>run_store\<close>, the
    sweep and the rate buckets. \<open>Handlers\<close>: the seven routes and the router. \<open>Boot\<close>: \<open>main\<close>,
    from the command line to its exit, with the exit by \<open>ERR_SERVER_RUNTIME\<close> after it has served.

  \<^bold>\<open>Theories of properties\<close>
  \<^item> \<open>Store_Ops\<close> (one type of operations, atomicity under failures), \<open>Store_Inv\<close> (the invariant of
    the tables and the caps), \<open>Mailbox\<close> (an abstract relay of queues and slots, and the theorem
    that the store refines it), \<open>Ledger\<close> (accounting over runs, as locales), \<open>Conservation\<close> (no
    message is lost, duplicated or misrouted), \<open>Slots\<close> (capabilities and tickets are spent at
    most once), \<open>Slot_Machine\<close> (the state machine of a slot, and its life from create to
    expiry with any operations in between that spare it), \<open>Delivery\<close> (order, byte budget,
    acknowledgements, and that a lease left alone is delivered again whatever ran since), \<open>Drain\<close> (a reader's loop empties a quiet route).
  \<^item> \<open>Relay\<close>: a handler is a chain of atomic steps on the shared state (a store operation, a rate
    gate, a pruning), and the steps keep the invariant of the state, so every interleaving of
    concurrent requests does. \<open>Service\<close>: reachable relays, their limits, the bearer gate, error
    replies that change nothing. \<open>Privacy\<close>: replies and logs commute with zeroing payloads.
  \<^item> \<open>Exchange\<close>, \<open>Clients\<close>: handlers run forwards and backwards; what one client pushes or publishes
    another pulls or redeems, the ticket that guards a slot, when a push or a create is
    accepted. \<open>Boot\<close> also states what a start and a restart promise. \<open>Samples\<close>: concrete relays at
    which the theorems are exercised.
  \<^item> \<open>Tasks\<close>: each handler and a round of the sweeper as a task, a tree of atomic steps: a store
    call (one locked transaction on the blocking pool), a rate gate under its mutex, a pruning
    of buckets, a log line. The configuration is read from the clone of the state that axum
    hands to the handler. A task run alone is its handler (\<open>task_alone\<close>). \<open>Pool\<close>: the server, a list
    of such tasks on one shared state; an execution is a list of events (a request arrives, the
    sweeper comes due, a task runs for one step, a client goes away and its handler is dropped
    where it waits), so a theorem on all lists of events holds for every schedule. Requests
    that do not overlap are served as \<open>serve\<close> says. \<open>Concurrent\<close>: the state stays
    reachable and the replies keep to the table of \<open>Contract\<close>. \<open>Linear\<close>: every execution is a
    serial run of store operations whose deeds are those that the replies report, so the
    accounts of \<open>Conservation\<close> and \<open>Slots\<close> hold of what concurrent clients are told. \<open>Lossless\<close>: while
    nothing expires and nobody acknowledges, nothing is lost either. \<open>Leases\<close>: within the length of
    a lease no copy is handed to two readers. The last two say of every schedule what
    \<^verbatim>\<open>tests/na0642_concurrency.rs\<close> tries on some. \<open>Costs\<close>: how many store calls a
    reply stands for, and that the gate of creates bounds theirs however many arrive. \<open>Expiry\<close>:
    a push meets a slot that has expired only if a create of that slot overlaps it. \<open>Races\<close>:
    concrete overlaps, among them that one.
  \<^item> \<open>Http_Spec\<close>: the relay at its HTTP surface without tables, transactions and locks: for each of
    the seven routes, the reply and the next queues, slots and buckets. \<open>Http_Refine\<close>: each handler,
    run on states in a normal form, is that specification. \<open>Tenants\<close>: serving refines the
    specification, and read off it, a request touches no route but its own and learns nothing of
    the others. \<open>Contract\<close>: the table of statuses and error codes of each route, as a typing of
    the replies.
  \<^item> \<open>Log_Trail\<close>: the events each reply leaves in the log, and that they name channels only by their
    hash. \<open>Log_Text\<close>: the text of the log lines. \<open>Log_Sync\<close>: the helper by which tests wait for a
    line: it returns when the clock runs, its report never cuts a character, and the snapshot it
    hands out holds every line waited for.
  \<^item> \<open>Tests_Startup\<close>, \<open>Tests_Relay\<close>, \<open>Tests_Log\<close>: the unit tests of \<^verbatim>\<open>src/main.rs\<close> and \<^verbatim>\<open>src/lib.rs\<close>, one
    definition per test function; the model passes those that run the relay for every
    environment, clock, UUID, digest and log prefix in a quiet and readable world. They check
    the model against what its authors expect of the program.

  \<^bold>\<open>Interfaces.\<close> The contracts between components are locales, interpreted on the code's own
  definitions: \<open>clamped_setting\<close> (the validators), \<open>token_bucket\<close> (the gates), \<open>canonical_codec\<close>
  (base64), \<open>ledger\<close> (message queues, capabilities, tickets), \<open>spending\<close> (a ledger with waste: copies in a reader's
  reach) and \<open>fifo_queue\<close> (a route).

  \<^bold>\<open>Parameters.\<close> What the code does not contain is an argument: the SHA-256 function (a theorem that
  needs it asks for digests of 32 bytes, none for freedom of collisions; the unit tests ask that
  their two wrong tokens do not collide with the right one), the random bytes of tokens, the two clocks, the JSON parsers of request bodies, the file behind the store path,
  the parsing and binding of the listen address, and the failures SQLite reports: each
  statement consumes one entry of a schedule, and theorems hold for all schedules unless they
  say that nothing fails. No fuel is used: all loops are structural or have a measure, but
  for the wait of \<open>Log_Sync\<close>, a partial function that is shown to return when the clock runs.

  \<^bold>\<open>Bounds.\<close> \<open>usize\<close> is 64 bits wide and \<open>i64\<close> wraps or saturates as the code says. The row
  counter of \<open>AUTOINCREMENT\<close> stops at \<open>2 ^ 63 - 1\<close> as SQLite's does; theorems about progress ask
  for a counter below that.

  \<^bold>\<open>Not modelled.\<close> The wire form of HTTP and JSON (axum, serde) with the rejections
  axum makes before a handler runs (a malformed query, its default body limit), the tokio runtime (the scheduler is the list of events of \<open>Pool\<close>; a store call on
  the blocking pool is taken to complete, also when its client went away; the panic arm of
  \<open>run_store\<close> is not reached), SQLite's
  own durability (the pragmas change no table) and the prefix of log lines. SQL leaves the
  order of the counts by route that a sweep logs open; the model has it in the order of the
  table of routes. The reachable relays start on files within the configured caps: a restart
  with lower caps on a fuller file is outside the theorems on them.
  Of the test modules: the installation of the log subscriber and what the tests assert of it
  (the last two assertions of the test of \<open>Log_Sync\<close>), the test of SQLite's query plans in
  \<^verbatim>\<open>src/store.rs\<close> and the integration tests. The scripts and the packaging hold no
  program logic.
\<close>

end
